(* ===== verification/Prelude.thy ===== *)
theory Prelude
  imports Main "HOL-Library.Multiset" "HOL-Library.Monad_Syntax"
begin

text \<open>
  What every component shares: the effect of a C statement sequence (a state transformer that
  can end in a fault), its rules for pre- and postconditions, checked array accesses, and the
  functions of the C library that the sources call on strings (\<open>strncmp\<close>, the
  \<open>%d\<close> conversions of \<open>printf\<close> and \<open>scanf\<close>).

  Indices and counters are C \<open>int\<close>s, modelled by \<open>int\<close>; an access outside
  an array is undefined behaviour in C and is the value \<open>None\<close> of a pure function and
  the fault \<open>Undefined\<close> of an effectful one.
\<close>

subsection \<open>Programs: state transformers with faults\<close>

text \<open>
  How a run can end early: by \<open>exit(n)\<close>, by undefined behaviour, or not at all.
\<close>

datatype fault = Exited int | Undefined | Diverges

type_synonym ('s, 'a) prog = "'s \<Rightarrow> (fault + 'a) \<times> 's"

fun ret :: "'a \<Rightarrow> ('s, 'a) prog" where
  "ret a s = (Inr a, s)"

fun failp :: "fault \<Rightarrow> ('s, 'a) prog" where
  "failp e s = (Inl e, s)"

fun bindp :: "('s, 'a) prog \<Rightarrow> ('a \<Rightarrow> ('s, 'b) prog) \<Rightarrow> ('s, 'b) prog" where
  "bindp m f s = (case m s of (Inl e, s') \<Rightarrow> (Inl e, s') | (Inr a, s') \<Rightarrow> f a s')"

definition thenp :: "('s, 'a) prog \<Rightarrow> ('s, 'b) prog \<Rightarrow> ('s, 'b) prog" where
  "thenp m k = bindp m (\<lambda>_. k)"

fun getp :: "('s \<Rightarrow> 'a) \<Rightarrow> ('s, 'a) prog" where
  "getp f s = (Inr (f s), s)"

fun modp :: "('s \<Rightarrow> 's) \<Rightarrow> ('s, unit) prog" where
  "modp f s = (Inr (), f s)"

text \<open>A pure computation whose \<open>None\<close> is undefined behaviour.\<close>

fun liftp :: "'a option \<Rightarrow> ('s, 'a) prog" where
  "liftp None s = (Inl Undefined, s)"
| "liftp (Some a) s = (Inr a, s)"

fun forp :: "'b list \<Rightarrow> ('b \<Rightarrow> ('s, unit) prog) \<Rightarrow> ('s, unit) prog" where
  "forp [] f s = (Inr (), s)"
| "forp (x # xs) f s = bindp (f x) (\<lambda>_. forp xs f) s"

text \<open>A loop that carries a local variable.\<close>

fun foldp :: "'b list \<Rightarrow> ('b \<Rightarrow> 'a \<Rightarrow> ('s, 'a) prog) \<Rightarrow> 'a \<Rightarrow> ('s, 'a) prog" where
  "foldp [] f a s = (Inr a, s)"
| "foldp (x # xs) f a s = bindp (f x a) (foldp xs f) s"

text \<open>Attempts in order, until one yields a value.\<close>

fun firstp :: "'b list \<Rightarrow> ('b \<Rightarrow> ('s, 'a option) prog) \<Rightarrow> ('s, 'a option) prog" where
  "firstp [] f s = (Inr None, s)"
| "firstp (x # xs) f s =
     bindp (f x) (\<lambda>r. case r of Some a \<Rightarrow> ret (Some a) | None \<Rightarrow> firstp xs f) s"

lemma thenp_apply [simp]: "thenp m k s = bindp m (\<lambda>_. k) s"
  by (simp add: thenp_def)

lemma bindp_Inr [simp]: "m s = (Inr a, s') \<Longrightarrow> bindp m f s = f a s'"
  by simp

lemma bindp_Inl [simp]: "m s = (Inl e, s') \<Longrightarrow> bindp m f s = (Inl e, s')"
  by simp

lemma bindp_InrE:
  assumes "bindp m f s = (Inr b, t)"
  obtains a s' where "m s = (Inr a, s')" and "f a s' = (Inr b, t)"
  using assms by (auto split: prod.splits sum.splits)

lemma liftp_eq_Inr [simp]: "liftp x s = (Inr a, t) \<longleftrightarrow> x = Some a \<and> t = s"
  by (cases x) auto

subsection \<open>Triples\<close>

text \<open>
  \<open>triple P m Q E\<close>: from a state with \<open>P\<close>, \<open>m\<close> ends in a state with
  \<open>Q\<close> of its value, or in a fault with \<open>E\<close>. With \<open>E\<close> false it says that
  \<open>m\<close> returns; with \<open>E\<close> true it speaks of normal returns only.
\<close>

definition triple ::
  "('s \<Rightarrow> bool) \<Rightarrow> ('s, 'a) prog \<Rightarrow> ('a \<Rightarrow> 's \<Rightarrow> bool) \<Rightarrow> (fault \<Rightarrow> 's \<Rightarrow> bool) \<Rightarrow> bool" where
  "triple P m Q E \<longleftrightarrow>
     (\<forall>s. P s \<longrightarrow> (case m s of (Inl e, s') \<Rightarrow> E e s' | (Inr a, s') \<Rightarrow> Q a s'))"

abbreviation keeps :: "('s \<Rightarrow> bool) \<Rightarrow> ('s, 'a) prog \<Rightarrow> bool" where
  "keeps I m \<equiv> triple I m (\<lambda>_. I) (\<lambda>_. I)"

named_theorems triples "introduction rules for triples of the basic programs"

lemma tripleI:
  assumes "\<And>s a t. P s \<Longrightarrow> m s = (Inr a, t) \<Longrightarrow> Q a t"
    and "\<And>s e t. P s \<Longrightarrow> m s = (Inl e, t) \<Longrightarrow> E e t"
  shows "triple P m Q E"
  using assms by (auto simp: triple_def split: prod.splits sum.splits)

lemma triple_Inr: "triple P m Q E \<Longrightarrow> P s \<Longrightarrow> m s = (Inr a, t) \<Longrightarrow> Q a t"
  by (force simp: triple_def)

lemma triple_Inl: "triple P m Q E \<Longrightarrow> P s \<Longrightarrow> m s = (Inl e, t) \<Longrightarrow> E e t"
  by (force simp: triple_def)

lemma triple_returns: "triple P m Q (\<lambda>_ _. False) \<Longrightarrow> P s \<Longrightarrow> \<exists>a t. m s = (Inr a, t) \<and> Q a t"
  by (cases "m s"; cases "fst (m s)") (auto simp: triple_def)

lemma triple_ret [triples]: "(\<And>s. P s \<Longrightarrow> Q a s) \<Longrightarrow> triple P (ret a) Q E"
  by (simp add: triple_def)

lemma triple_failp [triples]: "(\<And>s. P s \<Longrightarrow> E e s) \<Longrightarrow> triple P (failp e) Q E"
  by (simp add: triple_def)

lemma triple_getp [triples]: "(\<And>s. P s \<Longrightarrow> Q (f s) s) \<Longrightarrow> triple P (getp f) Q E"
  by (simp add: triple_def)

lemma triple_modp [triples]: "(\<And>s. P s \<Longrightarrow> Q () (f s)) \<Longrightarrow> triple P (modp f) Q E"
  by (simp add: triple_def)

lemma triple_liftp [triples]:
  assumes "\<And>s. P s \<Longrightarrow> x = None \<Longrightarrow> E Undefined s"
    and "\<And>s a. P s \<Longrightarrow> x = Some a \<Longrightarrow> Q a s"
  shows "triple P (liftp x) Q E"
  using assms by (cases x) (auto simp: triple_def)

lemma triple_bindp:
  assumes "triple P m R E" and "\<And>a. triple (R a) (f a) Q E"
  shows "triple P (bindp m f) Q E"
proof (rule tripleI)
  fix s b t assume P: "P s" and run: "bindp m f s = (Inr b, t)"
  from run obtain a s' where "m s = (Inr a, s')" "f a s' = (Inr b, t)" by (rule bindp_InrE)
  then show "Q b t" using assms P by (blast dest: triple_Inr)
next
  fix s e t assume P: "P s" and "bindp m f s = (Inl e, t)"
  then show "E e t"
    by (auto split: prod.splits sum.splits dest: triple_Inl [OF assms(1)]
        triple_Inr [OF assms(1)] triple_Inl [OF assms(2)])
qed

lemma triple_bindp_keeps:
  assumes "triple P m (\<lambda>_. I) E" and "\<And>a. triple I (f a) Q E"
  shows "triple P (bindp m f) Q E"
  using assms by (rule triple_bindp)

lemma triple_thenp: "triple P m (\<lambda>_. R) E \<Longrightarrow> triple R k Q E \<Longrightarrow> triple P (thenp m k) Q E"
  unfolding thenp_def by (rule triple_bindp)

lemma triple_if [triples]:
  "(b \<Longrightarrow> triple P m Q E) \<Longrightarrow> (\<not> b \<Longrightarrow> triple P k Q E) \<Longrightarrow> triple P (if b then m else k) Q E"
  by simp

lemma triple_case_prod: "(\<And>x y. triple P (k x y) Q E) \<Longrightarrow> triple P (case z of (x, y) \<Rightarrow> k x y) Q E"
  by (cases z) simp

lemma triple_conseq:
  assumes "triple P' m Q' E'" and "\<And>s. P s \<Longrightarrow> P' s"
    and "\<And>a s. Q' a s \<Longrightarrow> Q a s" and "\<And>e s. E' e s \<Longrightarrow> E e s"
  shows "triple P m Q E"
  using assms unfolding triple_def by (fastforce split: prod.splits sum.splits)

lemma triple_pre: "triple P' m Q E \<Longrightarrow> (\<And>s. P s \<Longrightarrow> P' s) \<Longrightarrow> triple P m Q E"
  by (rule triple_conseq)

lemma triple_post: "triple P m Q' E \<Longrightarrow> (\<And>a s. Q' a s \<Longrightarrow> Q a s) \<Longrightarrow> triple P m Q E"
  by (rule triple_conseq)

lemma triple_forp:
  assumes "\<And>x. x \<in> set xs \<Longrightarrow> triple I (f x) (\<lambda>_. I) E"
  shows "triple I (forp xs f) (\<lambda>_. I) E"
  using assms
proof (induction xs)
  case Nil
  then show ?case by (simp add: triple_def)
next
  case (Cons x xs)
  have eq: "forp (x # xs) f = bindp (f x) (\<lambda>_. forp xs f)" by (rule ext) simp
  show ?case unfolding eq using Cons by (intro triple_bindp) auto
qed

text \<open>Counting loops, with an assertion that depends on the counter.\<close>

lemma triple_foldp_upto:
  assumes "\<And>i c. a \<le> i \<Longrightarrow> i < b \<Longrightarrow> triple (J i c) (f i c) (J (i + 1)) E" and "a \<le> b"
  shows "triple (J a c) (foldp [a..b - 1] f c) (J b) E"
  using assms
proof (induction "nat (b - a)" arbitrary: a c)
  case 0
  then have "a = b" by simp
  then show ?case by (simp add: triple_def)
next
  case (Suc d)
  then have lt: "a < b" by simp
  then have up: "[a..b - 1] = a # [a + 1..b - 1]" by (simp add: upto_rec1)
  have eq: "foldp [a..b - 1] f c = bindp (f a c) (foldp [a + 1..b - 1] f)"
    unfolding up by (rule ext) simp
  have "triple (J (a + 1) x) (foldp [a + 1..b - 1] f x) (J b) E" for x
    using Suc lt by (intro Suc.hyps(1)) auto
  then show ?case unfolding eq using Suc.prems(1) [of a c] lt by (intro triple_bindp) auto
qed

lemma triple_forp_upto:
  assumes "\<And>i. a \<le> i \<Longrightarrow> i < b \<Longrightarrow> triple (J i) (f i) (\<lambda>_. J (i + 1)) E" and "a \<le> b"
  shows "triple (J a) (forp [a..b - 1] f) (\<lambda>_. J b) E"
  using assms
proof (induction "nat (b - a)" arbitrary: a)
  case 0
  then have "a = b" by simp
  then show ?case by (simp add: triple_def)
next
  case (Suc d)
  then have lt: "a < b" by simp
  then have up: "[a..b - 1] = a # [a + 1..b - 1]" by (simp add: upto_rec1)
  have eq: "forp [a..b - 1] f = bindp (f a) (\<lambda>_. forp [a + 1..b - 1] f)"
    unfolding up by (rule ext) simp
  have "triple (J (a + 1)) (forp [a + 1..b - 1] f) (\<lambda>_. J b) E"
    using Suc lt by (intro Suc.hyps(1)) auto
  then show ?case unfolding eq using Suc.prems(1) [of a] lt by (intro triple_bindp) auto
qed

text \<open>The rules that lift an invariant over a program, whatever values it computes.\<close>

lemma keeps_bindp: "keeps I m \<Longrightarrow> (\<And>a. keeps I (f a)) \<Longrightarrow> keeps I (bindp m f)"
  by (rule triple_bindp)

lemma keeps_thenp: "keeps I m \<Longrightarrow> keeps I k \<Longrightarrow> keeps I (thenp m k)"
  by (rule triple_thenp)

lemma keeps_forp: "(\<And>x. x \<in> set xs \<Longrightarrow> keeps I (f x)) \<Longrightarrow> keeps I (forp xs f)"
  by (rule triple_forp)

lemma keeps_foldp: "(\<And>x a. x \<in> set xs \<Longrightarrow> keeps I (f x a)) \<Longrightarrow> keeps I (foldp xs f a)"
proof (induction xs arbitrary: a)
  case Nil
  then show ?case by (simp add: triple_def)
next
  case (Cons x xs)
  have eq: "foldp (x # xs) f a = bindp (f x a) (foldp xs f)" by (rule ext) simp
  show ?case unfolding eq using Cons by (intro keeps_bindp) auto
qed

lemma keeps_firstp: "(\<And>x. x \<in> set xs \<Longrightarrow> keeps I (f x)) \<Longrightarrow> keeps I (firstp xs f)"
proof (induction xs)
  case Nil
  then show ?case by (simp add: triple_def)
next
  case (Cons x xs)
  have eq: "firstp (x # xs) f =
      bindp (f x) (\<lambda>r. case r of Some a \<Rightarrow> ret (Some a) | None \<Rightarrow> firstp xs f)" by (rule ext) simp
  have "keeps I (firstp xs f)" using Cons by simp
  moreover have "keeps I (ret (Some a))" for a by (simp add: triple_def)
  ultimately show ?case unfolding eq using Cons by (intro keeps_bindp) (auto split: option.split)
qed

lemma keeps_ret: "keeps I (ret a)"
  by (simp add: triple_def)

lemma keeps_failp: "keeps I (failp e)"
  by (simp add: triple_def)

lemma keeps_getp: "keeps I (getp f)"
  by (simp add: triple_def)

lemma keeps_liftp: "keeps I (liftp x)"
  by (cases x) (auto simp: triple_def)

lemma keeps_if: "keeps I m \<Longrightarrow> keeps I k \<Longrightarrow> keeps I (if b then m else k)"
  by simp

lemma keeps_case_option:
  "keeps I m \<Longrightarrow> (\<And>x. keeps I (k x)) \<Longrightarrow> keeps I (case y of None \<Rightarrow> m | Some x \<Rightarrow> k x)"
  by (cases y) auto

lemma keeps_case_prod: "(\<And>x y. keeps I (k x y)) \<Longrightarrow> keeps I (case z of (x, y) \<Rightarrow> k x y)"
  by (cases z) auto

lemma keeps_modp: "(\<And>s. I s \<Longrightarrow> I (f s)) \<Longrightarrow> keeps I (modp f)"
  by (simp add: triple_def)

lemmas keeps_intros = keeps_bindp keeps_thenp keeps_forp keeps_foldp keeps_firstp keeps_ret keeps_failp keeps_getp
  keeps_liftp keeps_if keeps_case_option keeps_case_prod

lemma keepsD:
  assumes "keeps I m" and "I s" and "m s = (r, t)"
  shows "I t"
  using assms by (cases r) (auto dest: triple_Inr triple_Inl)

lemma keepsI: "(\<And>s r t. I s \<Longrightarrow> m s = (r, t) \<Longrightarrow> I t) \<Longrightarrow> keeps I m"
  by (rule tripleI) auto

text \<open>
  \<open>stays I m\<close>: \<open>m\<close> keeps \<open>I\<close> when it returns, and when it does not, it ended by
  \<open>exit\<close> or undefined behaviour: it does not run for ever.
\<close>

abbreviation stays :: "('s \<Rightarrow> bool) \<Rightarrow> ('s, 'a) prog \<Rightarrow> bool" where
  "stays I m \<equiv> triple I m (\<lambda>_. I) (\<lambda>e _. e \<noteq> Diverges)"

lemma stays_bindp: "stays I m \<Longrightarrow> (\<And>a. stays I (f a)) \<Longrightarrow> stays I (bindp m f)"
  by (rule triple_bindp)

lemma stays_thenp: "stays I m \<Longrightarrow> stays I k \<Longrightarrow> stays I (thenp m k)"
  by (rule triple_thenp)

lemma stays_forp: "(\<And>x. x \<in> set xs \<Longrightarrow> stays I (f x)) \<Longrightarrow> stays I (forp xs f)"
  by (rule triple_forp)

lemma stays_foldp: "(\<And>x a. x \<in> set xs \<Longrightarrow> stays I (f x a)) \<Longrightarrow> stays I (foldp xs f a)"
proof (induction xs arbitrary: a)
  case Nil
  then show ?case by (simp add: triple_def)
next
  case (Cons x xs)
  have eq: "foldp (x # xs) f a = bindp (f x a) (foldp xs f)" by (rule ext) simp
  show ?case unfolding eq using Cons by (intro stays_bindp) auto
qed

lemma triple_firstp:
  assumes "\<And>x. x \<in> set xs \<Longrightarrow>
      triple P (f x) (\<lambda>r s. case r of None \<Rightarrow> P s | Some a \<Rightarrow> Q a s) E"
  shows "triple P (firstp xs f) (\<lambda>r s. case r of None \<Rightarrow> P s | Some a \<Rightarrow> Q a s) E"
  using assms
proof (induction xs)
  case Nil
  then show ?case by (simp add: triple_def)
next
  case (Cons x xs)
  have eq: "firstp (x # xs) f =
      bindp (f x) (\<lambda>r. case r of Some a \<Rightarrow> ret (Some a) | None \<Rightarrow> firstp xs f)" by (rule ext) simp
  have "triple P (f x) (\<lambda>r s. case r of None \<Rightarrow> P s | Some a \<Rightarrow> Q a s) E" using Cons by simp
  moreover have "triple P (firstp xs f) (\<lambda>r s. case r of None \<Rightarrow> P s | Some a \<Rightarrow> Q a s) E"
    using Cons by simp
  ultimately show ?case unfolding eq
    by (elim triple_bindp) (auto intro: triple_ret split: option.split)
qed

lemma stays_firstp: "(\<And>x. x \<in> set xs \<Longrightarrow> stays I (f x)) \<Longrightarrow> stays I (firstp xs f)"
  using triple_firstp [of xs I f "\<lambda>_. I"] by (simp add: option.case_eq_if)

lemma stays_ret: "stays I (ret a)"
  by (simp add: triple_def)

lemma stays_exit: "stays I (failp (Exited n))"
  by (simp add: triple_def)

lemma stays_undefined: "stays I (failp Undefined)"
  by (simp add: triple_def)

lemma stays_getp: "stays I (getp f)"
  by (simp add: triple_def)

lemma stays_liftp: "stays I (liftp x)"
  by (cases x) (auto simp: triple_def)

lemma stays_if: "(b \<Longrightarrow> stays I m) \<Longrightarrow> (\<not> b \<Longrightarrow> stays I k) \<Longrightarrow> stays I (if b then m else k)"
  by simp

lemma stays_case_option:
  "stays I m \<Longrightarrow> (\<And>x. stays I (k x)) \<Longrightarrow> stays I (case y of None \<Rightarrow> m | Some x \<Rightarrow> k x)"
  by (cases y) auto

lemma stays_case_prod: "(\<And>x y. stays I (k x y)) \<Longrightarrow> stays I (case z of (x, y) \<Rightarrow> k x y)"
  by (cases z) auto

lemma stays_modp: "(\<And>s. I s \<Longrightarrow> I (f s)) \<Longrightarrow> stays I (modp f)"
  by (simp add: triple_def)

lemmas stays_intros = stays_bindp stays_thenp stays_forp stays_foldp stays_firstp stays_ret
  stays_exit stays_undefined stays_getp stays_liftp stays_if stays_case_option stays_case_prod

lemma staysD:
  assumes "stays I m" and "I s" and "m s = (Inr a, t)"
  shows "I t"
  using assms by (rule triple_Inr)

text \<open>Partial correctness, over steps that keep the invariant.\<close>

abbreviation partial :: "('s \<Rightarrow> bool) \<Rightarrow> ('s, 'a) prog \<Rightarrow> ('a \<Rightarrow> 's \<Rightarrow> bool) \<Rightarrow> bool" where
  "partial P m Q \<equiv> triple P m Q (\<lambda>_ _. True)"

lemma partialI: "triple P m Q E \<Longrightarrow> partial P m Q"
  by (erule triple_conseq) auto

lemma partial_thenp: "stays I m \<Longrightarrow> partial I k Q \<Longrightarrow> partial I (thenp m k) Q"
  by (rule triple_thenp [OF partialI])

lemma partial_bindp: "stays I m \<Longrightarrow> (\<And>a. partial I (f a) Q) \<Longrightarrow> partial I (bindp m f) Q"
  by (rule triple_bindp [OF partialI])

text \<open>A postcondition and the absence of divergence, of facts proved apart.\<close>

lemma triple_conj:
  assumes "triple P m Q E" and "triple P' m Q' E'"
  shows "triple (\<lambda>s. P s \<and> P' s) m (\<lambda>a s. Q a s \<and> Q' a s) (\<lambda>e s. E e s \<and> E' e s)"
  using assms unfolding triple_def by (auto split: prod.splits sum.splits)

text \<open>A value read from the state can be used as a constant.\<close>

lemma triple_ghost: "(\<And>x. triple (\<lambda>s. P s \<and> g s = x) m Q E) \<Longrightarrow> triple P m Q E"
  unfolding triple_def by simp

lemma triple_pure: "(c \<Longrightarrow> triple P m Q E) \<Longrightarrow> triple (\<lambda>s. P s \<and> c) m Q E"
  unfolding triple_def by simp

lemma triple_vacuous: "(\<And>s. \<not> P s) \<Longrightarrow> triple P m Q E"
  unfolding triple_def by blast

lemma triple_bind_lift:
  assumes "\<And>x. y = Some x \<Longrightarrow> triple P (f x) Q E" and "y = None \<Longrightarrow> triple P (failp Undefined) Q E"
  shows "triple P (bindp (liftp y) f) Q E"
  using assms by (cases y) (auto simp: triple_def)

lemma triple_from:
  assumes "\<And>s. P s \<Longrightarrow> triple (R s) m Q E" and "\<And>s. P s \<Longrightarrow> R s s"
  shows "triple P m Q E"
  using assms unfolding triple_def by simp

lemma triple_bind_get:
  assumes "\<And>x. triple (\<lambda>s. P s \<and> g s = x) (f x) Q E"
  shows "triple P (bindp (getp g) f) Q E"
  by (rule tripleI) (use assms in \<open>force dest: triple_Inr triple_Inl\<close>)+

subsection \<open>Checked arrays\<close>

definition at :: "'a list \<Rightarrow> int \<Rightarrow> 'a option" where
  "at xs i = (if 0 \<le> i \<and> i < int (length xs) then Some (xs ! nat i) else None)"

definition set_at :: "'a list \<Rightarrow> int \<Rightarrow> 'a \<Rightarrow> 'a list option" where
  "set_at xs i v = (if 0 \<le> i \<and> i < int (length xs) then Some (xs[nat i := v]) else None)"

lemma at_Some [simp]: "at xs i = Some x \<longleftrightarrow> 0 \<le> i \<and> i < int (length xs) \<and> x = xs ! nat i"
  by (auto simp: at_def)

lemma at_None [simp]: "at xs i = None \<longleftrightarrow> \<not> (0 \<le> i \<and> i < int (length xs))"
  by (auto simp: at_def)

lemma at_eq: "0 \<le> i \<Longrightarrow> i < int (length xs) \<Longrightarrow> at xs i = Some (xs ! nat i)"
  by simp

lemma set_at_Some [simp]:
  "set_at xs i v = Some ys \<longleftrightarrow> 0 \<le> i \<and> i < int (length xs) \<and> ys = xs[nat i := v]"
  by (auto simp: set_at_def)

lemma set_at_None [simp]: "set_at xs i v = None \<longleftrightarrow> \<not> (0 \<le> i \<and> i < int (length xs))"
  by (auto simp: set_at_def)

lemma set_at_eq: "0 \<le> i \<Longrightarrow> i < int (length xs) \<Longrightarrow> set_at xs i v = Some (xs[nat i := v])"
  by simp

end
