(* ===== verification/CString.thy ===== *)
theory CString
  imports Prelude
begin

text \<open>
  The C library's string functions as the sources use them. A C string is the list of its
  bytes before the terminating zero. \<open>strncmp(a, b, n) == 0\<close> is \<open>strncmp_eq a b n\<close>;
  \<open>show_int\<close> is the \<open>%d\<close> conversion of \<open>printf\<close>, \<open>sscanf_d\<close> that of
  \<open>sscanf\<close>: skip white space, read an optional sign and at least one digit. A number
  outside the range of \<open>int\<close> is undefined behaviour of \<open>sscanf\<close> and is the result
  \<open>Overflow\<close>.
\<close>

definition NUL :: char where
  "NUL = CHR 0x00"

definition cstr :: "string \<Rightarrow> string" where
  "cstr s = takeWhile (\<lambda>c. c \<noteq> NUL) s"

definition strncmp_eq :: "string \<Rightarrow> string \<Rightarrow> nat \<Rightarrow> bool" where
  "strncmp_eq a b n = (take n (cstr a @ [NUL]) = take n (cstr b @ [NUL]))"

text \<open>The byte at an index of a string buffer; the buffer is zero behind the string.\<close>

definition char_at :: "string \<Rightarrow> nat \<Rightarrow> char" where
  "char_at s i = (if i < length s then s ! i else NUL)"

lemma strncmp_eq_refl [simp]: "strncmp_eq a a n"
  by (simp add: strncmp_eq_def)

subsection \<open>Decimal numbers\<close>

definition digit_char :: "nat \<Rightarrow> char" where
  "digit_char d = char_of (48 + d)"

definition is_digit :: "char \<Rightarrow> bool" where
  "is_digit c = (48 \<le> (of_char c :: nat) \<and> (of_char c :: nat) \<le> 57)"

definition digit_val :: "char \<Rightarrow> nat" where
  "digit_val c = of_char c - 48"

definition is_space :: "char \<Rightarrow> bool" where
  "is_space c = ((of_char c :: nat) = 32 \<or> (9 \<le> (of_char c :: nat) \<and> (of_char c :: nat) \<le> 13))"

fun show_nat :: "nat \<Rightarrow> string" where
  "show_nat n = (if n < 10 then [digit_char n] else show_nat (n div 10) @ [digit_char (n mod 10)])"

declare show_nat.simps [simp del]

definition show_int :: "int \<Rightarrow> string" where
  "show_int i = (if i < 0 then CHR ''-'' # show_nat (nat (- i)) else show_nat (nat i))"

definition digits_val :: "string \<Rightarrow> nat" where
  "digits_val ds = foldl (\<lambda>v c. 10 * v + digit_val c) 0 ds"

datatype scan = NoMatch | Overflow | Value int string

definition int_range :: "int \<Rightarrow> bool" where
  "int_range v = (- (2 ^ 31) \<le> v \<and> v < 2 ^ 31)"

definition split_sign :: "string \<Rightarrow> int \<times> string" where
  "split_sign s =
     (case s of [] \<Rightarrow> (1, [])
      | c # r \<Rightarrow> if c = CHR ''-'' then (-1, r) else if c = CHR ''+'' then (1, r) else (1, c # r))"

definition sscanf_d :: "string \<Rightarrow> scan" where
  "sscanf_d s =
     (let (sgn, r) = split_sign (dropWhile is_space (cstr s));
          ds = takeWhile is_digit r;
          v = sgn * int (digits_val ds)
      in if ds = [] then NoMatch
         else if int_range v then Value v (dropWhile is_digit r)
         else Overflow)"

lemma of_char_digit: "d < 10 \<Longrightarrow> (of_char (digit_char d) :: nat) = 48 + d"
  by (simp add: digit_char_def)

lemma digit_char_props [simp]:
  assumes "d < 10"
  shows "is_digit (digit_char d)" and "digit_val (digit_char d) = d"
    and "\<not> is_space (digit_char d)" and "digit_char d \<noteq> NUL"
    and "digit_char d \<noteq> CHR ''-''" and "digit_char d \<noteq> CHR ''+''"
proof -
  note oc = of_char_digit [OF assms]
  show "is_digit (digit_char d)" "digit_val (digit_char d) = d" "\<not> is_space (digit_char d)"
    using assms by (simp_all add: oc is_digit_def digit_val_def is_space_def)
  have "(of_char NUL :: nat) = 0" by (simp add: NUL_def)
  then show "digit_char d \<noteq> NUL" using oc by auto
  have "(of_char (CHR ''-'') :: nat) = 45" "(of_char (CHR ''+'') :: nat) = 43" by simp_all
  then show "digit_char d \<noteq> CHR ''-''" "digit_char d \<noteq> CHR ''+''" using oc by auto
qed

lemma show_nat_small: "n < 10 \<Longrightarrow> show_nat n = [digit_char n]"
  by (simp add: show_nat.simps)

lemma show_nat_digits: "c \<in> set (show_nat n) \<Longrightarrow> \<exists>d < 10. c = digit_char d"
proof (induction n rule: show_nat.induct)
  case (1 n)
  show ?case
  proof (cases "n < 10")
    case True
    with 1 show ?thesis by (auto simp: show_nat.simps [of n])
  next
    case False
    with 1 consider "c \<in> set (show_nat (n div 10))" | "c = digit_char (n mod 10)"
      by (auto simp: show_nat.simps [of n])
    then show ?thesis
      using 1 False by cases (simp, metis mod_less_divisor zero_less_numeral)
  qed
qed

lemma show_nat_nonempty [simp]: "show_nat n \<noteq> []"
  by (subst show_nat.simps) simp

lemma digits_val_snoc: "digits_val (ds @ [c]) = 10 * digits_val ds + digit_val c"
  by (simp add: digits_val_def)

lemma digits_val_show_nat: "digits_val (show_nat n) = n"
proof (induction n rule: show_nat.induct)
  case (1 n)
  show ?case
  proof (cases "n < 10")
    case True
    then show ?thesis by (simp add: show_nat_small digits_val_def)
  next
    case False
    with 1 show ?thesis by (simp add: show_nat.simps [of n] digits_val_snoc)
  qed
qed

lemma cstr_append: "NUL \<notin> set a \<Longrightarrow> cstr (a @ b) = a @ cstr b"
  unfolding cstr_def by (rule takeWhile_append2) auto

lemma cstr_id: "NUL \<notin> set a \<Longrightarrow> cstr a = a"
  by (auto simp: cstr_def takeWhile_eq_all_conv)

lemma show_nat_no_NUL: "NUL \<notin> set (show_nat n)"
  using show_nat_digits [of NUL n] digit_char_props(4) by metis

lemma show_int_no_NUL [simp]: "NUL \<notin> set (show_int i)"
  using show_nat_no_NUL by (auto simp: show_int_def NUL_def)

text \<open>What \<open>%d\<close> prints, \<open>%d\<close> reads back, up to the first byte that is no digit.\<close>

lemma takeWhile_digits:
  "(case r of [] \<Rightarrow> True | c # _ \<Rightarrow> \<not> is_digit c) \<Longrightarrow> takeWhile is_digit (show_nat n @ r) = show_nat n"
  by (subst takeWhile_append2) (auto dest!: show_nat_digits split: list.splits)

lemma dropWhile_digits:
  "(case r of [] \<Rightarrow> True | c # _ \<Rightarrow> \<not> is_digit c) \<Longrightarrow> dropWhile is_digit (show_nat n @ r) = r"
  by (subst dropWhile_append2) (auto dest!: show_nat_digits split: list.splits)

lemma show_nat_Cons: "\<exists>d ds. d < 10 \<and> show_nat n = digit_char d # ds"
proof -
  obtain c ds where e: "show_nat n = c # ds" using show_nat_nonempty by (metis neq_Nil_conv)
  then have "c \<in> set (show_nat n)" by simp
  with e show_nat_digits show ?thesis by blast
qed

lemma split_sign_show_int:
  "split_sign (dropWhile is_space (show_int i @ r)) =
     (if i < 0 then -1 else 1, show_nat (nat \<bar>i\<bar>) @ r)"
proof (cases "i < 0")
  case True
  have "\<not> is_space (CHR ''-'')" by (simp add: is_space_def)
  with True show ?thesis by (simp add: show_int_def split_sign_def)
next
  case False
  from show_nat_Cons [of "nat i"] obtain d ds
    where d: "d < 10" and e: "show_nat (nat i) = digit_char d # ds" by blast
  with False show ?thesis by (simp add: show_int_def split_sign_def)
qed

lemma sscanf_d_show_int:
  assumes "int_range i" and "case cstr r of [] \<Rightarrow> True | c # _ \<Rightarrow> \<not> is_digit c"
  shows "sscanf_d (show_int i @ r) = Value i (cstr r)"
  using assms
  by (simp add: sscanf_d_def cstr_append split_sign_show_int takeWhile_digits dropWhile_digits
      digits_val_show_nat del: takeWhile_append dropWhile_append)

lemma show_int_digit: "0 \<le> i \<Longrightarrow> i < 10 \<Longrightarrow> show_int i = [digit_char (nat i)]"
  by (simp add: show_int_def show_nat_small)

end
