(* ===== verification/UnpRead.thy ===== *)
theory UnpRead
  imports CString
begin

text \<open>
  \<open>readline\<close> of the bundled network library (unpv13e/lib/readline.c), over an explicit world:
  for every descriptor the outcomes of the coming \<open>read\<close> calls, the static buffer of
  \<open>my_read\<close>, what was written to each descriptor, what was printed, and the programs'
  line buffer \<open>recvline\<close>. An exhausted list of outcomes is end of file.

  The static buffer is shared by all descriptors. The lemmas say what \<open>readline\<close> delivers
  however the bytes are cut into \<open>read\<close> results, and what the shared buffer does to it.
\<close>

definition MAXLINE :: nat where
  "MAXLINE = 4096"

datatype read_event = Bytes string | Interrupted | Failed

record io =
  net :: "int \<Rightarrow> read_event list"
  read_cnt :: int
  read_ptr :: string
  sent :: "(int \<times> string) list"
  console :: "string list"
  recvline :: string

definition newline :: char where
  "newline = CHR 0x0A"

text \<open>
  The \<open>again:\<close> loop: \<open>read\<close> until it is not interrupted. A call returns at most the
  buffer's \<open>MAXLINE\<close> bytes, the rest stays for the next call.
\<close>

fun refill :: "read_event list \<Rightarrow> int \<times> string \<times> read_event list" where
  "refill [] = (0, [], [])"
| "refill (Interrupted # es) = refill es"
| "refill (Failed # es) = (-1, [], es)"
| "refill (Bytes b # es) =
     (if length b \<le> MAXLINE then (int (length b), b, es)
      else (int MAXLINE, take MAXLINE b, Bytes (drop MAXLINE b) # es))"

definition take_char :: "'z io_scheme \<Rightarrow> (int \<times> char) \<times> 'z io_scheme" where
  "take_char s =
     (case read_ptr s of
        [] \<Rightarrow> ((1, NUL), s\<lparr>read_cnt := read_cnt s - 1\<rparr>)
      | c # r \<Rightarrow> ((1, c), s\<lparr>read_cnt := read_cnt s - 1, read_ptr := r\<rparr>))"

definition my_read :: "int \<Rightarrow> 'z io_scheme \<Rightarrow> (int \<times> char) \<times> 'z io_scheme" where
  "my_read fd s =
     (if read_cnt s \<le> 0 then
        (case refill (net s fd) of (n, b, es) \<Rightarrow>
           let s1 = s\<lparr>net := (net s)(fd := es), read_cnt := n\<rparr> in
           if n < 0 then ((-1, NUL), s1)
           else if n = 0 then ((0, NUL), s1)
           else take_char (s1\<lparr>read_ptr := b\<rparr>))
      else take_char s)"

text \<open>
  The loop of \<open>readline\<close>: the first argument is how often the loop can still turn, the
  second what is stored so far, so \<open>n\<close> is one more than its length.
\<close>

fun readline_loop :: "nat \<Rightarrow> string \<Rightarrow> int \<Rightarrow> 'z io_scheme \<Rightarrow> (int \<times> string) \<times> 'z io_scheme" where
  "readline_loop 0 acc fd s = ((int (length acc) + 1, acc), s)"
| "readline_loop (Suc k) acc fd s =
     (case my_read fd s of ((rc, c), s') \<Rightarrow>
        if rc = 1 then
          (if c = newline then ((int (length acc) + 1, acc @ [c]), s')
           else readline_loop k (acc @ [c]) fd s')
        else if rc = 0 then ((int (length acc), acc), s')
        else ((-1, acc), s'))"

definition readline :: "int \<Rightarrow> nat \<Rightarrow> 'z io_scheme \<Rightarrow> (int \<times> string) \<times> 'z io_scheme" where
  "readline fd maxlen s = readline_loop (maxlen - 1) [] fd s"

text \<open>\<open>readlinebuf\<close>: what is left in the buffer, if its count is not zero.\<close>

definition readlinebuf :: "'z io_scheme \<Rightarrow> int \<times> string option" where
  "readlinebuf s = (read_cnt s, if read_cnt s \<noteq> 0 then Some (read_ptr s) else None)"

text \<open>\<open>Readline\<close>: a negative result ends the process (\<open>err_sys\<close> calls \<open>exit(1)\<close>).\<close>

definition Readline :: "int \<Rightarrow> nat \<Rightarrow> ('z io_scheme, int \<times> string) prog" where
  "Readline fd maxlen s =
     (case readline fd maxlen s of ((n, l), s') \<Rightarrow>
        if n < 0 then (Inl (Exited 1), s'\<lparr>console := console s' @ [''readline error'']\<rparr>)
        else (Inr (n, l), s'))"

subsection \<open>What a descriptor still has to deliver\<close>

text \<open>
  What can still be read from a descriptor, the shared buffer included: every \<open>read\<close> and every
  byte taken from the buffer makes it smaller, so it bounds the loops that read.
\<close>

fun event_size :: "read_event \<Rightarrow> nat" where
  "event_size (Bytes b) = Suc (length b)"
| "event_size Interrupted = 1"
| "event_size Failed = 1"

definition unread :: "int \<Rightarrow> 'z io_scheme \<Rightarrow> nat" where
  "unread fd s = nat (read_cnt s) + sum_list (map event_size (net s fd))"

fun stream :: "read_event list \<Rightarrow> string" where
  "stream [] = []"
| "stream (Interrupted # es) = stream es"
| "stream (Failed # es) = []"
| "stream (Bytes b # es) = (if b = [] then [] else b @ stream es)"

definition buffered :: "'z io_scheme \<Rightarrow> string" where
  "buffered s = (if 0 < read_cnt s then read_ptr s else [])"

definition pending :: "int \<Rightarrow> 'z io_scheme \<Rightarrow> string" where
  "pending fd s = buffered s @ stream (net s fd)"

definition buffer_ok :: "'z io_scheme \<Rightarrow> bool" where
  "buffer_ok s \<longleftrightarrow> (0 < read_cnt s \<longrightarrow> int (length (read_ptr s)) = read_cnt s)"

text \<open>Reading changes nothing but the buffer and the descriptor's own outcomes.\<close>

definition same_but_read :: "int \<Rightarrow> 'z io_scheme \<Rightarrow> 'z io_scheme \<Rightarrow> bool" where
  "same_but_read fd s t \<longleftrightarrow>
     t = s\<lparr>net := net t, read_cnt := read_cnt t, read_ptr := read_ptr t\<rparr> \<and>
     (\<forall>fd'. fd' \<noteq> fd \<longrightarrow> net t fd' = net s fd')"

lemma same_but_read_refl [simp]: "same_but_read fd s s"
  by (simp add: same_but_read_def)

lemma same_but_read_trans: "same_but_read fd s t \<Longrightarrow> same_but_read fd t u \<Longrightarrow> same_but_read fd s u"
  unfolding same_but_read_def by (cases s, cases t, cases u) simp

lemma same_but_readD:
  assumes "same_but_read fd s t"
  shows "sent t = sent s" "console t = console s" "recvline t = recvline s" "io.more t = io.more s"
  using assms unfolding same_but_read_def by (cases s, cases t, simp)+

lemma stream_refill:
  "refill es = (n, b, es') \<Longrightarrow>
     (0 < n \<longrightarrow> int (length b) = n \<and> stream es = b @ stream es') \<and>
     (n \<le> 0 \<longrightarrow> stream es = [])"
  by (induction es rule: refill.induct)
    (auto split: if_splits simp: MAXLINE_def simp flip: append_assoc)

lemma refill_size:
  "refill es = (n, b, es') \<Longrightarrow>
     nat n + sum_list (map event_size es') \<le> sum_list (map event_size es)"
  by (induction es rule: refill.induct) (auto split: if_splits)

lemma my_read_unread:
  assumes "my_read fd s = ((rc, c), t)"
  shows "unread fd t \<le> unread fd s" and "rc = 1 \<Longrightarrow> unread fd t < unread fd s"
proof -
  obtain n b es where r: "refill (net s fd) = (n, b, es)" by (metis prod.exhaust)
  have "unread fd t \<le> unread fd s \<and> (rc = 1 \<longrightarrow> unread fd t < unread fd s)"
  proof (cases "read_cnt s \<le> 0")
    case True
    then show ?thesis using assms refill_size [OF r] r
      by (cases b) (auto simp: my_read_def take_char_def unread_def Let_def split: if_splits)
  next
    case False
    then show ?thesis using assms
      by (auto simp: my_read_def take_char_def unread_def split: list.splits)
  qed
  then show "unread fd t \<le> unread fd s" and "rc = 1 \<Longrightarrow> unread fd t < unread fd s" by auto
qed

lemma readline_loop_unread:
  "readline_loop k acc fd s = ((n, l), t) \<Longrightarrow>
     unread fd t \<le> unread fd s \<and> (acc = [] \<and> 0 < k \<and> 0 < n \<longrightarrow> unread fd t < unread fd s)"
proof (induction k arbitrary: acc s)
  case 0
  then show ?case by simp
next
  case (Suc k)
  obtain rc c u where u: "my_read fd s = ((rc, c), u)" by (metis prod.exhaust)
  note le = my_read_unread [OF u]
  show ?case
    using Suc.prems u le Suc.IH [of "acc @ [c]" u] by (auto split: if_splits)
qed

lemma readline_unread:
  assumes "readline fd maxlen s = ((n, l), t)"
  shows "unread fd t \<le> unread fd s" and "0 < n \<Longrightarrow> 1 < maxlen \<Longrightarrow> unread fd t < unread fd s"
  using readline_loop_unread [OF assms [unfolded readline_def]] by auto

lemma my_read_same: "my_read fd s = (r, t) \<Longrightarrow> same_but_read fd s t"
  by (cases "read_cnt s \<le> 0")
    (auto simp: my_read_def take_char_def Let_def same_but_read_def split: prod.splits if_splits list.splits)

lemma my_read_char:
  assumes "buffer_ok s" and "pending fd s = c # cs"
  obtains t where "my_read fd s = ((1, c), t)" and "buffer_ok t" and "pending fd t = cs"
proof (cases "read_cnt s \<le> 0")
  case True
  obtain n b es where r: "refill (net s fd) = (n, b, es)" by (metis prod.exhaust)
  from assms(2) True have st: "stream (net s fd) = c # cs"
    by (simp add: pending_def buffered_def)
  with stream_refill [OF r] have n: "0 < n" "int (length b) = n" "c # cs = b @ stream es"
    by (auto simp: not_le [symmetric])
  then obtain b' where b: "b = c # b'" "cs = b' @ stream es" by (cases b) auto
  define t where "t = s\<lparr>net := (net s)(fd := es), read_cnt := n - 1, read_ptr := b'\<rparr>"
  have "my_read fd s = ((1, c), t)"
    using True r n b by (simp add: my_read_def take_char_def t_def)
  moreover have "buffer_ok t" "pending fd t = cs"
    using n b by (auto simp: t_def buffer_ok_def pending_def buffered_def)
  ultimately show thesis by (rule that)
next
  case False
  with assms obtain r where p: "read_ptr s = c # r" "cs = r @ stream (net s fd)"
    by (cases "read_ptr s") (auto simp: pending_def buffered_def buffer_ok_def)
  define t where "t = s\<lparr>read_cnt := read_cnt s - 1, read_ptr := r\<rparr>"
  have "my_read fd s = ((1, c), t)"
    using False p by (simp add: my_read_def take_char_def t_def)
  moreover have "buffer_ok t" "pending fd t = cs"
    using assms(1) p False by (cases r; auto simp: t_def buffer_ok_def pending_def buffered_def)+
  ultimately show thesis by (rule that)
qed

lemma readline_loop_line:
  assumes "buffer_ok s" and "pending fd s = l @ newline # rest" and "newline \<notin> set l"
    and "length l < k"
  shows "\<exists>t. readline_loop k acc fd s = ((int (length acc + length l) + 1, acc @ l @ [newline]), t) \<and>
             buffer_ok t \<and> pending fd t = rest \<and> same_but_read fd s t"
  using assms
proof (induction l arbitrary: k acc s)
  case Nil
  then obtain k' where k: "k = Suc k'" by (cases k) auto
  from Nil obtain t where "my_read fd s = ((1, newline), t)" "buffer_ok t" "pending fd t = rest"
    using my_read_char [of s fd newline rest] by auto
  with k my_read_same show ?case by fastforce
next
  case (Cons c l)
  then obtain k' where k: "k = Suc k'" by (cases k) auto
  from Cons.prems obtain u where u: "my_read fd s = ((1, c), u)" "buffer_ok u"
    "pending fd u = l @ newline # rest"
    using my_read_char [of s fd c "l @ newline # rest"] by auto
  from Cons.IH [OF u(2,3), of k' "acc @ [c]"] Cons.prems k obtain t where
    "readline_loop k' (acc @ [c]) fd u = ((int (length acc + length (c # l)) + 1, acc @ (c # l) @ [newline]), t)"
    "buffer_ok t" "pending fd t = rest" "same_but_read fd u t" by auto
  with u k Cons.prems(3) my_read_same [OF u(1)] same_but_read_trans show ?case by fastforce
qed

text \<open>However the bytes are chunked, a line comes back whole and the rest stays pending.\<close>

lemma readline_line:
  assumes "buffer_ok s" and "pending fd s = l @ newline # rest" and "newline \<notin> set l"
    and "length l + 1 < maxlen"
  obtains t where "readline fd maxlen s = ((int (length l) + 1, l @ [newline]), t)"
    and "buffer_ok t" and "pending fd t = rest" and "same_but_read fd s t"
proof -
  have "length l < maxlen - 1" using assms(4) by simp
  from readline_loop_line [OF assms(1-3) this, of "[]"] that show thesis
    by (auto simp: readline_def)
qed

lemma readline_loop_same: "readline_loop k acc fd s = (r, t) \<Longrightarrow> same_but_read fd s t"
proof (induction k arbitrary: acc s)
  case 0
  then show ?case by auto
next
  case (Suc k)
  obtain rc c u where u: "my_read fd s = ((rc, c), u)" by (metis prod.exhaust)
  note su = my_read_same [OF u]
  show ?case
    using Suc.prems u su Suc.IH [of "acc @ [c]" u] same_but_read_trans [OF su]
    by (auto split: if_splits)
qed

lemma readline_same: "readline fd maxlen s = (r, t) \<Longrightarrow> same_but_read fd s t"
  unfolding readline_def by (rule readline_loop_same)

text \<open>
  A line that is already in the static buffer is delivered to whichever descriptor is read
  next.
\<close>

lemma readline_loop_buffered:
  assumes "buffer_ok s" and "buffered s = l @ newline # rest" and "newline \<notin> set l"
    and "length l < k"
  shows "fst (readline_loop k acc fd s) = (int (length acc + length l) + 1, acc @ l @ [newline]) \<and>
         net (snd (readline_loop k acc fd s)) = net s"
  using assms
proof (induction l arbitrary: k acc s)
  case Nil
  then obtain k' where k: "k = Suc k'" by (cases k) auto
  from Nil have "0 < read_cnt s" "read_ptr s = newline # rest"
    by (auto simp: buffered_def split: if_splits)
  with k show ?case by (simp add: my_read_def take_char_def)
next
  case (Cons c l)
  then obtain k' where k: "k = Suc k'" by (cases k) auto
  from Cons.prems have b: "0 < read_cnt s" "read_ptr s = c # l @ newline # rest"
    by (auto simp: buffered_def split: if_splits)
  define u where "u = s\<lparr>read_cnt := read_cnt s - 1, read_ptr := l @ newline # rest\<rparr>"
  have u: "my_read fd s = ((1, c), u)" using b by (simp add: my_read_def take_char_def u_def)
  have "buffer_ok u" "buffered u = l @ newline # rest"
    using Cons.prems(1) b by (auto simp: u_def buffer_ok_def buffered_def)
  from Cons.IH [OF this, of k' "acc @ [c]"] Cons.prems(3,4) k u show ?case
    by (auto simp: u_def)
qed

lemma readline_buffered:
  assumes "buffer_ok s" and "buffered s = l @ newline # rest" and "newline \<notin> set l"
    and "length l + 1 < maxlen"
  shows "fst (readline fd maxlen s) = (int (length l) + 1, l @ [newline])"
    and "net (snd (readline fd maxlen s)) = net s"
  using readline_loop_buffered [OF assms(1-3), of "maxlen - 1" "[]" fd] assms(4)
  by (auto simp: readline_def)

text \<open>A line that arrives in one piece while the buffer is empty is used up with it.\<close>

lemma readline_loop_exact:
  "read_cnt s = int (length l) + 1 \<Longrightarrow> read_ptr s = l @ [newline] \<Longrightarrow> newline \<notin> set l \<Longrightarrow> length l < k \<Longrightarrow>
     readline_loop k acc fd s =
       ((int (length acc + length l) + 1, acc @ l @ [newline]), s\<lparr>read_cnt := 0, read_ptr := []\<rparr>)"
proof (induction l arbitrary: k acc s)
  case Nil
  then obtain k' where "k = Suc k'" by (cases k) auto
  with Nil show ?case by (simp add: my_read_def take_char_def)
next
  case (Cons c l)
  then obtain k' where k: "k = Suc k'" by (cases k) auto
  let ?u = "s\<lparr>read_cnt := int (length l) + 1, read_ptr := l @ [newline]\<rparr>"
  have "my_read fd s = ((1, c), ?u)" using Cons.prems by (simp add: my_read_def take_char_def)
  with Cons.IH [of ?u k' "acc @ [c]"] Cons.prems k show ?case by auto
qed

lemma readline_chunk:
  assumes "read_cnt s \<le> 0" and "net s fd = Bytes (l @ [newline]) # es" and "newline \<notin> set l"
    and "length l + 1 < maxlen" and "length l < MAXLINE"
  shows "readline fd maxlen s = ((int (length l) + 1, l @ [newline]),
     s\<lparr>net := (net s)(fd := es), read_cnt := 0, read_ptr := []\<rparr>)"
proof -
  let ?u = "s\<lparr>net := (net s)(fd := es), read_cnt := int (length l) + 1, read_ptr := l @ [newline]\<rparr>"
  obtain k where k: "maxlen - 1 = Suc k" using assms(4) by (cases "maxlen - 1") auto
  have "my_read fd s = my_read fd ?u" using assms by (simp add: my_read_def add.commute)
  then have "readline_loop (Suc k) [] fd s = readline_loop (Suc k) [] fd ?u" by simp
  also have "\<dots> = ((int (length l) + 1, l @ [newline]), ?u\<lparr>read_cnt := 0, read_ptr := []\<rparr>)"
    using readline_loop_exact [of ?u l "Suc k" "[]" fd] assms k by simp
  finally show ?thesis unfolding readline_def k by simp
qed

subsection \<open>Properties\<close>

text \<open>
  Property C33: however the bytes of the stream are cut into results of \<open>read\<close> and however
  often it is interrupted, \<open>readline\<close> delivers the next line whole with its length, leaves the
  rest pending and touches no other descriptor.
\<close>

theorem readline_delivers:
  assumes "buffer_ok s" and "pending fd s = l @ newline # rest" and "newline \<notin> set l"
    and "length l + 1 < maxlen"
  shows "\<exists>t. readline fd maxlen s = ((int (length l) + 1, l @ [newline]), t) \<and>
     buffer_ok t \<and> pending fd t = rest \<and> same_but_read fd s t"
  by (rule readline_line [OF assms]) blast

definition two_chunks :: io where
  "two_chunks = \<lparr>net = (\<lambda>fd. if fd = 4 then [Bytes ''AC'', Interrupted, Bytes (''K'' @ newline # ''Y'')] else []),
     read_cnt = 0, read_ptr = [], sent = [], console = [], recvline = []\<rparr>"

theorem readline_delivers_witness:
  "\<exists>t. readline 4 MAXLINE two_chunks = ((4, ''ACK'' @ [newline]), t) \<and> pending 4 t = ''Y''"
  using readline_delivers [of two_chunks 4 "''ACK''" "''Y''" MAXLINE]
  by (auto simp: two_chunks_def buffer_ok_def pending_def buffered_def newline_def MAXLINE_def)

text \<open>
  Property C34: the buffer behind \<open>readline\<close> does not know its descriptor. A line that an
  earlier \<open>read\<close> left in it is returned for whatever descriptor is read next, and nothing is
  read from that descriptor.
\<close>

theorem readline_shares_buffer:
  assumes "buffer_ok s" and "buffered s = l @ newline # rest" and "newline \<notin> set l"
    and "length l + 1 < maxlen"
  shows "fst (readline fd maxlen s) = (int (length l) + 1, l @ [newline]) \<and>
     net (snd (readline fd maxlen s)) = net s"
  using readline_buffered [OF assms] by blast

definition left_over :: io where
  "left_over = \<lparr>net = (\<lambda>_. []), read_cnt = 5, read_ptr = ''YES!'' @ [newline],
     sent = [], console = [], recvline = []\<rparr>"

theorem readline_shares_buffer_witness:
  "fst (readline 6 MAXLINE left_over) = (5, ''YES!'' @ [newline])"
  using readline_shares_buffer [of left_over "''YES!''" "[]" MAXLINE 6]
  by (simp add: left_over_def buffer_ok_def buffered_def newline_def MAXLINE_def)

end
