(* ===== verification/Messages.thy ===== *)
theory Messages
  imports UnpRead
begin

text \<open>
  The lock-step message exchange: every message is written, then the writer reads the line
  \<open>ACK\<close>. The locale \<open>exchange\<close> is the contract of the pair \<open>write_message_wait_ack\<close> and
  \<open>read_and_ack\<close> on which the game of the server and that of the client are built; both
  programs' pairs are interpretations of it.
\<close>

subsection \<open>System calls on the world\<close>

text \<open>
  \<open>write\<close>, \<open>printf\<close> and the assignments to \<open>recvline\<close>. The callers ignore the
  result of \<open>write\<close>.
\<close>

definition write_fd :: "int \<Rightarrow> string \<Rightarrow> ('z io_scheme, unit) prog" where
  "write_fd fd txt = modp (\<lambda>s. s\<lparr>sent := sent s @ [(fd, txt)]\<rparr>)"

definition printf :: "string \<Rightarrow> ('z io_scheme, unit) prog" where
  "printf txt = modp (\<lambda>s. s\<lparr>console := console s @ [txt]\<rparr>)"

definition set_recvline :: "string \<Rightarrow> ('z io_scheme, unit) prog" where
  "set_recvline l = modp (\<lambda>s. s\<lparr>recvline := l\<rparr>)"

text \<open>\<open>memset(recvline, 0, strlen(recvline))\<close>\<close>

definition clear_recvline :: "('z io_scheme, unit) prog" where
  "clear_recvline = set_recvline []"

text \<open>\<open>readline(fd, recvline, MAXLINE)\<close>\<close>

definition readline_recv :: "int \<Rightarrow> ('z io_scheme, int) prog" where
  "readline_recv fd s =
     (case readline fd MAXLINE s of ((n, l), t) \<Rightarrow> (Inr n, t\<lparr>recvline := l\<rparr>))"

text \<open>\<open>vsnprintf(sendline, MAXLINE, ...)\<close> keeps at most \<open>MAXLINE - 1\<close> bytes.\<close>

definition vsnprintf_line :: "string \<Rightarrow> string" where
  "vsnprintf_line txt = cstr (take (MAXLINE - 1) txt)"

text \<open>A short line is not cut; evaluated so, without counting down from the size of the buffer.\<close>

lemma vsnprintf_line_code [code]:
  "vsnprintf_line txt = (if int (length txt) < 4096 then cstr txt else cstr (take (MAXLINE - 1) txt))"
  by (simp add: vsnprintf_line_def MAXLINE_def)

definition ack_line :: string where
  "ack_line = ''ACK\<newline>''"

subsection \<open>The server's exchange\<close>

definition write_message_wait_ack :: "int \<Rightarrow> string \<Rightarrow> ('z io_scheme, int) prog" where
  "write_message_wait_ack fd txt =
     thenp (write_fd fd (vsnprintf_line txt)) (
     thenp (printf (''Sending: '' @ vsnprintf_line txt)) (
     bindp (readline_recv fd) (\<lambda>n.
     if n > 0 then
       bindp (getp recvline) (\<lambda>l.
       if strncmp_eq l ack_line 4 then thenp clear_recvline (ret 0)
       else thenp (printf (''Unexpected ACK message: '' @ cstr l @ ''\<newline>'')) (failp (Exited 1)))
     else
       thenp (printf ''Player has disconnected, exiting...\<newline>'') (failp (Exited 1)))))"

definition read_and_ack :: "int \<Rightarrow> ('z io_scheme, int) prog" where
  "read_and_ack fd =
     bindp (readline_recv fd) (\<lambda>n.
     if n > 0 then thenp (write_fd fd ack_line) (ret 0)
     else thenp (printf ''Player has disconnected, exiting...\<newline>'') (failp (Exited 1)))"

subsection \<open>The client's exchange\<close>

definition client_write_message_wait_ack :: "int \<Rightarrow> string \<Rightarrow> ('z io_scheme, int) prog" where
  "client_write_message_wait_ack fd txt =
     thenp (write_fd fd (vsnprintf_line txt)) (
     bindp (readline_recv fd) (\<lambda>n.
     if n > 0 then
       bindp (getp recvline) (\<lambda>l.
       if strncmp_eq l ack_line 4 then thenp clear_recvline (ret 0)
       else thenp (printf (''Unexpected ACK message: '' @ cstr l @ ''\<newline>'')) (failp (Exited 1)))
     else
       thenp (printf (''Server exited prematurely. '' @
         ''(Maybe it's because some other players disconnected.)\<newline>'')) (failp (Exited 1))))"

definition client_read_and_ack :: "int \<Rightarrow> ('z io_scheme, int) prog" where
  "client_read_and_ack fd =
     bindp (readline_recv fd) (\<lambda>n.
     if n > 0 then thenp (write_fd fd ack_line) (ret 0)
     else
       thenp (printf (''Server exited prematurely. '' @
         ''(Maybe it's because some other players disconnected.)\<newline>'')) (failp (Exited 1)))"

subsection \<open>The contract\<close>

text \<open>
  A send that returns has written the message, has read an acknowledgement and leaves
  \<open>recvline\<close> empty; a receive that returns has written the acknowledgement and leaves the
  line in \<open>recvline\<close>. Either can only fail by \<open>exit(1)\<close>, and neither touches the game's
  state. When the peer's next line is there, they return.
\<close>

locale exchange =
  fixes send :: "int \<Rightarrow> string \<Rightarrow> ('z io_scheme, int) prog"
    and recv :: "int \<Rightarrow> ('z io_scheme, int) prog"
  assumes send_more: "send fd txt s = (r, t) \<Longrightarrow> io.more t = io.more s"
    and recv_more: "recv fd s = (r, t) \<Longrightarrow> io.more t = io.more s"
    and send_Inr: "send fd txt s = (Inr v, t) \<Longrightarrow>
        v = 0 \<and> recvline t = [] \<and> sent t = sent s @ [(fd, vsnprintf_line txt)]"
    and send_Inl: "send fd txt s = (Inl e, t) \<Longrightarrow>
        e = Exited 1 \<and> sent t = sent s @ [(fd, vsnprintf_line txt)]"
    and recv_Inr: "recv fd s = (Inr v, t) \<Longrightarrow>
        v = 0 \<and> recvline t \<noteq> [] \<and> sent t = sent s @ [(fd, ack_line)]"
    and recv_Inl: "recv fd s = (Inl e, t) \<Longrightarrow> e = Exited 1 \<and> sent t = sent s"
    and send_unread: "send fd txt s = (r, t) \<Longrightarrow> unread fd t \<le> unread fd s"
    and recv_unread: "recv fd s = (Inr v, t) \<Longrightarrow> unread fd t < unread fd s"
    and send_acked: "buffer_ok s \<Longrightarrow> pending fd s = ack_line @ rest \<Longrightarrow>
        \<exists>t. send fd txt s = (Inr 0, t) \<and> buffer_ok t \<and> pending fd t = rest \<and>
            (\<forall>fd'. fd' \<noteq> fd \<longrightarrow> net t fd' = net s fd')"
    and recv_line: "buffer_ok s \<Longrightarrow> pending fd s = l @ newline # rest \<Longrightarrow> newline \<notin> set l \<Longrightarrow>
        length l + 1 < MAXLINE \<Longrightarrow>
        \<exists>t. recv fd s = (Inr 0, t) \<and> recvline t = l @ [newline] \<and> buffer_ok t \<and>
            pending fd t = rest \<and> (\<forall>fd'. fd' \<noteq> fd \<longrightarrow> net t fd' = net s fd')"
begin

text \<open>A property of the game's state alone survives every exchange, returned or not.\<close>

lemma send_triple:
  assumes "\<And>s t. io.more t = io.more s \<Longrightarrow> P s \<Longrightarrow> Q t \<and> E (Exited 1) t"
  shows "triple P (send fd txt) (\<lambda>_. Q) E"
  using assms by (intro tripleI) (auto dest: send_more send_Inl)

lemma recv_triple:
  assumes "\<And>s t. io.more t = io.more s \<Longrightarrow> P s \<Longrightarrow> Q t \<and> E (Exited 1) t"
  shows "triple P (recv fd) (\<lambda>_. Q) E"
  using assms by (intro tripleI) (auto dest: recv_more recv_Inl)

end

subsection \<open>Both programs meet the contract\<close>

lemma readline_loop_pos:
  "readline_loop k acc fd s = ((n, l), t) \<Longrightarrow> 0 < n \<Longrightarrow> k \<noteq> 0 \<or> acc \<noteq> [] \<Longrightarrow> l \<noteq> []"
proof (induction k arbitrary: acc s)
  case 0
  then show ?case by auto
next
  case (Suc k)
  then show ?case by (auto split: prod.splits if_splits)
qed

lemma readline_pos: "readline fd MAXLINE s = ((n, l), t) \<Longrightarrow> 0 < n \<Longrightarrow> l \<noteq> []"
  unfolding readline_def by (rule readline_loop_pos) (auto simp: MAXLINE_def)

lemma world_simps [simp]:
  "buffer_ok (s\<lparr>sent := x\<rparr>) = buffer_ok s" "buffer_ok (s\<lparr>console := y\<rparr>) = buffer_ok s"
  "buffer_ok (s\<lparr>recvline := z\<rparr>) = buffer_ok s"
  "pending fd (s\<lparr>sent := x\<rparr>) = pending fd s" "pending fd (s\<lparr>console := y\<rparr>) = pending fd s"
  "pending fd (s\<lparr>recvline := z\<rparr>) = pending fd s"
  "unread fd (s\<lparr>sent := x\<rparr>) = unread fd s" "unread fd (s\<lparr>console := y\<rparr>) = unread fd s"
  "unread fd (s\<lparr>recvline := z\<rparr>) = unread fd s"
  by (simp_all add: buffer_ok_def pending_def buffered_def unread_def)

lemmas exchange_defs = write_message_wait_ack_def read_and_ack_def client_write_message_wait_ack_def
  client_read_and_ack_def write_fd_def printf_def clear_recvline_def set_recvline_def

lemma ack_lineD: "ack_line = ''ACK'' @ [newline]" "newline \<notin> set ''ACK''"
  by (simp_all add: ack_line_def newline_def)

text \<open>The contract follows from these forms alone, so it is proved once for both programs.\<close>

lemma exchangeI:
  fixes send :: "int \<Rightarrow> string \<Rightarrow> ('z io_scheme, int) prog"
    and c :: "string \<Rightarrow> 'z io_scheme \<Rightarrow> string list"
  assumes sendE: "\<And>fd msg s n l u.
       readline fd MAXLINE (s\<lparr>sent := sent s @ [(fd, vsnprintf_line msg)], console := c msg s\<rparr>) = ((n, l), u) \<Longrightarrow>
       send fd msg s =
         (if n > 0 then
            if strncmp_eq l ack_line 4 then (Inr 0, u\<lparr>recvline := []\<rparr>)
            else (Inl (Exited 1), u\<lparr>recvline := l, console := c1 u l\<rparr>)
          else (Inl (Exited 1), u\<lparr>recvline := l, console := c2 u l\<rparr>))"
    and recvE: "\<And>fd s n l u. readline fd MAXLINE s = ((n, l), u) \<Longrightarrow>
       recv fd s =
         (if n > 0 then (Inr 0, u\<lparr>recvline := l, sent := sent u @ [(fd, ack_line)]\<rparr>)
          else (Inl (Exited 1), u\<lparr>recvline := l, console := c2 u l\<rparr>))"
  shows "exchange send recv"
proof
  fix fd msg s r t e v rest l
  let ?s = "s\<lparr>sent := sent s @ [(fd, vsnprintf_line msg)], console := c msg s\<rparr>"
  obtain n k u where u: "readline fd MAXLINE ?s = ((n, k), u)" by (metis prod.exhaust)
  note us = same_but_readD [OF readline_same [OF u], simplified]
  obtain n' k' u' where u': "readline fd MAXLINE s = ((n', k'), u')" by (metis prod.exhaust)
  note us' = same_but_readD [OF readline_same [OF u']]
  note S = sendE [OF u] and R = recvE [OF u']
  show "send fd msg s = (r, t) \<Longrightarrow> io.more t = io.more s" using us by (auto simp: S split: if_splits)
  show "recv fd s = (r, t) \<Longrightarrow> io.more t = io.more s" using us' by (auto simp: R split: if_splits)
  show "send fd msg s = (Inr v, t) \<Longrightarrow>
      v = 0 \<and> recvline t = [] \<and> sent t = sent s @ [(fd, vsnprintf_line msg)]"
    using us by (auto simp: S split: if_splits)
  show "send fd msg s = (Inl e, t) \<Longrightarrow> e = Exited 1 \<and> sent t = sent s @ [(fd, vsnprintf_line msg)]"
    using us by (auto simp: S split: if_splits)
  show "recv fd s = (Inr v, t) \<Longrightarrow> v = 0 \<and> recvline t \<noteq> [] \<and> sent t = sent s @ [(fd, ack_line)]"
    using us' readline_pos [OF u'] by (auto simp: R split: if_splits)
  show "recv fd s = (Inl e, t) \<Longrightarrow> e = Exited 1 \<and> sent t = sent s"
    using us' by (auto simp: R split: if_splits)
  show "send fd msg s = (r, t) \<Longrightarrow> unread fd t \<le> unread fd s"
    using readline_unread(1) [OF u] by (auto simp: S split: if_splits)
  show "recv fd s = (Inr v, t) \<Longrightarrow> unread fd t < unread fd s"
    using readline_unread(2) [OF u'] by (auto simp: R MAXLINE_def split: if_splits)
  show "\<exists>t. send fd msg s = (Inr 0, t) \<and> buffer_ok t \<and> pending fd t = rest \<and>
      (\<forall>fd'. fd' \<noteq> fd \<longrightarrow> net t fd' = net s fd')"
    if "buffer_ok s" "pending fd s = ack_line @ rest"
  proof -
    have b: "buffer_ok ?s" and p: "pending fd ?s = ''ACK'' @ newline # rest"
      using that by (simp_all add: ack_lineD(1))
    have lt: "length ''ACK'' + 1 < MAXLINE" by (simp add: MAXLINE_def)
    from readline_line [OF b p ack_lineD(2) lt] obtain t
      where "readline fd MAXLINE ?s = ((int (length ''ACK'') + 1, ''ACK'' @ [newline]), t)"
      "buffer_ok t" "pending fd t = rest" "same_but_read fd ?s t" .
    with u have "n = 4" "k = ack_line" "buffer_ok u" "pending fd u = rest" "same_but_read fd ?s u"
      by (simp_all add: ack_lineD(1))
    then show ?thesis unfolding S by (auto simp: same_but_read_def)
  qed
  show "\<exists>t. recv fd s = (Inr 0, t) \<and> recvline t = l @ [newline] \<and> buffer_ok t \<and>
      pending fd t = rest \<and> (\<forall>fd'. fd' \<noteq> fd \<longrightarrow> net t fd' = net s fd')"
    if "buffer_ok s" "pending fd s = l @ newline # rest" "newline \<notin> set l" "length l + 1 < MAXLINE"
  proof -
    from readline_line [OF that] obtain t
      where "readline fd MAXLINE s = ((int (length l) + 1, l @ [newline]), t)"
      "buffer_ok t" "pending fd t = rest" "same_but_read fd s t" .
    with u' have "0 < n'" "k' = l @ [newline]" "buffer_ok u'" "pending fd u' = rest"
      "same_but_read fd s u'" by simp_all
    then show ?thesis unfolding R by (auto simp: same_but_read_def)
  qed
qed

interpretation server_chan: exchange write_message_wait_ack read_and_ack
  by (rule exchangeI [where c = "\<lambda>msg s. console s @ [''Sending: '' @ vsnprintf_line msg]"
        and ?c1.0 = "\<lambda>u l. console u @ [''Unexpected ACK message: '' @ cstr l @ ''\<newline>'']"
        and ?c2.0 = "\<lambda>u l. console u @ [''Player has disconnected, exiting...\<newline>'']"])
    (simp_all add: exchange_defs readline_recv_def)

interpretation client_chan: exchange client_write_message_wait_ack client_read_and_ack
  by (rule exchangeI [where c = "\<lambda>_. console"
        and ?c1.0 = "\<lambda>u l. console u @ [''Unexpected ACK message: '' @ cstr l @ ''\<newline>'']"
        and ?c2.0 = "\<lambda>u l. console u @ [''Server exited prematurely. '' @
           ''(Maybe it's because some other players disconnected.)\<newline>'']"])
    (simp_all add: exchange_defs readline_recv_def)

text \<open>A message whose acknowledgement arrives in one piece.\<close>

lemma send_chunk:
  assumes "read_cnt s \<le> 0" and "net s fd = Bytes ack_line # es"
  shows "\<exists>t. write_message_wait_ack fd msg s = (Inr 0, t) \<and> net t = (net s)(fd := es) \<and> read_cnt t = 0"
proof -
  let ?s = "s\<lparr>sent := sent s @ [(fd, vsnprintf_line msg)], console := console s @ [''Sending: '' @ vsnprintf_line msg]\<rparr>"
  have "readline fd MAXLINE ?s = ((4, ack_line), ?s\<lparr>net := (net s)(fd := es), read_cnt := 0, read_ptr := []\<rparr>)"
    using readline_chunk [of ?s fd "''ACK''" es MAXLINE] assms ack_lineD by (simp add: MAXLINE_def)
  then show ?thesis by (simp add: exchange_defs readline_recv_def)
qed

end
