(* ===== verification/Tiles.thy ===== *)
theory Tiles
  imports Prelude
begin

text \<open>
  The tiles (\<open>struct mj\<close>) and the functions on single tiles that server and client share:
  the constants for the suits, the comparison \<open>mj_compare\<close>, the sort key of a hand and the
  index of a tile's kind among the 34 kinds that \<open>count\<close> arrays range over.
\<close>

record mj =
  type :: int
  number :: int
  priority :: int

definition NO_TYPE :: int where [simp]: "NO_TYPE = 0"
definition TONG :: int where [simp]: "TONG = 1"
definition TIAO :: int where [simp]: "TIAO = 2"
definition WAN :: int where [simp]: "WAN = 3"
definition DAZI :: int where [simp]: "DAZI = 4"
definition FLOWER :: int where [simp]: "FLOWER = 5"

text \<open>The zeroed tile that \<open>memset\<close> leaves: the null tile.\<close>

definition null_mj :: mj where
  "null_mj = \<lparr>type = 0, number = 0, priority = 0\<rparr>"

definition mj_compare :: "mj \<Rightarrow> mj \<Rightarrow> int" where
  "mj_compare a b =
     (if type a = type b \<and> number a = number b then 0
      else if type a > type b \<or> (type a = type b \<and> number a > number b) then -1
      else 1)"

definition deck_key :: "mj \<Rightarrow> int" where
  "deck_key m = type m * 10 + number m"

definition mj_index :: "mj \<Rightarrow> int" where
  "mj_index m = (type m - 1) * 9 + number m - 1"

text \<open>\<open>x.type = 0; x.number = 0;\<close> keeps the priority.\<close>

definition clear_mj :: "mj \<Rightarrow> mj" where
  "clear_mj m = m\<lparr>type := 0, number := 0\<rparr>"

subsection \<open>What the fields mean\<close>

text \<open>
  A tile's kind is its type and number. The kinds that can be in a hand are the numbers 1 to 9
  of the three suits and the seven honours; flowers have the numbers 1 to 8; the null tile has
  type and number 0.
\<close>

definition kind :: "mj \<Rightarrow> int \<times> int" where
  "kind m = (type m, number m)"

definition is_null :: "mj \<Rightarrow> bool" where
  "is_null m = (type m = 0 \<and> number m = 0)"

definition playable :: "mj \<Rightarrow> bool" where
  "playable m =
     ((1 \<le> type m \<and> type m \<le> 3 \<and> 1 \<le> number m \<and> number m \<le> 9) \<or>
      (type m = 4 \<and> 1 \<le> number m \<and> number m \<le> 7))"

definition is_flower :: "mj \<Rightarrow> bool" where
  "is_flower m = (type m = 5 \<and> 1 \<le> number m \<and> number m \<le> 8)"

lemma mj_compare_0 [simp]: "mj_compare a b = 0 \<longleftrightarrow> kind a = kind b"
  by (simp add: mj_compare_def kind_def)

lemma mj_compare_antisym: "mj_compare b a = - mj_compare a b"
  by (auto simp: mj_compare_def)

lemma kind_clear [simp]: "kind (clear_mj m) = (0, 0)"
  by (simp add: kind_def clear_mj_def)

lemma is_null_clear [simp]: "is_null (clear_mj m)"
  by (simp add: is_null_def clear_mj_def)

lemma is_null_null [simp]: "is_null null_mj"
  by (simp add: is_null_def null_mj_def)

lemma is_null_kind: "is_null m \<longleftrightarrow> kind m = (0, 0)"
  by (simp add: is_null_def kind_def)

lemma playable_kind: "kind a = kind b \<Longrightarrow> playable a = playable b"
  by (simp add: kind_def playable_def)

lemma playable_not_null [simp]: "playable m \<Longrightarrow> \<not> is_null m"
  by (auto simp: playable_def is_null_def)

lemma mj_index_range: "playable m \<Longrightarrow> 0 \<le> mj_index m \<and> mj_index m < 34"
  by (auto simp: playable_def mj_index_def)

lemma mj_index_inj:
  assumes "playable a" and "playable b" and "mj_index a = mj_index b"
  shows "kind a = kind b"
proof -
  have "\<not> type a < type b" and "\<not> type b < type a"
    using assms by (auto simp: playable_def mj_index_def)
  then have "type a = type b" by simp
  with assms(3) show ?thesis by (simp add: kind_def mj_index_def)
qed

lemma mj_index_kind: "kind a = kind b \<Longrightarrow> mj_index a = mj_index b"
  by (simp add: kind_def mj_index_def)

text \<open>On playable tiles the comparison, the sort key and the index agree.\<close>

lemma mj_compare_key:
  assumes "playable a" and "playable b"
  shows "mj_compare a b = sgn (deck_key b - deck_key a)"
  using assms by (auto simp: mj_compare_def deck_key_def playable_def sgn_if)

lemma deck_key_index:
  assumes "playable a" and "playable b"
  shows "deck_key a \<le> deck_key b \<longleftrightarrow> mj_index a \<le> mj_index b"
  using assms by (auto simp: deck_key_def mj_index_def playable_def)

end
