(* ===== verification/Display.thy ===== *)
theory Display
  imports Tiles CString
begin

text \<open>
  What the programs print of a hand: \<open>print_deck\<close> and \<open>print_single_card\<close>, as functions from
  the tiles to the bytes printed (\<open>system("clear")\<close> is not modelled). The tables of glyphs
  hold UTF-8 strings; an index outside a table or a hand is the result \<open>None\<close>.

  The lemmas say when nothing is read out of bounds, and that the rows list the tiles in order.
\<close>

subsection \<open>The glyphs\<close>

definition number_glyphs :: "string list" where
  "number_glyphs = [
     ''NULL'',
     [CHR 0xE4, CHR 0xB8, CHR 0x80],
     [CHR 0xE4, CHR 0xBA, CHR 0x8C],
     [CHR 0xE4, CHR 0xB8, CHR 0x89],
     [CHR 0xE5, CHR 0x9B, CHR 0x9B],
     [CHR 0xE4, CHR 0xBA, CHR 0x94],
     [CHR 0xE5, CHR 0x85, CHR 0xAD],
     [CHR 0xE4, CHR 0xB8, CHR 0x83],
     [CHR 0xE5, CHR 0x85, CHR 0xAB],
     [CHR 0xE4, CHR 0xB9, CHR 0x9D]]"

definition wind_number_glyphs :: "string list" where
  "wind_number_glyphs = [
     ''NULL'',
     [CHR 0xE6, CHR 0x9D, CHR 0xB1],
     [CHR 0xE5, CHR 0x8D, CHR 0x97],
     [CHR 0xE8, CHR 0xA5, CHR 0xBF],
     [CHR 0xE5, CHR 0x8C, CHR 0x97],
     [CHR 0xE4, CHR 0xB8, CHR 0xAD],
     [CHR 0xE7, CHR 0x99, CHR 0xBC],
     [CHR 0xE7, CHR 0x99, CHR 0xBD]]"

definition type_glyphs :: "string list" where
  "type_glyphs = [
     ''NULL'',
     [CHR 0xE7, CHR 0xAD, CHR 0x92],
     [CHR 0xE6, CHR 0xA2, CHR 0x9D],
     [CHR 0xE8, CHR 0x90, CHR 0xAC],
     [CHR 0xE9, CHR 0xA2, CHR 0xA8],
     [CHR 0xE8, CHR 0x8A, CHR 0xB1],
     [],
     [],
     [],
     []]"

definition client_type_glyphs :: "string list" where
  "client_type_glyphs = [
     ''NULL'',
     [CHR 0xE7, CHR 0xAD, CHR 0x92],
     [CHR 0xE6, CHR 0xA2, CHR 0x9D],
     [CHR 0xE8, CHR 0x90, CHR 0xAC],
     ''  '',
     [CHR 0xE8, CHR 0x8A, CHR 0xB1],
     [],
     [],
     [],
     []]"

definition overline :: string where
  "overline = [CHR 0xE2, CHR 0x80, CHR 0xBE]"

subsection \<open>Rows\<close>

text \<open>
  A loop over the hand that stops at the first null tile. It reads the next tile too, to set the
  last tile apart when \<open>separate\<close> is set; the loop over the door does not.
\<close>

fun hand_row :: "mj list \<Rightarrow> bool \<Rightarrow> string \<Rightarrow> (int \<Rightarrow> mj \<Rightarrow> string option) \<Rightarrow> int list \<Rightarrow> string option" where
  "hand_row hands separate gap cell [] = Some []"
| "hand_row hands separate gap cell (i # is) = do {
     h \<leftarrow> at hands i;
     if type h = 0 \<and> number h = 0 then Some []
     else do {
       next_tile \<leftarrow> at hands (i + 1);
       c \<leftarrow> cell i h;
       r \<leftarrow> hand_row hands separate gap cell is;
       Some ((if type next_tile = 0 \<and> number next_tile = 0 \<and> separate then gap else []) @ c @ r)
     }
   }"

fun door_row :: "mj list \<Rightarrow> (int \<Rightarrow> mj \<Rightarrow> string option) \<Rightarrow> int list \<Rightarrow> string option" where
  "door_row doors cell [] = Some []"
| "door_row doors cell (i # is) = do {
     d \<leftarrow> at doors i;
     if type d = 0 \<and> number d = 0 then Some []
     else do {
       c \<leftarrow> cell i d;
       r \<leftarrow> door_row doors cell is;
       Some (c @ r)
     }
   }"

definition number_cell :: "mj \<Rightarrow> string option" where
  "number_cell m = (if type m = 4 then at wind_number_glyphs (number m) else at number_glyphs (number m))"

definition type_cell :: "string list \<Rightarrow> mj \<Rightarrow> string option" where
  "type_cell glyphs m = (if type m = 4 \<and> number m > 4 then Some ''  '' else at glyphs (type m))"

text \<open>The first tile of the door decides whether a border is printed before it.\<close>

definition door_border :: "mj list \<Rightarrow> string \<Rightarrow> string option" where
  "door_border doors b = do {
     d \<leftarrow> at doors 0;
     Some (if type d \<noteq> 0 \<and> number d \<noteq> 0 then b else [])
   }"

definition board_card :: "string list \<Rightarrow> mj \<Rightarrow> string option" where
  "board_card glyphs on_board =
     (if type on_board \<noteq> 0 \<and> number on_board \<noteq> 0 then do {
        n \<leftarrow> number_cell on_board;
        t \<leftarrow> (if type on_board = 4 \<and> number on_board > 4 then Some ''|  |\<newline>''
              else do { g \<leftarrow> at glyphs (type on_board); Some (''|'' @ g @ ''|\<newline>'') });
        Some (''card on table: \<newline>'' @ ''____\<newline>'' @ ''|'' @ n @ ''|\<newline>'' @ t @
          overline @ overline @ overline @ overline @ ''\<newline>'')
      }
      else Some [])"

definition index_row :: "mj list \<Rightarrow> bool \<Rightarrow> string option" where
  "index_row hands separate = do {
     r \<leftarrow> hand_row hands separate ''   ''
           (\<lambda>i _. Some (if i \<ge> 10 then '' '' @ show_int i else '' 0'' @ show_int i)) [0..19];
     Some (r @ ''\<newline>'')
   }"

text \<open>A row of the frame: left border, hand, two tabs, door, each tile as \<open>cell\<close> prints it.\<close>

definition frame_row ::
  "string \<Rightarrow> string \<Rightarrow> (mj \<Rightarrow> string option) \<Rightarrow> mj list \<Rightarrow> mj list \<Rightarrow> bool \<Rightarrow> string option" where
  "frame_row border gap cell hands doors separate = do {
     h \<leftarrow> hand_row hands separate gap (\<lambda>_. cell) [0..19];
     b \<leftarrow> door_border doors border;
     d \<leftarrow> door_row doors (\<lambda>_. cell) [0..19];
     Some (border @ h @ [CHR 0x09, CHR 0x09] @ b @ d @ ''\<newline>'')
   }"

definition cap_row :: "mj list \<Rightarrow> mj list \<Rightarrow> bool \<Rightarrow> string option" where
  "cap_row = frame_row ''_'' ''  _'' (\<lambda>_. Some ''___'')"

definition number_row :: "mj list \<Rightarrow> mj list \<Rightarrow> bool \<Rightarrow> string option" where
  "number_row = frame_row ''|'' ''  |'' (\<lambda>m. do { n \<leftarrow> number_cell m; Some (n @ ''|'') })"

definition type_row :: "string list \<Rightarrow> mj list \<Rightarrow> mj list \<Rightarrow> bool \<Rightarrow> string option" where
  "type_row glyphs = frame_row ''|'' ''  |'' (\<lambda>m. do { t \<leftarrow> type_cell glyphs m; Some (t @ ''|'') })"

definition under_row :: "mj list \<Rightarrow> mj list \<Rightarrow> bool \<Rightarrow> string option" where
  "under_row = frame_row overline (''  '' @ overline) (\<lambda>_. Some (overline @ overline @ overline))"

definition print_rows ::
  "string list \<Rightarrow> string \<Rightarrow> mj list \<Rightarrow> mj list \<Rightarrow> mj \<Rightarrow> bool \<Rightarrow> bool \<Rightarrow> string option" where
  "print_rows glyphs message hands doors on_board separate show_index = do {
     b \<leftarrow> board_card glyphs on_board;
     i \<leftarrow> (if show_index then index_row hands separate else Some []);
     c \<leftarrow> cap_row hands doors separate;
     n \<leftarrow> number_row hands doors separate;
     t \<leftarrow> type_row glyphs hands doors separate;
     u \<leftarrow> under_row hands doors separate;
     Some (b @ message @ ''Your decks: \<newline>'' @ i @ c @ n @ t @ u)
   }"

definition print_deck :: "mj list \<Rightarrow> mj list \<Rightarrow> mj \<Rightarrow> bool \<Rightarrow> bool \<Rightarrow> string option" where
  "print_deck = print_rows type_glyphs []"

definition client_print_deck :: "string \<Rightarrow> mj list \<Rightarrow> mj list \<Rightarrow> mj \<Rightarrow> bool \<Rightarrow> bool \<Rightarrow> string option" where
  "client_print_deck message = print_rows client_type_glyphs message"

definition single_card :: "string list \<Rightarrow> mj \<Rightarrow> string option" where
  "single_card glyphs a = do {
     n \<leftarrow> number_cell a;
     t \<leftarrow> (if type a = 4 \<and> number a > 4 then Some '' '' else at glyphs (type a));
     Some (''___\<newline>|'' @ n @ ''|\<newline>|'' @ t @ ''|\<newline>'' @ overline @ overline @ overline @ ''\<newline>'')
   }"

definition print_single_card :: "mj \<Rightarrow> string option" where
  "print_single_card = single_card type_glyphs"

definition client_print_single_card :: "mj \<Rightarrow> string option" where
  "client_print_single_card = single_card client_type_glyphs"

subsection \<open>No access out of bounds\<close>

text \<open>
  A tile that the tables have a glyph for: playable, null or a flower (of the numbers there are).
\<close>

definition printable :: "mj \<Rightarrow> bool" where
  "printable m \<longleftrightarrow> playable m \<or> is_null m \<or> is_flower m"

lemma glyph_lengths [simp]:
  "length number_glyphs = 10" "length wind_number_glyphs = 8" "length type_glyphs = 10"
  "length client_type_glyphs = 10"
  by (simp_all add: number_glyphs_def wind_number_glyphs_def type_glyphs_def client_type_glyphs_def)

lemma at_SomeI: "0 \<le> i \<Longrightarrow> i < int (length xs) \<Longrightarrow> \<exists>x. at xs i = Some x"
  by simp

lemma number_cell_ex: "printable m \<Longrightarrow> \<exists>n. number_cell m = Some n"
  unfolding number_cell_def printable_def playable_def is_null_def is_flower_def
  by (cases "type m = 4") (auto intro!: at_SomeI)

lemma type_cell_ex: "printable m \<Longrightarrow> length g = 10 \<Longrightarrow> \<exists>n. type_cell g m = Some n"
  unfolding type_cell_def printable_def playable_def is_null_def is_flower_def
  by (auto intro!: at_SomeI)

text \<open>
  The loop over the hand looks one place ahead, so at the last place it reads behind the array, unless
  it has met an empty place before: then, and only then, it stays inside.
\<close>

lemma hand_row_iff:
  assumes "length hands = 20" and "\<forall>i m. m \<in> set hands \<longrightarrow> (\<exists>c. cell i m = Some c)" and "j \<le> 19"
  shows "(\<exists>r. hand_row hands separate gap cell [int j..19] = Some r) \<longleftrightarrow> (\<exists>k. j \<le> k \<and> k < 20 \<and> is_null (hands ! k))"
  using assms(3)
proof (induction "19 - j" arbitrary: j)
  case 0
  then have j: "j = 19" using 0 by simp
  have "(\<exists>k. 19 \<le> k \<and> k < 20 \<and> is_null (hands ! k)) \<longleftrightarrow> is_null (hands ! 19)"
    by (auto dest: order_antisym [of 19])
  moreover have "(\<exists>r. hand_row hands separate gap cell [19..19] = Some r) \<longleftrightarrow> is_null (hands ! 19)"
    using assms(1) by (auto simp: upto.simps at_eq is_null_def bind_eq_Some_conv)
  ultimately show ?case unfolding j by simp
next
  case (Suc d)
  then have j: "j < 19" by simp
  have row: "[int j..19] = int j # [int (Suc j)..19]" using j by (simp add: upto_rec1 add.commute)
  have at: "at hands (int j) = Some (hands ! j)" "at hands (int j + 1) = Some (hands ! Suc j)"
    using assms(1) j by (auto simp: nat_add_distrib)
  have "hands ! j \<in> set hands" using j assms(1) by simp
  then obtain c where c: "cell (int j) (hands ! j) = Some c" using assms(2) by blast
  have IH: "(\<exists>r. hand_row hands separate gap cell [int (Suc j)..19] = Some r) \<longleftrightarrow>
      (\<exists>k. Suc j \<le> k \<and> k < 20 \<and> is_null (hands ! k))"
    by (rule Suc.hyps(1)) (use Suc j in auto)
  show ?case
  proof (cases "is_null (hands ! j)")
    case True
    then have "(\<exists>k. j \<le> k \<and> k < 20 \<and> is_null (hands ! k)) \<longleftrightarrow> True" using j by (auto intro: exI [of _ j])
    moreover have "type (hands ! j) = 0 \<and> number (hands ! j) = 0" using True by (simp add: is_null_def)
    ultimately show ?thesis unfolding row by (simp add: at del: at_Some)
  next
    case False
    then have "(\<exists>k. j \<le> k \<and> k < 20 \<and> is_null (hands ! k)) \<longleftrightarrow> (\<exists>k. Suc j \<le> k \<and> k < 20 \<and> is_null (hands ! k))"
      by (metis Suc_le_eq le_less)
    moreover have "\<not> (type (hands ! j) = 0 \<and> number (hands ! j) = 0)" using False by (auto simp: is_null_def)
    ultimately show ?thesis
      unfolding row IH [symmetric] by (auto simp: at c bind_eq_Some_conv simp del: at_Some)
  qed
qed

lemma hand_row_stops:
  assumes "length hands = 20" and "\<forall>i m. m \<in> set hands \<longrightarrow> (\<exists>c. cell i m = Some c)"
  shows "(\<exists>r. hand_row hands separate gap cell [0..19] = Some r) \<longleftrightarrow> (\<exists>m \<in> set hands. is_null m)"
  using hand_row_iff [OF assms, of 0] assms(1) by (simp add: Bex_def in_set_conv_nth) blast

lemma door_row_ex:
  assumes "\<forall>i \<in> set is. 0 \<le> i \<and> i < int (length doors)"
    and "\<forall>i m. m \<in> set doors \<longrightarrow> (\<exists>c. cell i m = Some c)"
  shows "\<exists>r. door_row doors cell is = Some r"
  using assms(1)
proof (induction "is")
  case (Cons i "is")
  then have i: "at doors i = Some (doors ! nat i)" "doors ! nat i \<in> set doors"
    by (auto simp: at_eq intro!: nth_mem)
  from assms(2) i(2) obtain c where "cell i (doors ! nat i) = Some c" by blast
  with Cons i(1) show ?case by (auto simp: at_eq)
qed simp

lemma frame_row_iff:
  assumes "length hands = 20" "length doors = 20" "\<forall>m \<in> set hands \<union> set doors. \<exists>c. cell m = Some c"
  shows "(\<exists>r. frame_row border gap cell hands doors separate = Some r) \<longleftrightarrow> (\<exists>m \<in> set hands. is_null m)"
proof -
  have "(\<exists>h. hand_row hands separate gap (\<lambda>_. cell) [0..19] = Some h) \<longleftrightarrow> (\<exists>m \<in> set hands. is_null m)"
    by (rule hand_row_stops) (use assms in auto)
  moreover have "\<exists>d. door_row doors (\<lambda>_. cell) [0..19] = Some d"
    by (rule door_row_ex) (use assms in auto)
  ultimately show ?thesis using assms(2) by (auto simp: frame_row_def door_border_def at_eq bind_eq_Some_conv)
qed

lemma print_rows_iff:
  assumes "length hands = 20" "length doors = 20" "length glyphs = 10"
    and "\<forall>m \<in> set hands \<union> set doors. printable m" and "printable on_board"
  shows "(\<exists>r. print_rows glyphs message hands doors on_board separate show_index = Some r) \<longleftrightarrow>
    (\<exists>m \<in> set hands. is_null m)"
proof -
  let ?E = "\<exists>m \<in> set hands. is_null m"
  have cells: "\<exists>c. (do { n \<leftarrow> number_cell m; Some (n @ ''|'') }) = Some c"
    "\<exists>c. (do { t \<leftarrow> type_cell glyphs m; Some (t @ ''|'') }) = Some c"
    if "m \<in> set hands \<union> set doors" for m
    using number_cell_ex [of m] type_cell_ex [of m glyphs] that assms(3,4) by auto
  note F = frame_row_iff [OF assms(1,2)]
  have c: "(\<exists>c. cap_row hands doors separate = Some c) \<longleftrightarrow> ?E" unfolding cap_row_def by (rule F) simp
  have n: "(\<exists>n. number_row hands doors separate = Some n) \<longleftrightarrow> ?E"
    unfolding number_row_def by (rule F) (use cells(1) in blast)
  have t: "(\<exists>t. type_row glyphs hands doors separate = Some t) \<longleftrightarrow> ?E"
    unfolding type_row_def by (rule F) (use cells(2) in blast)
  have u: "(\<exists>u. under_row hands doors separate = Some u) \<longleftrightarrow> ?E" unfolding under_row_def by (rule F) simp
  have i: "(\<exists>i. index_row hands separate = Some i) \<longleftrightarrow> ?E"
  proof -
    have "(\<exists>r. hand_row hands separate ''   ''
        (\<lambda>i _. Some (if i \<ge> 10 then '' '' @ show_int i else '' 0'' @ show_int i)) [0..19] = Some r) \<longleftrightarrow> ?E"
      by (rule hand_row_stops [OF assms(1)]) simp
    then show ?thesis by (simp add: index_row_def bind_eq_Some_conv)
  qed
  have b: "\<exists>b. board_card glyphs on_board = Some b"
  proof -
    from number_cell_ex [OF assms(5)] obtain n where n: "number_cell on_board = Some n" by blast
    from type_cell_ex [OF assms(5,3)] obtain t where "type_cell glyphs on_board = Some t" by blast
    then have "\<not> (type on_board = 4 \<and> number on_board > 4) \<Longrightarrow> at glyphs (type on_board) = Some t"
      by (simp add: type_cell_def split: if_splits)
    with n show ?thesis
      by (cases "type on_board = 4 \<and> number on_board > 4") (simp_all add: board_card_def del: at_Some)
  qed
  show ?thesis
  proof
    assume ?E
    then show "\<exists>r. print_rows glyphs message hands doors on_board separate show_index = Some r"
      using b c n t u i by (cases show_index) (auto simp: print_rows_def)
  next
    assume "\<exists>r. print_rows glyphs message hands doors on_board separate show_index = Some r"
    then have "\<exists>c. cap_row hands doors separate = Some c" by (auto simp: print_rows_def bind_eq_Some_conv)
    then show ?E using c by blast
  qed
qed

text \<open>A row over a hand of \<open>k\<close> tiles, not set apart, is the cells of these tiles in order.\<close>

lemma hand_row_cells:
  assumes "k < length hands" and "\<forall>i < k. \<not> is_null (hands ! i)" and "is_null (hands ! k)"
    and "\<forall>i < k. cell (int i) (hands ! i) = Some (c i)" and "j \<le> k" and "k \<le> n"
  shows "hand_row hands False gap cell [int j..int n] = Some (concat (map c [j..<k]))"
  using assms(5)
proof (induction "k - j" arbitrary: j)
  case 0
  then have "j = k" by simp
  moreover have "[int k..int n] = int k # [int k + 1..int n]" using assms(6) by (simp add: upto_rec1)
  ultimately show ?case using assms(1,3) by (simp add: at_eq is_null_def)
next
  case (Suc d)
  then have j: "j < k" by simp
  have "[int j..int n] = int j # [int (Suc j)..int n]"
    using j assms(6) by (simp add: upto_rec1 add.commute)
  moreover have "hand_row hands False gap cell [int (Suc j)..int n] = Some (concat (map c [Suc j..<k]))"
    by (rule Suc.hyps(1)) (use Suc j in auto)
  moreover have "[j..<k] = j # [Suc j..<k]" using j by (simp add: upt_conv_Cons)
  moreover have "\<not> (type (hands ! j) = 0 \<and> number (hands ! j) = 0)"
    using assms(2) j by (auto simp: is_null_def)
  moreover have "at hands (int j) = Some (hands ! j)" "at hands (int j + 1) = Some (hands ! Suc j)"
    using assms(1) j by (auto simp: nat_add_distrib)
  moreover have "cell (int j) (hands ! j) = Some (c j)" using assms(4) j by simp
  ultimately show ?case by (simp only: hand_row.simps) auto
qed

end
