(* ===== verification/QuickSort.thy ===== *)
theory QuickSort
  imports Tiles
begin

text \<open>
  The in-place quick sort of the server and the client. The C has it twice, once on the
  field \<open>priority\<close> (\<open>priority_quick_sort\<close>, for the wall) and once on
  \<open>type * 10 + number\<close> (\<open>decks_quick_sort\<close>, for hands); both are the function
  \<open>quick_sort\<close> at their key. Every array access is checked: a result \<open>None\<close> is an access
  outside the array. The locale \<open>range_sort\<close> is the contract that the callers rely on.
\<close>

definition swap_at :: "'a list \<Rightarrow> int \<Rightarrow> int \<Rightarrow> 'a list option" where
  "swap_at xs i j = do {
     a \<leftarrow> at xs i;
     b \<leftarrow> at xs j;
     ys \<leftarrow> set_at xs i b;
     set_at ys j a
   }"

function scan_left :: "('a \<Rightarrow> int) \<Rightarrow> 'a list \<Rightarrow> int \<Rightarrow> int \<Rightarrow> int \<Rightarrow> int option" where
  "scan_left key xs pivot left right =
     (if left \<le> right then do {
        x \<leftarrow> at xs left;
        if key x \<le> pivot then scan_left key xs pivot (left + 1) right else Some left
      }
      else Some left)"
  by pat_completeness auto
termination
  by (relation "measure (\<lambda>(key, xs, pivot, left, right). nat (right - left + 1))") auto

function scan_right :: "('a \<Rightarrow> int) \<Rightarrow> 'a list \<Rightarrow> int \<Rightarrow> int \<Rightarrow> int \<Rightarrow> int option" where
  "scan_right key xs pivot left right =
     (if left \<le> right then do {
        x \<leftarrow> at xs right;
        if key x \<ge> pivot then scan_right key xs pivot left (right - 1) else Some right
      }
      else Some right)"
  by pat_completeness auto
termination
  by (relation "measure (\<lambda>(key, xs, pivot, left, right). nat (right - left + 1))") auto

declare scan_left.simps [simp del] scan_right.simps [simp del]

lemma scan_left_stops:
  "scan_left key xs pivot left right = Some l \<Longrightarrow>
     left \<le> l \<and> (left \<le> right \<longrightarrow> l \<le> right + 1) \<and>
     (l \<le> right \<longrightarrow> 0 \<le> l \<and> l < int (length xs) \<and> pivot < key (xs ! nat l)) \<and>
     (\<forall>i. left \<le> i \<and> i < l \<longrightarrow> key (xs ! nat i) \<le> pivot)"
proof (induction key xs pivot left right rule: scan_left.induct)
  case (1 key xs pivot left right)
  note unf = scan_left.simps [of key xs pivot left right]
  show ?case
  proof (cases "left \<le> right \<and> 0 \<le> left \<and> left < int (length xs) \<and> key (xs ! nat left) \<le> pivot")
    case True
    with "1.prems" have "scan_left key xs pivot (left + 1) right = Some l"
      by (simp add: unf at_eq)
    with "1.IH" True have ih: "left + 1 \<le> l" "left + 1 \<le> right \<longrightarrow> l \<le> right + 1"
      "l \<le> right \<longrightarrow> 0 \<le> l \<and> l < int (length xs) \<and> pivot < key (xs ! nat l)"
      "\<forall>i. left + 1 \<le> i \<and> i < l \<longrightarrow> key (xs ! nat i) \<le> pivot"
      by (auto simp: at_eq)
    have "\<forall>i. left \<le> i \<and> i < l \<longrightarrow> key (xs ! nat i) \<le> pivot"
      using ih(4) True by (metis order_le_less zless_imp_add1_zle)
    moreover have "l \<le> right + 1"
      using ih True \<open>scan_left key xs pivot (left + 1) right = Some l\<close>
      by (cases "left + 1 \<le> right") (auto simp: scan_left.simps [of key xs pivot "left + 1"])
    ultimately show ?thesis using ih by auto
  next
    case False
    with "1.prems" show ?thesis
      by (auto simp: unf bind_eq_Some_conv split: if_splits)
  qed
qed

lemma scan_right_stops:
  "scan_right key xs pivot left right = Some r \<Longrightarrow>
     r \<le> right \<and> (left \<le> right \<longrightarrow> left - 1 \<le> r) \<and>
     (left \<le> r \<longrightarrow> 0 \<le> r \<and> r < int (length xs) \<and> key (xs ! nat r) < pivot) \<and>
     (\<forall>i. r < i \<and> i \<le> right \<longrightarrow> pivot \<le> key (xs ! nat i))"
proof (induction key xs pivot left right rule: scan_right.induct)
  case (1 key xs pivot left right)
  note unf = scan_right.simps [of key xs pivot left right]
  show ?case
  proof (cases "left \<le> right \<and> 0 \<le> right \<and> right < int (length xs) \<and> pivot \<le> key (xs ! nat right)")
    case True
    with "1.prems" have rec: "scan_right key xs pivot left (right - 1) = Some r"
      by (simp add: unf at_eq)
    with "1.IH" True have ih: "r \<le> right - 1" "left \<le> right - 1 \<longrightarrow> left - 1 \<le> r"
      "left \<le> r \<longrightarrow> 0 \<le> r \<and> r < int (length xs) \<and> key (xs ! nat r) < pivot"
      "\<forall>i. r < i \<and> i \<le> right - 1 \<longrightarrow> pivot \<le> key (xs ! nat i)"
      by (auto simp: at_eq)
    have "\<forall>i. r < i \<and> i \<le> right \<longrightarrow> pivot \<le> key (xs ! nat i)"
      using ih(4) True by (metis order_le_less zle_diff1_eq)
    moreover have "left - 1 \<le> r"
      using ih True rec
      by (cases "left \<le> right - 1") (auto simp: scan_right.simps [of key xs pivot left "right - 1"])
    ultimately show ?thesis using ih by auto
  next
    case False
    with "1.prems" show ?thesis
      by (auto simp: unf bind_eq_Some_conv split: if_splits)
  qed
qed

lemma scan_left_total:
  "0 \<le> left \<Longrightarrow> right < int (length xs) \<Longrightarrow> \<exists>l. scan_left key xs pivot left right = Some l"
proof (induction key xs pivot left right rule: scan_left.induct)
  case (1 key xs pivot left right)
  then show ?case
    by (cases "left \<le> right") (auto simp: scan_left.simps [of key xs pivot left right] at_eq)
qed

lemma scan_right_total:
  "0 \<le> left \<Longrightarrow> right < int (length xs) \<Longrightarrow> \<exists>r. scan_right key xs pivot left right = Some r"
proof (induction key xs pivot left right rule: scan_right.induct)
  case (1 key xs pivot left right)
  then show ?case
    by (cases "left \<le> right") (auto simp: scan_right.simps [of key xs pivot left right] at_eq)
qed

lemma swap_at_eq:
  assumes "0 \<le> i" "i < int (length xs)" "0 \<le> j" "j < int (length xs)"
  shows "swap_at xs i j = Some (xs[nat i := xs ! nat j, nat j := xs ! nat i])"
  using assms by (simp add: swap_at_def at_eq set_at_eq)

lemma swap_at_SomeD:
  assumes "swap_at xs i j = Some ys"
  shows "0 \<le> i \<and> i < int (length xs) \<and> 0 \<le> j \<and> j < int (length xs) \<and>
         ys = xs[nat i := xs ! nat j, nat j := xs ! nat i]"
  using assms by (auto simp: swap_at_def bind_eq_Some_conv)

subsection \<open>Partitioning\<close>

text \<open>
  The outer loop of the partition. It stops because a pass that moves neither index swaps a
  larger with a smaller element, so that the next pass moves the left index.
\<close>

function part_loop :: "('a \<Rightarrow> int) \<Rightarrow> 'a list \<Rightarrow> int \<Rightarrow> int \<Rightarrow> int \<Rightarrow> ('a list \<times> int) option" where
  "part_loop key xs pivot left right =
     (if left \<le> right then do {
        l \<leftarrow> scan_left key xs pivot left right;
        r \<leftarrow> scan_right key xs pivot l right;
        ys \<leftarrow> (if l < r then swap_at xs l r else Some xs);
        part_loop key ys pivot l r
      }
      else Some (xs, right))"
  by pat_completeness auto

definition part_measure :: "('a \<Rightarrow> int) \<Rightarrow> 'a list \<Rightarrow> int \<Rightarrow> int \<Rightarrow> int \<Rightarrow> nat" where
  "part_measure key xs pivot left right =
     2 * nat (right - left + 1) +
     (case at xs left of Some x \<Rightarrow> if pivot < key x then 1 else 0 | None \<Rightarrow> 0)"

lemma part_measure_bounds:
  "2 * nat (right - left + 1) \<le> part_measure key xs pivot left right"
  "part_measure key xs pivot left right \<le> 2 * nat (right - left + 1) + 1"
  by (auto simp: part_measure_def split: option.splits)

lemma part_measure_decreases:
  assumes le: "left \<le> right"
    and sl: "scan_left key xs pivot left right = Some l"
    and sr: "scan_right key xs pivot l right = Some r"
    and ys: "(if l < r then swap_at xs l r else Some xs) = Some ys"
  shows "part_measure key ys pivot l r < part_measure key xs pivot left right"
proof -
  note L = scan_left_stops [OF sl] and R = scan_right_stops [OF sr]
  have ne: "l \<noteq> r" using L R by auto
  show ?thesis
  proof (cases "r - l < right - left")
    case True
    then show ?thesis
      using part_measure_bounds(2) [of key ys pivot l r]
        part_measure_bounds(1) [of right left key xs pivot] le by linarith
  next
    case False
    with L R le have eq: "l = left" "r = right" by auto
    with ne le have lt: "l < r" by simp
    from ys lt have sw: "swap_at xs l r = Some ys" by simp
    note S = swap_at_SomeD [OF sw]
    have "ys ! nat l = xs ! nat r" using S lt by (auto simp: nth_list_update)
    then have "at ys l = Some (xs ! nat r)" using S by simp
    moreover have "key (xs ! nat r) < pivot" using R lt by simp
    moreover have "at xs left = Some (xs ! nat l)" "pivot < key (xs ! nat l)"
      using L eq lt S by auto
    ultimately show ?thesis using eq by (simp add: part_measure_def del: at_Some)
  qed
qed

termination part_loop
proof (relation "measure (\<lambda>(key, xs, pivot, left, right). part_measure key xs pivot left right)")
  show "wf (measure (\<lambda>(key, xs, pivot, left, right). part_measure key xs pivot left right))"
    by simp
qed (use part_measure_decreases in auto)

declare part_loop.simps [simp del]

text \<open>
  \<open>range_perm lo hi xs ys\<close>: \<open>ys\<close> is a rearrangement of \<open>xs\<close> that moves nothing outside
  the positions \<open>lo\<close> to \<open>hi\<close>.
\<close>

definition range_perm :: "int \<Rightarrow> int \<Rightarrow> 'a list \<Rightarrow> 'a list \<Rightarrow> bool" where
  "range_perm lo hi xs ys \<longleftrightarrow>
     length ys = length xs \<and> mset ys = mset xs \<and>
     (\<forall>k. int k < lo \<or> hi < int k \<longrightarrow> ys ! k = xs ! k)"

lemma range_perm_refl [simp]: "range_perm lo hi xs xs"
  by (simp add: range_perm_def)

lemma range_perm_trans [trans]:
  "range_perm lo hi xs ys \<Longrightarrow> range_perm lo hi ys zs \<Longrightarrow> range_perm lo hi xs zs"
  by (simp add: range_perm_def)

lemma range_perm_mono:
  "range_perm lo hi xs ys \<Longrightarrow> lo' \<le> lo \<Longrightarrow> hi \<le> hi' \<Longrightarrow> range_perm lo' hi' xs ys"
  by (auto simp: range_perm_def)

lemma range_permD:
  assumes "range_perm lo hi xs ys"
  shows "length ys = length xs" and "mset ys = mset xs"
    and "int k < lo \<Longrightarrow> ys ! k = xs ! k" and "hi < int k \<Longrightarrow> ys ! k = xs ! k"
  using assms by (auto simp: range_perm_def)

lemma range_perm_swap:
  assumes "0 \<le> i" "i < int (length xs)" "0 \<le> j" "j < int (length xs)"
    and "lo \<le> i" "i \<le> hi" "lo \<le> j" "j \<le> hi"
  shows "range_perm lo hi xs (xs[nat i := xs ! nat j, nat j := xs ! nat i])"
  using assms by (auto simp: range_perm_def nth_list_update intro!: mset_swap)

text \<open>A permutation of the range takes each of its elements from the range.\<close>

lemma range_perm_slice:
  assumes rp: "range_perm lo hi xs ys" and "0 \<le> lo" "lo \<le> hi + 1" "hi < int (length xs)"
  shows "mset (take (nat (hi + 1 - lo)) (drop (nat lo) ys)) =
         mset (take (nat (hi + 1 - lo)) (drop (nat lo) xs))"
proof -
  let ?n = "nat (hi + 1 - lo)"
  have split: "zs = take (nat lo) zs @ take ?n (drop (nat lo) zs) @ drop (nat (hi + 1)) zs" for zs :: "'a list"
  proof -
    have "drop (nat (hi + 1)) zs = drop ?n (drop (nat lo) zs)"
      using assms by (simp add: nat_add_distrib [symmetric])
    then show ?thesis by (simp del: drop_drop)
  qed
  note len = range_permD(1) [OF rp]
  have "take (nat lo) ys = take (nat lo) xs"
    using len range_permD(3) [OF rp] by (intro nth_equalityI) auto
  moreover have "drop (nat (hi + 1)) ys = drop (nat (hi + 1)) xs"
    using len range_permD(4) [OF rp] by (intro nth_equalityI) auto
  moreover have "mset ys = mset xs" by (rule range_permD(2) [OF rp])
  ultimately show ?thesis
    using arg_cong [OF split [of ys], of mset] arg_cong [OF split [of xs], of mset]
    by (metis mset_append add_left_imp_eq add_right_imp_eq)
qed

lemma slice_nth:
  assumes "0 \<le> lo" "lo \<le> hi + 1" "hi < int (length xs)"
  shows "set (take (nat (hi + 1 - lo)) (drop (nat lo) xs)) = {xs ! nat i | i. lo \<le> i \<and> i \<le> hi}"
    (is "?L = ?R")
proof
  show "?L \<subseteq> ?R"
  proof
    fix x assume "x \<in> ?L"
    then obtain k where k: "k < nat (hi + 1 - lo)" "k < length xs - nat lo" "x = xs ! (nat lo + k)"
      by (auto simp: in_set_conv_nth)
    then have "x = xs ! nat (lo + int k)" using assms by (simp add: nat_add_distrib)
    with k assms show "x \<in> ?R" by (intro CollectI exI [of _ "lo + int k"]) auto
  qed
  show "?R \<subseteq> ?L"
  proof
    fix x assume "x \<in> ?R"
    then obtain i where i: "lo \<le> i" "i \<le> hi" "x = xs ! nat i" by auto
    have e: "x = take (nat (hi + 1 - lo)) (drop (nat lo) xs) ! nat (i - lo)"
      using i assms by (simp add: nat_add_distrib [symmetric])
    show "x \<in> ?L" unfolding e by (rule nth_mem) (use i assms in auto)
  qed
qed

lemma range_perm_all:
  assumes "range_perm lo hi xs ys" and "0 \<le> lo" "lo \<le> hi + 1" "hi < int (length xs)"
    and "\<forall>i. lo \<le> i \<and> i \<le> hi \<longrightarrow> P (xs ! nat i)"
  shows "\<forall>i. lo \<le> i \<and> i \<le> hi \<longrightarrow> P (ys ! nat i)"
proof -
  have "hi < int (length ys)" using range_permD(1) [OF assms(1)] assms(4) by simp
  with assms(2,3) have "{ys ! nat i | i. lo \<le> i \<and> i \<le> hi} =
      set (take (nat (hi + 1 - lo)) (drop (nat lo) ys))"
    by (rule slice_nth [symmetric])
  also have "\<dots> = set (take (nat (hi + 1 - lo)) (drop (nat lo) xs))"
    using range_perm_slice [OF assms(1-4)] by (rule mset_eq_setD)
  also have "\<dots> = {xs ! nat i | i. lo \<le> i \<and> i \<le> hi}"
    using assms(2-4) by (rule slice_nth)
  finally have eq: "{ys ! nat i | i. lo \<le> i \<and> i \<le> hi} = {xs ! nat i | i. lo \<le> i \<and> i \<le> hi}" .
  show ?thesis
  proof (intro allI impI)
    fix i assume "lo \<le> i \<and> i \<le> hi"
    then have "ys ! nat i \<in> {xs ! nat i | i. lo \<le> i \<and> i \<le> hi}" unfolding eq [symmetric] by blast
    with assms(5) show "P (ys ! nat i)" by auto
  qed
qed

text \<open>One pass of the partition loop.\<close>

lemma part_pass:
  assumes "0 \<le> lo" "lo \<le> left" "left \<le> right" "right \<le> hi" "hi < int (length xs)"
    and below: "\<forall>i. lo \<le> i \<and> i < left \<longrightarrow> key (xs ! nat i) \<le> pivot"
    and above: "\<forall>i. right < i \<and> i \<le> hi \<longrightarrow> pivot \<le> key (xs ! nat i)"
  obtains l r ys where "scan_left key xs pivot left right = Some l"
    and "scan_right key xs pivot l right = Some r"
    and "(if l < r then swap_at xs l r else Some xs) = Some ys"
    and "range_perm lo hi xs ys" and "lo \<le> l" "l \<le> r + 1" "r \<le> hi"
    and "\<forall>i. lo \<le> i \<and> i < l \<longrightarrow> key (ys ! nat i) \<le> pivot"
    and "\<forall>i. r < i \<and> i \<le> hi \<longrightarrow> pivot \<le> key (ys ! nat i)"
proof -
  from assms obtain l where sl: "scan_left key xs pivot left right = Some l"
    using scan_left_total [of left right xs key pivot] by auto
  note L = scan_left_stops [OF sl]
  from assms L obtain r where sr: "scan_right key xs pivot l right = Some r"
    using scan_right_total [of l right xs key pivot] by auto
  note R = scan_right_stops [OF sr]
  have lr: "l \<le> r + 1" using L R sr assms
    by (cases "l \<le> right") (auto simp: scan_right.simps [of key xs pivot l right])
  define ys where "ys = (if l < r then xs[nat l := xs ! nat r, nat r := xs ! nat l] else xs)"
  have bounds: "lo \<le> l" "r \<le> hi" "l < r \<longrightarrow> 0 \<le> l \<and> l < int (length xs) \<and> 0 \<le> r \<and> r < int (length xs)"
    using assms L R by auto
  have sw: "(if l < r then swap_at xs l r else Some xs) = Some ys"
    using bounds by (auto simp: ys_def swap_at_eq)
  have rp: "range_perm lo hi xs ys"
    using bounds by (auto simp: ys_def intro!: range_perm_swap)
  have same: "ys ! nat i = xs ! nat i" if "lo \<le> i" "i < l \<or> r < i" for i
    using that bounds assms(1) by (auto simp: ys_def)
  have "\<forall>i. lo \<le> i \<and> i < l \<longrightarrow> key (ys ! nat i) \<le> pivot"
  proof (intro allI impI)
    fix i assume i: "lo \<le> i \<and> i < l"
    then show "key (ys ! nat i) \<le> pivot" using L below same by (cases "i < left") auto
  qed
  moreover have "\<forall>i. r < i \<and> i \<le> hi \<longrightarrow> pivot \<le> key (ys ! nat i)"
  proof (intro allI impI)
    fix i assume i: "r < i \<and> i \<le> hi"
    then have "lo \<le> i" using bounds lr by linarith
    with i show "pivot \<le> key (ys ! nat i)" using R above same by (cases "i \<le> right") auto
  qed
  ultimately show thesis using that sl sr sw rp bounds lr by blast
qed

lemma part_loop_correct:
  assumes "0 \<le> lo" "lo \<le> left" "left \<le> right + 1" "right \<le> hi" "hi < int (length xs)"
    and "\<forall>i. lo \<le> i \<and> i < left \<longrightarrow> key (xs ! nat i) \<le> pivot"
    and "\<forall>i. right < i \<and> i \<le> hi \<longrightarrow> pivot \<le> key (xs ! nat i)"
  shows "\<exists>ys r. part_loop key xs pivot left right = Some (ys, r) \<and> range_perm lo hi xs ys \<and>
           lo - 1 \<le> r \<and> r \<le> hi \<and>
           (\<forall>i. lo \<le> i \<and> i \<le> r \<longrightarrow> key (ys ! nat i) \<le> pivot) \<and>
           (\<forall>i. r < i \<and> i \<le> hi \<longrightarrow> pivot \<le> key (ys ! nat i))"
  using assms
proof (induction key xs pivot left right rule: part_loop.induct)
  case (1 key xs pivot left right)
  note unf = part_loop.simps [of key xs pivot left right]
  show ?case
  proof (cases "left \<le> right")
    case False
    then show ?thesis using "1.prems" by (auto simp: unf)
  next
    case True
    from part_pass [OF "1.prems"(1,2) True "1.prems"(4-7)]
    obtain l r ys where sl: "scan_left key xs pivot left right = Some l"
      and sr: "scan_right key xs pivot l right = Some r"
      and sw: "(if l < r then swap_at xs l r else Some xs) = Some ys"
      and rp: "range_perm lo hi xs ys" and b: "lo \<le> l" "l \<le> r + 1" "r \<le> hi"
      and keys: "\<forall>i. lo \<le> i \<and> i < l \<longrightarrow> key (ys ! nat i) \<le> pivot"
        "\<forall>i. r < i \<and> i \<le> hi \<longrightarrow> pivot \<le> key (ys ! nat i)" .
    have "hi < int (length ys)" using "1.prems"(5) range_permD(1) [OF rp] by simp
    from "1.IH" [OF True sl sr sw "1.prems"(1) b this keys]
    obtain zs q where z: "part_loop key ys pivot l r = Some (zs, q)" "range_perm lo hi ys zs"
      "lo - 1 \<le> q" "q \<le> hi"
      "\<forall>i. lo \<le> i \<and> i \<le> q \<longrightarrow> key (zs ! nat i) \<le> pivot"
      "\<forall>i. q < i \<and> i \<le> hi \<longrightarrow> pivot \<le> key (zs ! nat i)" by blast
    have "part_loop key xs pivot left right = Some (zs, q)"
      using True sl sr sw z(1) by (simp add: unf)
    then show ?thesis using z range_perm_trans [OF rp z(2)] by blast
  qed
qed

text \<open>The index the partition ends at, for the termination of the sort.\<close>

lemma part_loop_right:
  "part_loop key xs pivot left right = Some (ys, r) \<Longrightarrow>
     r \<le> right \<and> (left \<le> right + 1 \<longrightarrow> left - 1 \<le> r)"
proof (induction key xs pivot left right rule: part_loop.induct)
  case (1 key xs pivot left right)
  note unf = part_loop.simps [of key xs pivot left right]
  show ?case
  proof (cases "left \<le> right")
    case False
    with "1.prems" show ?thesis by (simp add: unf)
  next
    case True
    with "1.prems" obtain l q zs where s: "scan_left key xs pivot left right = Some l"
      "scan_right key xs pivot l right = Some q"
      "(if l < q then swap_at xs l q else Some xs) = Some zs"
      and rec: "part_loop key zs pivot l q = Some (ys, r)"
      by (auto simp: unf bind_eq_Some_conv)
    note L = scan_left_stops [OF s(1)] and R = scan_right_stops [OF s(2)]
    have "l \<le> q + 1" using L R s(2) True
      by (cases "l \<le> right") (auto simp: scan_right.simps [of key xs pivot l right])
    with "1.IH" [OF True s rec] L R True show ?thesis by auto
  qed
qed

subsection \<open>The sort\<close>

function quick_sort :: "('a \<Rightarrow> int) \<Rightarrow> 'a list \<Rightarrow> int \<Rightarrow> int \<Rightarrow> 'a list option" where
  "quick_sort key mjs lo hi =
     (if lo \<ge> hi then Some mjs
      else do {
        p \<leftarrow> at mjs lo;
        (ys, right) \<leftarrow> part_loop key mjs (key p) (lo + 1) hi;
        zs \<leftarrow> swap_at ys lo right;
        us \<leftarrow> quick_sort key zs lo (right - 1);
        quick_sort key us (right + 1) hi
      })"
  by pat_completeness auto

termination quick_sort
  by (relation "measure (\<lambda>(key, mjs, lo, hi). nat (hi - lo))")
    (auto dest!: part_loop_right)

declare quick_sort.simps [simp del]

text \<open>Whatever the range, a sort that does not fault leaves the array its length.\<close>

lemma part_loop_length: "part_loop key xs pivot left right = Some (ys, r) \<Longrightarrow> length ys = length xs"
proof (induction key xs pivot left right rule: part_loop.induct)
  case (1 key xs pivot left right)
  note unf = part_loop.simps [of key xs pivot left right]
  show ?case
  proof (cases "left \<le> right")
    case True
    with "1.prems" obtain l q zs where s: "scan_left key xs pivot left right = Some l"
      "scan_right key xs pivot l right = Some q"
      "(if l < q then swap_at xs l q else Some xs) = Some zs"
      and rec: "part_loop key zs pivot l q = Some (ys, r)"
      by (auto simp: unf bind_eq_Some_conv)
    from "1.IH" [OF True s rec] s(3) show ?thesis by (auto dest: swap_at_SomeD split: if_splits)
  qed (use 1 in \<open>simp add: unf\<close>)
qed

lemma quick_sort_length: "quick_sort key xs lo hi = Some ys \<Longrightarrow> length ys = length xs"
proof (induction key xs lo hi arbitrary: ys rule: quick_sort.induct)
  case (1 key xs lo hi)
  note unf = quick_sort.simps [of key xs lo hi]
  show ?case
  proof (cases "lo \<ge> hi")
    case False
    with "1.prems" obtain p us q vs ws where s: "at xs lo = Some p" "part_loop key xs (key p) (lo + 1) hi = Some (us, q)"
      "swap_at us lo q = Some vs" "quick_sort key vs lo (q - 1) = Some ws" "quick_sort key ws (q + 1) hi = Some ys"
      by (auto simp: unf bind_eq_Some_conv)
    have "length ws = length vs" "length ys = length ws" using 1(1,2) False s by auto
    moreover have "length vs = length us" using s(3) by (auto dest: swap_at_SomeD)
    ultimately show ?thesis using part_loop_length [OF s(2)] by simp
  qed (use 1 in \<open>simp add: unf\<close>)
qed

definition priority_quick_sort :: "mj list \<Rightarrow> int \<Rightarrow> int \<Rightarrow> mj list option" where
  "priority_quick_sort = quick_sort priority"

definition decks_quick_sort :: "mj list \<Rightarrow> int \<Rightarrow> int \<Rightarrow> mj list option" where
  "decks_quick_sort = quick_sort deck_key"

text \<open>\<open>sorted_range key lo hi xs\<close>: the keys ascend from position \<open>lo\<close> to \<open>hi\<close>.\<close>

definition sorted_range :: "('a \<Rightarrow> int) \<Rightarrow> int \<Rightarrow> int \<Rightarrow> 'a list \<Rightarrow> bool" where
  "sorted_range key lo hi xs \<longleftrightarrow>
     (\<forall>i j. lo \<le> i \<and> i \<le> j \<and> j \<le> hi \<longrightarrow> key (xs ! nat i) \<le> key (xs ! nat j))"

lemma sorted_range_trivial: "hi \<le> lo \<Longrightarrow> sorted_range key lo hi xs"
  unfolding sorted_range_def by (metis order_antisym order_refl order_trans)

lemma sorted_range_join:
  assumes "sorted_range key lo (m - 1) xs" and "sorted_range key (m + 1) hi xs"
    and "\<forall>i. lo \<le> i \<and> i \<le> m - 1 \<longrightarrow> key (xs ! nat i) \<le> key (xs ! nat m)"
    and "\<forall>i. m + 1 \<le> i \<and> i \<le> hi \<longrightarrow> key (xs ! nat m) \<le> key (xs ! nat i)"
  shows "sorted_range key lo hi xs"
  unfolding sorted_range_def
proof (intro allI impI)
  fix i j assume ij: "lo \<le> i \<and> i \<le> j \<and> j \<le> hi"
  consider "j \<le> m - 1" | "m + 1 \<le> i" | "i \<le> m" "m \<le> j" by linarith
  then show "key (xs ! nat i) \<le> key (xs ! nat j)"
  proof cases
    case 1 then show ?thesis using ij assms(1) by (simp add: sorted_range_def)
  next
    case 2 then show ?thesis using ij assms(2) by (simp add: sorted_range_def)
  next
    case 3
    have "key (xs ! nat i) \<le> key (xs ! nat m)" using 3 ij assms(3) by (cases "i = m") auto
    also have "\<dots> \<le> key (xs ! nat j)" using 3 ij assms(4) by (cases "j = m") auto
    finally show ?thesis .
  qed
qed

lemma sorted_range_cong:
  assumes "sorted_range key lo hi xs" and "\<And>i. lo \<le> i \<Longrightarrow> i \<le> hi \<Longrightarrow> ys ! nat i = xs ! nat i"
  shows "sorted_range key lo hi ys"
  using assms by (auto simp: sorted_range_def)

text \<open>After the partition and the swap the pivot stands between the two parts.\<close>

lemma partition_step:
  assumes "0 \<le> lo" "lo < hi" "hi < int (length mjs)"
  obtains ys r zs where "part_loop key mjs (key (mjs ! nat lo)) (lo + 1) hi = Some (ys, r)"
    and "swap_at ys lo r = Some zs" and "lo \<le> r" "r \<le> hi"
    and "range_perm lo hi mjs zs"
    and "\<forall>i. lo \<le> i \<and> i \<le> r - 1 \<longrightarrow> key (zs ! nat i) \<le> key (zs ! nat r)"
    and "\<forall>i. r + 1 \<le> i \<and> i \<le> hi \<longrightarrow> key (zs ! nat r) \<le> key (zs ! nat i)"
proof -
  let ?p = "key (mjs ! nat lo)"
  have "\<exists>ys r. part_loop key mjs ?p (lo + 1) hi = Some (ys, r) \<and>
      range_perm (lo + 1) hi mjs ys \<and> lo + 1 - 1 \<le> r \<and> r \<le> hi \<and>
      (\<forall>i. lo + 1 \<le> i \<and> i \<le> r \<longrightarrow> key (ys ! nat i) \<le> ?p) \<and>
      (\<forall>i. r < i \<and> i \<le> hi \<longrightarrow> ?p \<le> key (ys ! nat i))"
    by (rule part_loop_correct) (use assms in auto)
  then obtain ys r where pl: "part_loop key mjs ?p (lo + 1) hi = Some (ys, r)"
    and rp: "range_perm (lo + 1) hi mjs ys" and r: "lo \<le> r" "r \<le> hi"
    and le: "\<forall>i. lo + 1 \<le> i \<and> i \<le> r \<longrightarrow> key (ys ! nat i) \<le> ?p"
    and ge: "\<forall>i. r < i \<and> i \<le> hi \<longrightarrow> ?p \<le> key (ys ! nat i)"
    by auto
  define zs where "zs = ys[nat lo := ys ! nat r, nat r := ys ! nat lo]"
  note len = range_permD(1) [OF rp]
  have piv: "ys ! nat lo = mjs ! nat lo" using range_permD(3) [OF rp] assms(1) by simp
  have sw: "swap_at ys lo r = Some zs" using assms r len by (simp add: swap_at_eq zs_def)
  have "range_perm lo hi ys zs"
    unfolding zs_def using assms r len by (intro range_perm_swap) auto
  then have perm: "range_perm lo hi mjs zs"
    using range_perm_trans range_perm_mono [OF rp, of lo hi] by force
  have zr: "zs ! nat r = mjs ! nat lo"
    using assms r len piv by (auto simp: zs_def nth_list_update)
  have "\<forall>i. lo \<le> i \<and> i \<le> r - 1 \<longrightarrow> key (zs ! nat i) \<le> key (zs ! nat r)"
  proof (intro allI impI)
    fix i assume i: "lo \<le> i \<and> i \<le> r - 1"
    have "zs ! nat i = (if i = lo then ys ! nat r else ys ! nat i)"
      using i assms r len by (auto simp: zs_def nth_list_update)
    then show "key (zs ! nat i) \<le> key (zs ! nat r)" using i le zr by auto
  qed
  moreover have "\<forall>i. r + 1 \<le> i \<and> i \<le> hi \<longrightarrow> key (zs ! nat r) \<le> key (zs ! nat i)"
    using assms r ge zr by (auto simp: zs_def nth_list_update)
  ultimately show thesis using that pl sw r perm by blast
qed

lemma quick_sort_correct:
  "0 \<le> lo \<Longrightarrow> hi < int (length mjs) \<Longrightarrow>
     \<exists>ys. quick_sort key mjs lo hi = Some ys \<and> range_perm lo hi mjs ys \<and>
          sorted_range key lo hi ys"
proof (induction key mjs lo hi rule: quick_sort.induct)
  case (1 key mjs lo hi)
  note unf = quick_sort.simps [of key mjs lo hi]
  show ?case
  proof (cases "lo \<ge> hi")
    case True
    then show ?thesis by (simp add: unf sorted_range_trivial)
  next
    case False
    then have lt: "lo < hi" by simp
    from partition_step [OF "1.prems"(1) lt "1.prems"(2)] obtain ys r zs
      where pl: "part_loop key mjs (key (mjs ! nat lo)) (lo + 1) hi = Some (ys, r)"
      and sw: "swap_at ys lo r = Some zs" and r: "lo \<le> r" "r \<le> hi"
      and rp: "range_perm lo hi mjs zs"
      and le: "\<forall>i. lo \<le> i \<and> i \<le> r - 1 \<longrightarrow> key (zs ! nat i) \<le> key (zs ! nat r)"
      and ge: "\<forall>i. r + 1 \<le> i \<and> i \<le> hi \<longrightarrow> key (zs ! nat r) \<le> key (zs ! nat i)" .
    have p: "at mjs lo = Some (mjs ! nat lo)" using "1.prems" False by simp
    note len = range_permD(1) [OF rp]
    have "r - 1 < int (length zs)" using r len "1.prems"(2) by simp
    with "1.IH"(1) [OF False p pl refl sw "1.prems"(1)] obtain us
      where us: "quick_sort key zs lo (r - 1) = Some us"
      and rp1: "range_perm lo (r - 1) zs us" and s1: "sorted_range key lo (r - 1) us" by blast
    note len1 = range_permD(1) [OF rp1]
    have "0 \<le> r + 1" "hi < int (length us)" using r len len1 "1.prems" by simp_all
    with "1.IH"(2) [OF False p pl refl sw us] obtain vs
      where vs: "quick_sort key us (r + 1) hi = Some vs"
      and rp2: "range_perm (r + 1) hi us vs" and s2: "sorted_range key (r + 1) hi vs" by blast
    have from_us: "vs ! nat i = us ! nat i" if "i \<le> r" "0 \<le> i" for i
      using that range_permD(3) [OF rp2] by simp
    have from_zs: "us ! nat i = zs ! nat i" if "r \<le> i" "0 \<le> i" for i
      using that range_permD(4) [OF rp1] by simp
    have "range_perm lo hi mjs vs"
      using rp range_perm_mono [OF rp1, of lo hi] range_perm_mono [OF rp2, of lo hi] r
      by (auto intro: range_perm_trans)
    moreover have "sorted_range key lo hi vs"
    proof (rule sorted_range_join [where m = r])
      show "sorted_range key lo (r - 1) vs"
        using s1 from_us "1.prems"(1) by (auto intro: sorted_range_cong)
      show "sorted_range key (r + 1) hi vs" by (rule s2)
      have vr: "vs ! nat r = zs ! nat r" using from_us from_zs r "1.prems"(1) by simp
      have "\<forall>i. lo \<le> i \<and> i \<le> r - 1 \<longrightarrow> key (us ! nat i) \<le> key (zs ! nat r)"
        by (rule range_perm_all [OF rp1]) (use "1.prems" r len le in auto)
      then show "\<forall>i. lo \<le> i \<and> i \<le> r - 1 \<longrightarrow> key (vs ! nat i) \<le> key (vs ! nat r)"
        using from_us vr "1.prems"(1) by simp
      have "\<forall>i. r + 1 \<le> i \<and> i \<le> hi \<longrightarrow> key (zs ! nat r) \<le> key (us ! nat i)"
        using ge from_zs r "1.prems"(1) by simp
      then show "\<forall>i. r + 1 \<le> i \<and> i \<le> hi \<longrightarrow> key (vs ! nat r) \<le> key (vs ! nat i)"
        unfolding vr
        by (intro range_perm_all [OF rp2]) (use "1.prems" r len len1 in auto)
    qed
    moreover have "quick_sort key mjs lo hi = Some vs"
      using False p pl sw us vs by (simp add: unf del: at_Some)
    ultimately show ?thesis by blast
  qed
qed

subsection \<open>The contract\<close>

text \<open>
  What the callers of a sort rely on: it does not leave the array for a range inside it, only
  rearranges the range, and leaves it ascending.
\<close>

locale range_sort =
  fixes sort :: "'a list \<Rightarrow> int \<Rightarrow> int \<Rightarrow> 'a list option"
    and key :: "'a \<Rightarrow> int"
  assumes sort_spec: "0 \<le> lo \<Longrightarrow> hi < int (length xs) \<Longrightarrow>
      \<exists>ys. sort xs lo hi = Some ys \<and> range_perm lo hi xs ys \<and> sorted_range key lo hi ys"
begin

lemma sortE:
  assumes "0 \<le> lo" and "hi < int (length xs)"
  obtains ys where "sort xs lo hi = Some ys" and "range_perm lo hi xs ys"
    and "sorted_range key lo hi ys"
  using sort_spec [OF assms] by blast

lemma sort_SomeD:
  assumes "sort xs lo hi = Some ys" and "0 \<le> lo" and "hi < int (length xs)"
  shows "range_perm lo hi xs ys" and "sorted_range key lo hi ys"
    and "length ys = length xs" and "mset ys = mset xs"
  using sort_spec [OF assms(2,3)] assms(1) range_permD(1,2) by auto

lemma sort_keeps_all:
  assumes "sort xs lo hi = Some ys" and "0 \<le> lo" and "lo \<le> hi + 1" and "hi < int (length xs)"
    and "\<forall>i. lo \<le> i \<and> i \<le> hi \<longrightarrow> P (xs ! nat i)"
  shows "\<forall>i. lo \<le> i \<and> i \<le> hi \<longrightarrow> P (ys ! nat i)"
  using range_perm_all [OF sort_SomeD(1) [OF assms(1,2,4)] assms(2-5)] .

lemma sort_whole:
  assumes "sort xs 0 (int (length xs) - 1) = Some ys"
  shows "sorted (map key ys)" and "mset ys = mset xs"
proof -
  note D = sort_SomeD [OF assms]
  show "mset ys = mset xs" using D(4) by simp
  have "key (ys ! i) \<le> key (ys ! j)" if "i \<le> j" "j < length ys" for i j
    using D(2,3) that unfolding sorted_range_def by (metis le_diff_eq nat_int of_nat_0_le_iff
        of_nat_mono zle_diff1_eq of_nat_less_iff zero_less_one order_refl int_nat_eq)
  then show "sorted (map key ys)" by (simp add: sorted_iff_nth_mono)
qed

end

interpretation deck_sort: range_sort decks_quick_sort deck_key
  by unfold_locales (unfold decks_quick_sort_def, rule quick_sort_correct)

interpretation wall_sort: range_sort priority_quick_sort priority
  by unfold_locales (unfold priority_quick_sort_def, rule quick_sort_correct)

subsection \<open>Properties\<close>

text \<open>
  Property C29: \<open>decks_quick_sort\<close> on a range inside the array terminates without leaving it,
  touches nothing outside the range, rearranges the tiles of the range and leaves them
  ascending by \<open>type * 10 + number\<close>.
\<close>

theorem decks_quick_sort_sorts:
  assumes "0 \<le> lo" and "hi < int (length mjs)"
  shows "\<exists>ys. decks_quick_sort mjs lo hi = Some ys \<and> length ys = length mjs \<and> mset ys = mset mjs \<and>
     (\<forall>k. int k < lo \<or> hi < int k \<longrightarrow> ys ! k = mjs ! k) \<and>
     (\<forall>i j. lo \<le> i \<and> i \<le> j \<and> j \<le> hi \<longrightarrow> deck_key (ys ! nat i) \<le> deck_key (ys ! nat j))"
  using deck_sort.sort_spec [OF assms] unfolding range_perm_def sorted_range_def by blast

definition two_tiles :: "mj list" where
  "two_tiles = [\<lparr>type = 3, number = 9, priority = 0\<rparr>, \<lparr>type = 1, number = 2, priority = 0\<rparr>]"

theorem decks_quick_sort_sorts_witness:
  "\<exists>ys. decks_quick_sort two_tiles 0 1 = Some ys \<and> deck_key (ys ! 0) \<le> deck_key (ys ! 1)"
proof -
  from decks_quick_sort_sorts [of 0 1 two_tiles] obtain ys
    where ys: "decks_quick_sort two_tiles 0 1 = Some ys"
      "\<forall>i j. 0 \<le> i \<and> i \<le> j \<and> j \<le> 1 \<longrightarrow> deck_key (ys ! nat i) \<le> deck_key (ys ! nat j)"
    by (auto simp: two_tiles_def)
  from ys(2) [rule_format, of 0 1] ys(1) show ?thesis by simp
qed

end
