(* ===== verification/HuCheck.thy ===== *)
theory HuCheck
  imports QuickSort
begin

text \<open>
  The test for a winning hand: \<open>hu_recursive_check\<close> searches a decomposition of the tile
  counts into sequences and triplets by backtracking on one shared array, and \<open>hu_check\<close>
  and \<open>is_add_hu_possible\<close> call it once for every possible pair. The array \<open>count\<close> is the
  function from its 34 indices; \<open>count_tiles\<close> checks each index it increments.

  The specification is \<open>melds_in\<close>: a list of melds whose tiles are in the counts. The lemmas
  show that the search restores the array when it fails, and that it finds a decomposition
  exactly when there is one.
\<close>

type_synonym counts = "nat \<Rightarrow> int"

definition can_seq :: "counts \<Rightarrow> nat \<Rightarrow> bool" where
  "can_seq cnt i =
     (i < 27 \<and> cnt i \<ge> 1 \<and>
      i + 1 < 27 \<and> cnt (i + 1) \<ge> 1 \<and>
      i + 2 < 27 \<and> cnt (i + 2) \<ge> 1 \<and>
      i div 9 = (i + 1) div 9 \<and> i div 9 = (i + 2) div 9)"

definition add_seq :: "int \<Rightarrow> counts \<Rightarrow> nat \<Rightarrow> counts" where
  "add_seq d cnt i =
     (let c1 = cnt(i := cnt i + d);
          c2 = c1(i + 1 := c1 (i + 1) + d)
      in c2(i + 2 := c2 (i + 2) + d))"

definition add_at :: "int \<Rightarrow> counts \<Rightarrow> nat \<Rightarrow> counts" where
  "add_at d cnt i = cnt(i := cnt i + d)"

text \<open>The body of the loop is \<open>hu_from\<close>, from index \<open>i\<close> on; both return the array too.\<close>

function hu_recursive_check :: "counts \<Rightarrow> int \<Rightarrow> int \<times> counts"
  and hu_from :: "nat \<Rightarrow> counts \<Rightarrow> int \<Rightarrow> int \<times> counts" where
  "hu_recursive_check cnt n = (if n = 0 then (1, cnt) else hu_from 0 cnt n)"
| "hu_from i cnt n =
     (if i < 34 then
        let (r1, c1) =
          (if can_seq cnt i then
             (case hu_recursive_check (add_seq (-1) cnt i) (n - 3) of (r, c) \<Rightarrow>
                if r = 1 then (1 :: int, c) else (0, add_seq 1 c i))
           else (0, cnt))
        in
        if r1 = 1 then (1, c1)
        else
          let (r2, c2) =
            (if c1 i \<ge> 3 then
               (case hu_recursive_check (add_at (-3) c1 i) (n - 3) of (r, c) \<Rightarrow>
                  if r = 1 then (1 :: int, c) else (0, add_at 3 c i))
             else (0, c1))
          in
          if r2 = 1 then (1, c2) else hu_from (i + 1) c2 n
      else (0, cnt))"
  by pat_completeness auto

lemma add_seq_undo [simp]: "add_seq 1 (add_seq (-1) c i) i = c"
  by (auto simp: add_seq_def)

lemma add_at_undo [simp]: "add_at 3 (add_at (-3) c i) i = c"
  by (auto simp: add_at_def)

text \<open>The two attempts at one index: each finds a decomposition or restores the array.\<close>

abbreviation seq_attempt :: "nat \<Rightarrow> counts \<Rightarrow> int \<Rightarrow> int \<times> counts" where
  "seq_attempt i cnt n \<equiv>
     (if can_seq cnt i then
        (case hu_recursive_check (add_seq (-1) cnt i) (n - 3) of (r, c) \<Rightarrow>
           if r = 1 then (1, c) else (0, add_seq 1 c i))
      else (0, cnt))"

abbreviation trip_attempt :: "nat \<Rightarrow> counts \<Rightarrow> int \<Rightarrow> int \<times> counts" where
  "trip_attempt i cnt n \<equiv>
     (if cnt i \<ge> 3 then
        (case hu_recursive_check (add_at (-3) cnt i) (n - 3) of (r, c) \<Rightarrow>
           if r = 1 then (1, c) else (0, add_at 3 c i))
      else (0, cnt))"

lemma hu_restores_dom:
  "hu_recursive_check_hu_from_dom (Inl (cnt, n)) \<Longrightarrow>
     fst (hu_recursive_check cnt n) = 1 \<or> hu_recursive_check cnt n = (0, cnt)"
  "hu_recursive_check_hu_from_dom (Inr (i, cnt, n)) \<Longrightarrow>
     fst (hu_from i cnt n) = 1 \<or> hu_from i cnt n = (0, cnt)"
proof (induction cnt n and i cnt n rule: hu_recursive_check_hu_from.pinduct)
  case (1 cnt n)
  then show ?case by (simp add: hu_recursive_check.psimps)
next
  case (2 i cnt n)
  define x where "x = seq_attempt i cnt n"
  define y where "y = trip_attempt i cnt n"
  have x: "i < 34 \<Longrightarrow> fst x = 1 \<or> x = (0, cnt)"
    using 2(2) unfolding x_def by (auto split: prod.splits)
  have y: "i < 34 \<Longrightarrow> x = (0, cnt) \<Longrightarrow> fst y = 1 \<or> y = (0, cnt)"
    using 2(3) [of x 0 cnt] unfolding x_def y_def by (auto split: prod.splits)
  have z: "i < 34 \<Longrightarrow> x = (0, cnt) \<Longrightarrow> y = (0, cnt) \<Longrightarrow>
      fst (hu_from (i + 1) cnt n) = 1 \<or> hu_from (i + 1) cnt n = (0, cnt)"
    using 2(4) [of x 0 cnt y 0 cnt] unfolding x_def y_def by simp
  note unf = hu_from.psimps [OF 2(1), folded x_def]
  consider "\<not> i < 34" | "i < 34" "fst x = 1" | "i < 34" "x = (0, cnt)" using x by blast
  then show ?case
  proof cases
    case 3
    then have "hu_from i cnt n = (let (r2, c2) = y in if r2 = 1 then (1, c2) else hu_from (i + 1) c2 n)"
      by (simp add: unf y_def)
    with y z 3 show ?thesis by (cases y) auto
  qed (cases x, simp add: unf)+
qed

definition tiles_left :: "counts \<Rightarrow> nat" where
  "tiles_left cnt = (\<Sum>i<34. nat (cnt i))"

lemma tiles_left_less:
  assumes "i < 34" and "nat (d i) < nat (c i)" and "\<And>k. nat (d k) \<le> nat (c k)"
  shows "tiles_left d < tiles_left c"
  unfolding tiles_left_def by (rule sum_strict_mono_ex1) (use assms in auto)

lemma tiles_left_seq: "can_seq c i \<Longrightarrow> tiles_left (add_seq (-1) c i) < tiles_left c"
  by (rule tiles_left_less [of i]) (auto simp: can_seq_def add_seq_def)

lemma tiles_left_trip: "i < 34 \<Longrightarrow> 3 \<le> c i \<Longrightarrow> tiles_left (add_at (-3) c i) < tiles_left c"
  by (rule tiles_left_less [of i]) (auto simp: add_at_def)

lemma hu_total: "All hu_recursive_check_hu_from_dom"
proof (rule "hu_recursive_check_hu_from.termination" [where R =
      "measures [case_sum (\<lambda>(cnt, n). tiles_left cnt) (\<lambda>(i, cnt, n). tiles_left cnt),
         case_sum (\<lambda>_. 35) (\<lambda>(i, cnt, n). 34 - i)]"], goal_cases)
  case (3 i cnt n)
  then show ?case by (simp add: tiles_left_seq)
next
  case (4 i cnt n x r1 c1)
  then have "c1 = cnt"
    by (auto split: prod.splits if_splits dest: hu_restores_dom(1))
  then show ?case using 4 tiles_left_trip [of i cnt] by simp
next
  case (5 i cnt n x r1 c1 y r2 c2)
  then have "c1 = cnt"
    by (auto split: prod.splits if_splits dest: hu_restores_dom(1))
  with 5 have "c2 = cnt"
    by (auto split: prod.splits if_splits dest: hu_restores_dom(1))
  with 5 show ?case by simp
qed auto

termination hu_recursive_check
  by (rule hu_total)

declare hu_recursive_check.simps [simp del] hu_from.simps [simp del]

lemma hu_restores:
  "fst (hu_recursive_check cnt n) = 1 \<or> hu_recursive_check cnt n = (0, cnt)"
  "fst (hu_from i cnt n) = 1 \<or> hu_from i cnt n = (0, cnt)"
  using hu_restores_dom hu_total by blast+

text \<open>So the search is a disjunction over the indices, on the same counts.\<close>

definition finds :: "counts \<Rightarrow> int \<Rightarrow> bool" where
  "finds cnt n \<longleftrightarrow> fst (hu_recursive_check cnt n) = 1"

definition tries :: "counts \<Rightarrow> int \<Rightarrow> nat \<Rightarrow> bool" where
  "tries cnt n i \<longleftrightarrow>
     (can_seq cnt i \<and> finds (add_seq (-1) cnt i) (n - 3)) \<or>
     (3 \<le> cnt i \<and> finds (add_at (-3) cnt i) (n - 3))"

lemma hu_recursive_check_no: "\<not> finds cnt n \<Longrightarrow> hu_recursive_check cnt n = (0, cnt)"
  using hu_restores(1) finds_def by auto

lemma hu_from_unfold:
  "fst (hu_from i cnt n) = 1 \<longleftrightarrow> i < 34 \<and> (tries cnt n i \<or> fst (hu_from (i + 1) cnt n) = 1)"
proof -
  have s: "fst (seq_attempt i cnt n) = 1 \<longleftrightarrow> can_seq cnt i \<and> finds (add_seq (-1) cnt i) (n - 3)"
    "fst (seq_attempt i cnt n) \<noteq> 1 \<Longrightarrow> seq_attempt i cnt n = (0, cnt)"
    using hu_recursive_check_no [of "add_seq (-1) cnt i" "n - 3"]
    by (auto simp: finds_def split: prod.splits)
  have t: "fst (trip_attempt i cnt n) = 1 \<longleftrightarrow> 3 \<le> cnt i \<and> finds (add_at (-3) cnt i) (n - 3)"
    "fst (trip_attempt i cnt n) \<noteq> 1 \<Longrightarrow> trip_attempt i cnt n = (0, cnt)"
    using hu_recursive_check_no [of "add_at (-3) cnt i" "n - 3"]
    by (auto simp: finds_def split: prod.splits)
  define x where "x = seq_attempt i cnt n"
  define y where "y = trip_attempt i cnt n"
  note unf = hu_from.simps [of i cnt n, folded x_def]
  consider "\<not> i < 34" | "i < 34" "fst x = 1" | "i < 34" "x = (0, cnt)"
    using s(2) x_def by blast
  then show ?thesis
  proof cases
    case 1
    then show ?thesis by (simp add: unf)
  next
    case 2
    then have "fst (hu_from i cnt n) = 1" by (cases x) (simp add: unf)
    moreover have "tries cnt n i" using 2(2) s(1) unfolding x_def tries_def by blast
    ultimately show ?thesis using 2 by blast
  next
    case 3
    then have e: "hu_from i cnt n = (let (r2, c2) = y in if r2 = 1 then (1, c2) else hu_from (i + 1) c2 n)"
      by (simp add: unf y_def)
    have "\<not> (can_seq cnt i \<and> finds (add_seq (-1) cnt i) (n - 3))"
      using 3(2) s(1) unfolding x_def by auto
    then have tr: "tries cnt n i \<longleftrightarrow> fst y = 1" unfolding tries_def y_def t(1) by blast
    show ?thesis
    proof (cases "fst y = 1")
      case True
      then show ?thesis using e tr 3(1) by (cases y) auto
    next
      case False
      then have "y = (0, cnt)" using t(2) unfolding y_def by blast
      then show ?thesis using e tr 3(1) by simp
    qed
  qed
qed

lemma hu_from_iff: "fst (hu_from i cnt n) = 1 \<longleftrightarrow> (\<exists>k. i \<le> k \<and> k < 34 \<and> tries cnt n k)"
proof (induction "34 - i" arbitrary: i)
  case 0
  then show ?case by (subst hu_from_unfold) auto
next
  case (Suc d)
  then have "fst (hu_from (i + 1) cnt n) = 1 \<longleftrightarrow> (\<exists>k. i + 1 \<le> k \<and> k < 34 \<and> tries cnt n k)" by simp
  moreover have "i \<le> k \<longleftrightarrow> k = i \<or> i + 1 \<le> k" for k by auto
  then have "(\<exists>k. i \<le> k \<and> k < 34 \<and> tries cnt n k) \<longleftrightarrow>
      i < 34 \<and> (tries cnt n i \<or> (\<exists>k. i + 1 \<le> k \<and> k < 34 \<and> tries cnt n k))"
    using Suc.hyps(2) by auto
  ultimately show ?case by (subst hu_from_unfold) simp
qed

lemma finds_iff: "finds cnt n \<longleftrightarrow> n = 0 \<or> (\<exists>i < 34. tries cnt n i)"
  unfolding finds_def
  by (subst hu_recursive_check.simps) (simp add: hu_from_iff)

subsection \<open>The specification: melds\<close>

datatype meld = Seq nat | Trip nat

fun meld_ok :: "meld \<Rightarrow> bool" where
  "meld_ok (Seq i) \<longleftrightarrow> i < 27 \<and> i mod 9 \<le> 6"
| "meld_ok (Trip i) \<longleftrightarrow> i < 34"

text \<open>How many tiles of each kind a meld uses.\<close>

fun uses :: "meld \<Rightarrow> nat \<Rightarrow> int" where
  "uses (Seq i) k = (if i \<le> k \<and> k \<le> i + 2 then 1 else 0)"
| "uses (Trip i) k = (if k = i then 3 else 0)"

definition uses_all :: "meld list \<Rightarrow> nat \<Rightarrow> int" where
  "uses_all ms k = sum_list (map (\<lambda>m. uses m k) ms)"

definition melds_in :: "meld list \<Rightarrow> counts \<Rightarrow> bool" where
  "melds_in ms cnt \<longleftrightarrow> (\<forall>m \<in> set ms. meld_ok m) \<and> (\<forall>k < 34. uses_all ms k \<le> cnt k)"

lemma uses_all_simps [simp]: "uses_all [] k = 0" "uses_all (m # ms) k = uses m k + uses_all ms k"
  by (simp_all add: uses_all_def)

lemma uses_nonneg [simp]: "0 \<le> uses m k"
  by (cases m) auto

lemma uses_all_nonneg [simp]: "0 \<le> uses_all ms k"
  by (induction ms) auto

lemma seq_index_all: "\<forall>i < 27 :: nat. i mod 9 \<le> 6 \<longleftrightarrow>
    i + 1 < 27 \<and> i + 2 < 27 \<and> i div 9 = (i + 1) div 9 \<and> i div 9 = (i + 2) div 9"
  by code_simp

lemma seq_index: "i < 27 \<and> i mod 9 \<le> 6 \<longleftrightarrow>
    i < 27 \<and> i + 1 < 27 \<and> i + 2 < 27 \<and> i div 9 = (i + 1) div 9 \<and> i div 9 = (i + 2) div 9"
  for i :: nat
  using seq_index_all by blast

lemma can_seq_iff: "can_seq cnt i \<longleftrightarrow> meld_ok (Seq i) \<and> (\<forall>k. uses (Seq i) k = 1 \<longrightarrow> 1 \<le> cnt k)"
proof -
  have "(\<forall>k. uses (Seq i) k = 1 \<longrightarrow> 1 \<le> cnt k) \<longleftrightarrow> 1 \<le> cnt i \<and> 1 \<le> cnt (i + 1) \<and> 1 \<le> cnt (i + 2)"
    by (auto simp: le_Suc_eq numeral_2_eq_2 dest: le_antisym)
  then show ?thesis unfolding meld_ok.simps seq_index can_seq_def by blast
qed

lemma add_seq_uses: "add_seq (-1) cnt i k = cnt k - uses (Seq i) k"
  by (auto simp: add_seq_def)

lemma add_at_uses: "add_at (-3) cnt i k = cnt k - uses (Trip i) k"
  by (auto simp: add_at_def)

lemma uses_all_append [simp]: "uses_all (ms @ ns) k = uses_all ms k + uses_all ns k"
  by (simp add: uses_all_def)

text \<open>A list of melds can be consumed in any order, so the search may start with any meld.\<close>

lemma melds_in_Cons_seq:
  "melds_in (Seq i # ms) cnt \<longleftrightarrow> can_seq cnt i \<and> melds_in ms (add_seq (-1) cnt i)"
proof
  assume L: "melds_in (Seq i # ms) cnt"
  then have ok: "meld_ok (Seq i)" by (simp add: melds_in_def)
  have "1 \<le> cnt k" if "uses (Seq i) k = 1" for k
  proof -
    have "k < 34" using that ok by (auto split: if_splits)
    then have "uses (Seq i) k + uses_all ms k \<le> cnt k" using L by (simp add: melds_in_def)
    then show ?thesis using that uses_all_nonneg [of ms k] by linarith
  qed
  with ok L show "can_seq cnt i \<and> melds_in ms (add_seq (-1) cnt i)"
    by (simp add: can_seq_iff melds_in_def add_seq_uses algebra_simps)
next
  assume "can_seq cnt i \<and> melds_in ms (add_seq (-1) cnt i)"
  then show "melds_in (Seq i # ms) cnt"
    unfolding can_seq_iff melds_in_def add_seq_uses by (auto simp: algebra_simps simp del: uses.simps)
qed

lemma melds_in_Cons_trip:
  "melds_in (Trip i # ms) cnt \<longleftrightarrow> i < 34 \<and> 3 \<le> cnt i \<and> melds_in ms (add_at (-3) cnt i)"
proof
  assume L: "melds_in (Trip i # ms) cnt"
  then have "i < 34" by (simp add: melds_in_def)
  moreover from L this have "uses (Trip i) i + uses_all ms i \<le> cnt i"
    by (metis melds_in_def uses_all_simps(2))
  then have "3 \<le> cnt i" using uses_all_nonneg [of ms i] by (simp del: uses_all_nonneg)
  ultimately show "i < 34 \<and> 3 \<le> cnt i \<and> melds_in ms (add_at (-3) cnt i)"
    using L by (auto simp: melds_in_def add_at_uses algebra_simps simp del: uses.simps)
next
  assume "i < 34 \<and> 3 \<le> cnt i \<and> melds_in ms (add_at (-3) cnt i)"
  then show "melds_in (Trip i # ms) cnt"
    unfolding melds_in_def add_at_uses by (auto simp: algebra_simps simp del: uses.simps)
qed

lemma finds_complete: "melds_in ms cnt \<Longrightarrow> finds cnt (int (3 * length ms))"
proof (induction ms arbitrary: cnt)
  case Nil
  then show ?case by (simp add: finds_iff)
next
  case (Cons m ms)
  have n: "int (3 * length (m # ms)) - 3 = int (3 * length ms)" by simp
  show ?case
  proof (cases m)
    case (Seq i)
    with Cons have "can_seq cnt i" "finds (add_seq (-1) cnt i) (int (3 * length ms))"
      by (simp_all add: melds_in_Cons_seq)
    then have "i < 34" "tries cnt (int (3 * length (m # ms))) i"
      unfolding tries_def n by (auto simp: can_seq_def)
    then show ?thesis unfolding finds_iff by blast
  next
    case (Trip i)
    with Cons have "i < 34" "3 \<le> cnt i" "finds (add_at (-3) cnt i) (int (3 * length ms))"
      by (simp_all add: melds_in_Cons_trip)
    then have "tries cnt (int (3 * length (m # ms))) i" unfolding tries_def n by blast
    with \<open>i < 34\<close> show ?thesis unfolding finds_iff by blast
  qed
qed

lemma finds_sound: "finds cnt n \<Longrightarrow> \<exists>ms. melds_in ms cnt \<and> int (3 * length ms) = n"
  if "\<forall>k < 34. 0 \<le> cnt k"
  using that
proof (induction "tiles_left cnt" arbitrary: cnt n rule: less_induct)
  case less
  from less.prems(1) consider "n = 0" | i where "i < 34" "tries cnt n i" by (auto simp: finds_iff)
  then show ?case
  proof cases
    case 1
    with less.prems show ?thesis by (intro exI [of _ "[]"]) (simp add: melds_in_def)
  next
    case 2
    from 2(2) consider (s) "can_seq cnt i" "finds (add_seq (-1) cnt i) (n - 3)"
      | (t) "3 \<le> cnt i" "finds (add_at (-3) cnt i) (n - 3)" by (auto simp: tries_def)
    then show ?thesis
    proof cases
      case s
      then have "\<forall>k < 34. 0 \<le> add_seq (-1) cnt i k"
        using less.prems(2) unfolding can_seq_iff add_seq_uses by auto
      with less.hyps [OF tiles_left_seq [OF s(1)] s(2)] obtain ms
        where "melds_in ms (add_seq (-1) cnt i)" "int (3 * length ms) = n - 3" by blast
      with s(1) show ?thesis by (intro exI [of _ "Seq i # ms"]) (simp add: melds_in_Cons_seq)
    next
      case t
      then have "\<forall>k < 34. 0 \<le> add_at (-3) cnt i k"
        using less.prems(2) unfolding add_at_def by auto
      with less.hyps [OF tiles_left_trip [of i cnt, OF 2(1) t(1)] t(2)] obtain ms
        where "melds_in ms (add_at (-3) cnt i)" "int (3 * length ms) = n - 3" by blast
      with 2(1) t(1) show ?thesis
        by (intro exI [of _ "Trip i # ms"]) (simp add: melds_in_Cons_trip)
    qed
  qed
qed

text \<open>The search answers 1 exactly when the counts contain \<open>n / 3\<close> disjoint melds.\<close>

lemma hu_recursive_check_iff:
  assumes "\<forall>k < 34. 0 \<le> cnt k"
  shows "fst (hu_recursive_check cnt n) = 1 \<longleftrightarrow> (\<exists>ms. melds_in ms cnt \<and> int (3 * length ms) = n)"
  using finds_complete finds_sound [OF assms] unfolding finds_def by blast

subsection \<open>Counting a hand\<close>

fun count_loop :: "mj list \<Rightarrow> int list \<Rightarrow> counts \<Rightarrow> counts option" where
  "count_loop deck [] cnt = Some cnt"
| "count_loop deck (j # js) cnt = do {
     m \<leftarrow> at deck j;
     if 0 \<le> mj_index m \<and> mj_index m < 34
     then count_loop deck js (add_at 1 cnt (nat (mj_index m)))
     else None
   }"

text \<open>A read of \<open>count[k]\<close>.\<close>

definition count_get :: "counts \<Rightarrow> int \<Rightarrow> int option" where
  "count_get cnt k = (if 0 \<le> k \<and> k < 34 then Some (cnt (nat k)) else None)"

definition count_tiles :: "mj list \<Rightarrow> int \<Rightarrow> counts option" where
  "count_tiles deck nc = count_loop deck [0..nc - 1] (\<lambda>_. 0)"

definition tile_counts :: "mj list \<Rightarrow> counts" where
  "tile_counts ms k = int (length (filter (\<lambda>m. nat (mj_index m) = k) ms))"

lemma tile_counts_Nil [simp]: "tile_counts [] = (\<lambda>_. 0)"
  by (rule ext) (simp add: tile_counts_def)

lemma tile_counts_snoc: "tile_counts (ms @ [m]) = add_at 1 (tile_counts ms) (nat (mj_index m))"
  by (rule ext) (simp add: tile_counts_def add_at_def)

lemma tile_counts_nonneg [simp]: "0 \<le> tile_counts ms k"
  by (simp add: tile_counts_def)

lemma tile_counts_mset: "mset ms = mset ns \<Longrightarrow> tile_counts ms = tile_counts ns"
  by (rule ext) (metis mset_filter size_mset tile_counts_def)

lemma tile_counts_sum:
  assumes "\<forall>m \<in> set ms. playable m"
  shows "(\<Sum>k<34. tile_counts ms k) = int (length ms)"
  using assms
proof (induction ms rule: rev_induct)
  case (snoc m ms)
  then have i: "nat (mj_index m) < 34" using mj_index_range [of m] by auto
  have "(\<Sum>k<34. tile_counts (ms @ [m]) k) =
      (\<Sum>k<34. tile_counts ms k + (if k = nat (mj_index m) then 1 else 0))"
    unfolding tile_counts_snoc by (rule sum.cong) (auto simp: add_at_def)
  also have "\<dots> = int (length ms) + 1" using i snoc by (simp add: sum.distrib)
  finally show ?case by simp
qed simp

lemma count_loop_append:
  "count_loop deck (js @ ks) cnt = Option.bind (count_loop deck js cnt) (count_loop deck ks)"
proof (induction js arbitrary: cnt)
  case (Cons j js)
  then show ?case by (cases "at deck j") (simp_all del: at_Some at_None)
qed simp

lemma count_tiles_eq:
  assumes "nc \<le> length deck" and "\<forall>m \<in> set (take nc deck). playable m"
  shows "count_tiles deck (int nc) = Some (tile_counts (take nc deck))"
  using assms
proof (induction nc)
  case 0
  then show ?case by (simp add: count_tiles_def)
next
  case (Suc nc)
  then have tk: "take (Suc nc) deck = take nc deck @ [deck ! nc]" by (simp add: take_Suc_conv_app_nth)
  have up: "[0..int (Suc nc) - 1] = [0..int nc - 1] @ [int nc]" by (simp add: upto_rec2)
  have pl: "playable (deck ! nc)" using Suc.prems tk by simp
  have IH: "count_loop deck [0..int nc - 1] (\<lambda>_. 0) = Some (tile_counts (take nc deck))"
    using Suc tk by (simp add: count_tiles_def)
  show ?case
    using Suc.prems pl mj_index_range [OF pl]
    unfolding count_tiles_def up count_loop_append IH tk tile_counts_snoc
    by (simp add: at_eq)
qed

subsection \<open>The two callers\<close>

text \<open>
  The loop over the pairs, common to \<open>hu_check\<close> and \<open>is_add_hu_possible\<close>; the argument is the
  list of indices still to try.
\<close>

fun pair_loop :: "nat list \<Rightarrow> counts \<Rightarrow> int \<Rightarrow> int" where
  "pair_loop [] cnt n = 0"
| "pair_loop (i # is) cnt n =
     (if cnt i \<ge> 2 then
        (case hu_recursive_check (add_at (-2) cnt i) n of (r, c) \<Rightarrow>
           if r = 1 then 1 else pair_loop is (add_at 2 c i) n)
      else pair_loop is cnt n)"

text \<open>The insertion of the drawn tile into the sorted copy of the hand.\<close>

function insert_loop :: "mj list \<Rightarrow> mj \<Rightarrow> int \<Rightarrow> (mj list \<times> int) option" where
  "insert_loop carbon gotten i = do {
     m \<leftarrow> at carbon i;
     if mj_compare m gotten = -1 then do {
       c \<leftarrow> set_at carbon (i + 1) m;
       if i - 1 = -1 then Some (c, i - 1) else insert_loop c gotten (i - 1)
     }
     else Some (carbon, i)
   }"
  by pat_completeness auto
termination
  by (relation "measure (\<lambda>(carbon, gotten, i). nat i)") auto

declare insert_loop.simps [simp del]

definition hu_check :: "mj list \<Rightarrow> int \<Rightarrow> int option" where
  "hu_check decks nc =
     (if 0 \<le> nc + 1 \<and> nc + 1 \<le> 17 \<and> nc + 1 \<le> int (length decks) then do {
        let carbon = take (nat (nc + 1)) decks @ replicate (17 - nat (nc + 1)) null_mj;
        mj_gotten \<leftarrow> at carbon nc;
        (c1, i) \<leftarrow> insert_loop carbon mj_gotten (nc - 1);
        c2 \<leftarrow> set_at c1 (i + 1) mj_gotten;
        cnt \<leftarrow> count_tiles c2 (nc + 1);
        Some (pair_loop [0..<34] cnt (nc - 1))
      }
      else None)"

definition is_add_hu_possible :: "mj list \<Rightarrow> int \<Rightarrow> mj \<Rightarrow> int option" where
  "is_add_hu_possible deck nc discarded = do {
     cnt \<leftarrow> count_tiles deck nc;
     if 0 \<le> mj_index discarded \<and> mj_index discarded < 34
     then Some (pair_loop [0..<34] (add_at 1 cnt (nat (mj_index discarded))) (nc - 1))
     else None
   }"

lemma add_at_2_undo [simp]: "add_at 2 (add_at (-2) c i) i = c"
  by (auto simp: add_at_def)

lemma pair_loop_iff:
  "pair_loop is cnt n = (if \<exists>i \<in> set is. 2 \<le> cnt i \<and> finds (add_at (-2) cnt i) n then 1 else 0)"
proof (induction "is")
  case (Cons i "is")
  then show ?case
    using hu_recursive_check_no [of "add_at (-2) cnt i" n]
    by (auto simp: finds_def split: prod.splits)
qed simp

text \<open>
  A winning hand is a pair and melds, and nothing else. For a hand of playable tiles the pair
  loop decides it, because a decomposition of as many tiles as the hand has uses all of them.
\<close>

definition winning :: "mj list \<Rightarrow> bool" where
  "winning ts \<longleftrightarrow>
     (\<exists>e ms. e < 34 \<and> (\<forall>m \<in> set ms. meld_ok m) \<and>
        (\<forall>k < 34. tile_counts ts k = (if k = e then 2 else 0) + uses_all ms k))"

lemma uses_sum: "meld_ok m \<Longrightarrow> (\<Sum>k<34. uses m k) = 3"
proof (cases m)
  case (Seq i)
  assume "meld_ok m"
  with Seq have "{..<34} \<inter> {k. i \<le> k \<and> k \<le> i + 2} = {i, i + 1, i + 2}" by (auto simp: seq_index)
  then show ?thesis using Seq by (simp add: sum.If_cases)
qed simp

lemma uses_all_sum: "\<forall>m \<in> set ms. meld_ok m \<Longrightarrow> (\<Sum>k<34. uses_all ms k) = 3 * int (length ms)"
  by (induction ms) (simp_all add: sum.distrib uses_sum)

lemma sum_eq_pointwise:
  fixes f g :: "nat \<Rightarrow> int"
  assumes "\<forall>k < n. f k \<le> g k" and "(\<Sum>k<n. f k) = (\<Sum>k<n. g k)" and "k < n"
  shows "f k = g k"
proof (rule ccontr)
  assume "f k \<noteq> g k"
  then have "(\<Sum>k<n. f k) < (\<Sum>k<n. g k)"
    using assms by (intro sum_strict_mono_ex1) (auto intro!: bexI [of _ k] simp: order_less_le)
  with assms(2) show False by simp
qed

lemma pair_loop_winning:
  assumes "\<forall>m \<in> set ts. playable m"
  shows "pair_loop [0..<34] (tile_counts ts) (int (length ts) - 2) = (if winning ts then 1 else 0)"
proof -
  let ?c = "tile_counts ts"
  have "(\<exists>e \<in> set [0..<34]. 2 \<le> ?c e \<and> finds (add_at (-2) ?c e) (int (length ts) - 2)) \<longleftrightarrow> winning ts"
  proof
    assume "\<exists>e \<in> set [0..<34]. 2 \<le> ?c e \<and> finds (add_at (-2) ?c e) (int (length ts) - 2)"
    then obtain e where e: "e < 34" "2 \<le> ?c e" "finds (add_at (-2) ?c e) (int (length ts) - 2)" by auto
    have "\<forall>k < 34. 0 \<le> add_at (-2) ?c e k" using e(2) by (auto simp: add_at_def)
    from finds_sound [OF this e(3)] obtain ms where ms: "melds_in ms (add_at (-2) ?c e)"
      "int (3 * length ms) = int (length ts) - 2" by blast
    let ?f = "\<lambda>k. (if k = e then 2 else 0) + uses_all ms k"
    have ok: "\<forall>m \<in> set ms. meld_ok m" and le: "\<forall>k < 34. ?f k \<le> ?c k"
      using ms(1) e(1) by (auto simp: melds_in_def add_at_def algebra_simps split: if_splits)
    have "(\<Sum>k<34. ?f k) = (\<Sum>k<34. ?c k)"
      using e(1) ms(2) by (simp add: sum.distrib uses_all_sum [OF ok] tile_counts_sum [OF assms])
    from sum_eq_pointwise [OF le this] ok e(1) show "winning ts"
      unfolding winning_def by metis
  next
    assume "winning ts"
    then obtain e ms where w: "e < 34" "\<forall>m \<in> set ms. meld_ok m"
      "\<forall>k < 34. ?c k = (if k = e then 2 else 0) + uses_all ms k" by (auto simp: winning_def)
    have "int (length ts) = (\<Sum>k<34. (if k = e then 2 else 0) + uses_all ms k)"
      unfolding tile_counts_sum [OF assms, symmetric] by (rule sum.cong) (use w in auto)
    then have n: "int (3 * length ms) = int (length ts) - 2"
      using w(1) by (simp add: sum.distrib uses_all_sum [OF w(2)])
    have "melds_in ms (add_at (-2) ?c e)" using w by (auto simp: melds_in_def add_at_def)
    from finds_complete [OF this] n have "finds (add_at (-2) ?c e) (int (length ts) - 2)" by simp
    moreover have "2 \<le> ?c e" using w by simp
    ultimately show "\<exists>e \<in> set [0..<34]. 2 \<le> ?c e \<and> finds (add_at (-2) ?c e) (int (length ts) - 2)"
      using w(1) by auto
  qed
  then show ?thesis unfolding pair_loop_iff by simp
qed

lemma is_add_hu_possible_eq:
  assumes "nc \<le> length deck" and "\<forall>m \<in> set (take nc deck). playable m" and "playable d"
  shows "is_add_hu_possible deck (int nc) d = Some (if winning (take nc deck @ [d]) then 1 else 0)"
proof -
  have "\<forall>m \<in> set (take nc deck @ [d]). playable m" using assms by auto
  from pair_loop_winning [OF this] assms(1)
  show ?thesis
    using mj_index_range [OF assms(3)]
    by (simp add: is_add_hu_possible_def count_tiles_eq [OF assms(1,2)] tile_counts_snoc [symmetric]
        algebra_simps)
qed

lemma insert_loop_correct:
  "0 \<le> i \<Longrightarrow> i + 1 < int (length c) \<Longrightarrow>
     \<exists>d k. insert_loop c g i = Some (d, k) \<and> -1 \<le> k \<and> k \<le> i \<and>
           range_perm 0 (i + 1) (c[nat (i + 1) := g]) (d[nat (k + 1) := g])"
proof (induction c g i rule: insert_loop.induct)
  case (1 c g i)
  note unf = insert_loop.simps [of c g i]
  show ?case
  proof (cases "mj_compare (c ! nat i) g = -1")
    case False
    then show ?thesis using "1.prems" by (simp add: unf at_eq)
  next
    case True
    define d where "d = c[nat (i + 1) := c ! nat i]"
    have sw: "d[nat i := g] = (c[nat (i + 1) := g])[nat i := c[nat (i + 1) := g] ! nat (i + 1),
        nat (i + 1) := c[nat (i + 1) := g] ! nat i]"
      using "1.prems" by (simp add: d_def list_update_swap nth_list_update)
    have rp: "range_perm 0 (i + 1) (c[nat (i + 1) := g]) (d[nat i := g])"
      unfolding sw by (rule range_perm_swap) (use "1.prems" in auto)
    have a: "at c i = Some (c ! nat i)" and st: "set_at c (i + 1) (c ! nat i) = Some d"
      using "1.prems" by (auto simp: d_def)
    show ?thesis
    proof (cases "i - 1 = -1")
      case True
      have "insert_loop c g i = Some (d, -1)"
        by (simp only: unf a st bind.bind_lunit \<open>mj_compare (c ! nat i) g = -1\<close> True if_True simp_thms)
      with True rp show ?thesis by (intro exI [of _ d] exI [of _ "-1"]) simp
    next
      case False
      then have "0 \<le> i - 1" "i - 1 + 1 < int (length d)" using "1.prems" by (auto simp: d_def)
      with "1.IH" [of "c ! nat i" d] False True "1.prems" obtain e k
        where e: "insert_loop d g (i - 1) = Some (e, k)" "-1 \<le> k" "k \<le> i - 1"
        "range_perm 0 i (d[nat i := g]) (e[nat (k + 1) := g])"
        by (auto simp: d_def)
      have "insert_loop c g i = Some (e, k)"
        using e(1) True False "1.prems" by (simp add: unf at_eq set_at_eq d_def)
      moreover have "range_perm 0 (i + 1) (c[nat (i + 1) := g]) (e[nat (k + 1) := g])"
        using rp range_perm_mono [OF e(4), of 0 "i + 1"] by (auto intro: range_perm_trans)
      ultimately show ?thesis using e by auto
    qed
  qed
qed

lemma hu_check_eq:
  assumes "1 \<le> nc" and "nc < length decks" and "nc \<le> 16"
    and "\<forall>m \<in> set (take (nc + 1) decks). playable m"
  shows "hu_check decks (int nc) = Some (if winning (take (nc + 1) decks) then 1 else 0)"
proof -
  define c where "c = take (nc + 1) decks @ replicate (17 - (nc + 1)) null_mj"
  have c: "length c = 17" "c ! nc = decks ! nc" "take (nc + 1) c = take (nc + 1) decks"
    using assms by (auto simp: c_def nth_append)
  obtain d k where d: "insert_loop c (decks ! nc) (int nc - 1) = Some (d, k)" "-1 \<le> k" "k \<le> int nc - 1"
    and rp: "range_perm 0 (int nc) (c[nat (int nc) := decks ! nc]) (d[nat (k + 1) := decks ! nc])"
    using insert_loop_correct [of "int nc - 1" c "decks ! nc"] assms c by auto
  define e where "e = d[nat (k + 1) := decks ! nc]"
  have upd: "c[nc := decks ! nc] = c" using c(2) by (metis list_update_id)
  have rp': "range_perm 0 (int nc) c e" using rp upd by (simp add: e_def)
  have len: "length e = 17" using range_permD(1) [OF rp'] c by simp
  have "mset (take (nat (int nc + 1 - 0)) (drop (nat 0) e)) = mset (take (nat (int nc + 1 - 0)) (drop (nat 0) c))"
    by (rule range_perm_slice [OF rp']) (use assms c in auto)
  then have ms: "mset (take (nc + 1) e) = mset (take (nc + 1) decks)"
    using c(3) by (simp add: nat_add_distrib)
  then have pl: "\<forall>m \<in> set (take (nc + 1) e). playable m"
    using assms(4) by (metis mset_eq_setD)
  have cnt: "count_tiles e (int nc + 1) = Some (tile_counts (take (nc + 1) decks))"
    using count_tiles_eq [of "nc + 1" e] pl len assms tile_counts_mset [OF ms]
    by (simp add: add.commute)
  have set_e: "set_at d (k + 1) (decks ! nc) = Some e"
    using d len assms(3) by (simp add: set_at_eq e_def)
  have at_c: "at c (int nc) = Some (decks ! nc)" using c assms by (simp add: at_eq)
  have g: "0 \<le> int nc + 1" "int nc + 1 \<le> 17" "int nc + 1 \<le> int (length decks)" using assms by auto
  have c_eq: "take (nat (int nc + 1)) decks @ replicate (17 - nat (int nc + 1)) null_mj = c"
    by (simp add: c_def nat_add_distrib)
  have "hu_check decks (int nc) = Some (pair_loop [0..<34] (tile_counts (take (nc + 1) decks)) (int nc - 1))"
    unfolding hu_check_def c_eq using g d(1) set_e at_c cnt by (simp del: at_Some set_at_Some)
  moreover have "int (length (take (nc + 1) decks)) - 2 = int nc - 1" using assms by simp
  ultimately show ?thesis using pair_loop_winning [OF assms(4)] by simp
qed

subsection \<open>Properties\<close>

text \<open>
  Property C30: the backtracking search over the tile counts answers 1 exactly when \<open>n / 3\<close>
  disjoint melds (sequences inside one suit, triplets) can be taken out of the counts.
\<close>

theorem hu_search_decides:
  assumes "\<forall>k < 34. 0 \<le> cnt k"
  shows "fst (hu_recursive_check cnt n) = 1 \<longleftrightarrow>
     (\<exists>ms. (\<forall>m \<in> set ms. meld_ok m) \<and> (\<forall>k < 34. uses_all ms k \<le> cnt k) \<and> int (3 * length ms) = n)"
  using hu_recursive_check_iff [OF assms] unfolding melds_in_def by blast

definition six_tiles :: counts where
  "six_tiles k = (if k \<le> 2 then 1 else if k = 30 then 3 else 0)"

theorem hu_search_decides_witness: "fst (hu_recursive_check six_tiles 6) = 1"
proof -
  have ms: "\<forall>m \<in> set [Seq 0, Trip 30]. meld_ok m" "\<forall>k < 34. uses_all [Seq 0, Trip 30] k \<le> six_tiles k"
    "int (3 * length [Seq 0, Trip 30]) = 6"
    by (simp_all add: six_tiles_def)
  have nonneg: "\<forall>k < 34. 0 \<le> six_tiles k" by (simp add: six_tiles_def)
  show ?thesis unfolding hu_search_decides [OF nonneg] using ms by blast
qed

text \<open>
  Property C31: the search works on one shared array and undoes every removal: when it does not
  answer 1 it answers 0 and the array is as the caller passed it.
\<close>

theorem hu_search_restores:
  "fst (hu_recursive_check cnt n) = 1 \<or> hu_recursive_check cnt n = (0, cnt)"
  by (rule hu_restores)

text \<open>
  Property C2: the server's test of a hand with the drawn tile, which copies the hand, inserts
  the drawn tile and searches from every pair, stays inside its arrays and answers 1 exactly
  when the tiles are a pair and melds and nothing else.
\<close>

theorem hu_check_decides:
  assumes "1 \<le> nc" and "nc < length decks" and "nc \<le> 16"
    and "\<forall>m \<in> set (take (nc + 1) decks). playable m"
  shows "hu_check decks (int nc) = Some (if winning (take (nc + 1) decks) then 1 else 0)"
  using assms by (rule hu_check_eq)

definition pair_hand :: "mj list" where
  "pair_hand = replicate 2 \<lparr>type = 4, number = 7, priority = 5\<rparr>"

theorem hu_check_decides_witness:
  "hu_check pair_hand 1 = Some 1 \<and> winning pair_hand"
proof -
  have w: "winning pair_hand"
    unfolding winning_def
    by (rule exI [of _ 33], rule exI [of _ "[]"])
      (auto simp: pair_hand_def tile_counts_def mj_index_def numeral_2_eq_2)
  moreover have "hu_check pair_hand (int 1) = Some (if winning (take (1 + 1) pair_hand) then 1 else 0)"
    by (rule hu_check_decides) (auto simp: pair_hand_def playable_def)
  moreover have "take (1 + 1) pair_hand = pair_hand" by (simp add: pair_hand_def numeral_2_eq_2)
  ultimately show ?thesis by simp
qed

text \<open>
  Property C32: the test on a discarded tile, which the server writes again without the copy
  and the insertion, agrees with the test of the hand with that tile drawn.
\<close>

theorem add_hu_is_hu_check:
  assumes "1 \<le> nc" and "nc < length decks" and "nc \<le> 16"
    and "\<forall>m \<in> set (take nc decks). playable m" and "playable d"
  shows "is_add_hu_possible decks (int nc) d = hu_check (decks[nc := d]) (int nc)"
proof -
  have tk: "take (nc + 1) (decks[nc := d]) = take nc decks @ [d]"
    using assms(2) by (simp add: take_Suc_conv_app_nth)
  have pl: "\<forall>m \<in> set (take (nc + 1) (decks[nc := d])). playable m"
    unfolding tk using assms(4,5) by simp
  have nc: "nc < length (decks[nc := d])" using assms(2) by simp
  have le: "nc \<le> length decks" using assms(2) by simp
  show ?thesis
    unfolding is_add_hu_possible_eq [OF le assms(4,5)] hu_check_eq [OF assms(1) nc assms(3) pl] tk ..
qed

theorem add_hu_is_hu_check_witness:
  "is_add_hu_possible pair_hand 1 \<lparr>type = 4, number = 7, priority = 0\<rparr> =
     hu_check (pair_hand[1 := \<lparr>type = 4, number = 7, priority = 0\<rparr>]) 1"
  using add_hu_is_hu_check [of 1 pair_hand "\<lparr>type = 4, number = 7, priority = 0\<rparr>"]
  by (simp add: pair_hand_def playable_def)

end
