(* ===== verification/ServerState.thy ===== *)
theory ServerState
  imports Messages Display HuCheck
begin

text \<open>
  The server's state: the four players of the table, the wall, the discarded tile and the
  winner, on top of the world of \<open>UnpRead\<close>; its initialisation, and the accesses to one
  player that the handlers are written with. The array \<open>players[4]\<close> of pointers is a function
  of the seat; every seat in the code is a constant or taken modulo 4.

  \<open>rand_seq\<close> are the values that the coming calls of \<open>rand()\<close> return, \<open>selects\<close> the
  descriptors that the coming calls of \<open>select\<close> report as readable.
\<close>

record player =
  player_fd :: int
  flower_index :: int
  door_index :: int
  sea_index :: int
  normal_capacity :: int
  decks :: "mj list"
  flowers :: "mj list"
  door :: "mj list"
  sea :: "mj list"

record server = io +
  players :: "int \<Rightarrow> player"
  shuffled_mjs :: "mj list"
  discarded_mj :: mj
  take_index :: int
  winner :: int
  rand_seq :: "nat \<Rightarrow> int"
  rand_pos :: nat
  rset :: "int set"
  selects :: "int list list"

definition player_gameinfo_init :: "player \<Rightarrow> player" where
  "player_gameinfo_init p = p\<lparr>
     flower_index := 0, door_index := 0, sea_index := 0, normal_capacity := 16,
     decks := replicate 20 null_mj, flowers := replicate 8 null_mj,
     door := replicate 20 null_mj, sea := replicate 150 null_mj\<rparr>"

text \<open>\<open>malloc\<close> may fail; the argument says whether it returned memory.\<close>

definition player_init :: "bool \<Rightarrow> ('z io_scheme, player) prog" where
  "player_init malloc_ok =
     (if \<not> malloc_ok then thenp (printf ''malloc failed, exiting...\<newline>'') (failp (Exited 1))
      else ret (player_gameinfo_init
        \<lparr>player_fd = -1, flower_index = 0, door_index = 0, sea_index = 0, normal_capacity = 0,
         decks = [], flowers = [], door = [], sea = []\<rparr>))"

definition game_init :: "(server, int) prog" where
  "game_init =
     thenp (modp (\<lambda>s. s\<lparr>winner := -1, take_index := 0, discarded_mj := clear_mj (discarded_mj s)\<rparr>)) (
     thenp (forp [0, 1, 2, 3] (\<lambda>p. modp (\<lambda>s.
       s\<lparr>players := (players s)(p := player_gameinfo_init (players s p))\<rparr>))) (
     ret 0))"

subsection \<open>Access to one player\<close>

definition player_of :: "int \<Rightarrow> (server, player) prog" where
  "player_of p = getp (\<lambda>s. players s p)"

definition set_player :: "int \<Rightarrow> player \<Rightarrow> (server, unit) prog" where
  "set_player p q = modp (\<lambda>s. s\<lparr>players := (players s)(p := q)\<rparr>)"

text \<open>A change of one player that may leave an array.\<close>

definition update_player :: "int \<Rightarrow> (player \<Rightarrow> player option) \<Rightarrow> (server, unit) prog" where
  "update_player p f = bindp (player_of p) (\<lambda>q. bindp (liftp (f q)) (set_player p))"

definition tell :: "int \<Rightarrow> string \<Rightarrow> (server, int) prog" where
  "tell p msg = bindp (player_of p) (\<lambda>q. write_message_wait_ack (player_fd q) msg)"

definition hear :: "int \<Rightarrow> (server, int) prog" where
  "hear p = bindp (player_of p) (\<lambda>q. read_and_ack (player_fd q))"

definition tell_others :: "int \<Rightarrow> string \<Rightarrow> (server, int) prog" where
  "tell_others p msg =
     thenp (tell ((p + 1) mod 4) msg) (
     thenp (tell ((p + 2) mod 4) msg) (
     tell ((p + 3) mod 4) msg))"

text \<open>\<open>strncmp(recvline, "YES!\n", 5) == 0\<close>\<close>

definition said_yes :: "(server, bool) prog" where
  "said_yes = getp (\<lambda>s. strncmp_eq (recvline s) ''YES!\<newline>'' 5)"

text \<open>\<open>shuffled_mjs[take_index++]\<close>\<close>

definition take_tile :: "(server, mj) prog" where
  "take_tile =
     bindp (getp (\<lambda>s. at (shuffled_mjs s) (take_index s))) (\<lambda>m.
     bindp (liftp m) (\<lambda>m.
     thenp (modp (\<lambda>s. s\<lparr>take_index := take_index s + 1\<rparr>)) (ret m)))"

definition put_deck :: "int \<Rightarrow> mj \<Rightarrow> player \<Rightarrow> player option" where
  "put_deck i m q = do { d \<leftarrow> set_at (decks q) i m; Some (q\<lparr>decks := d\<rparr>) }"

text \<open>\<open>flowers[flower_index++] = m\<close>, \<open>door[door_index++] = m\<close>, \<open>sea[sea_index++] = m\<close>\<close>

definition push_flower :: "mj \<Rightarrow> player \<Rightarrow> player option" where
  "push_flower m q = do {
     f \<leftarrow> set_at (flowers q) (flower_index q) m;
     Some (q\<lparr>flowers := f, flower_index := flower_index q + 1\<rparr>)
   }"

definition push_door :: "mj \<Rightarrow> player \<Rightarrow> player option" where
  "push_door m q = do {
     d \<leftarrow> set_at (door q) (door_index q) m;
     Some (q\<lparr>door := d, door_index := door_index q + 1\<rparr>)
   }"

definition push_sea :: "mj \<Rightarrow> player \<Rightarrow> player option" where
  "push_sea m q = do {
     d \<leftarrow> set_at (sea q) (sea_index q) m;
     Some (q\<lparr>sea := d, sea_index := sea_index q + 1\<rparr>)
   }"

definition sort_deck :: "int \<Rightarrow> int \<Rightarrow> player \<Rightarrow> player option" where
  "sort_deck lo hi q = do { d \<leftarrow> decks_quick_sort (decks q) lo hi; Some (q\<lparr>decks := d\<rparr>) }"

definition swap_deck :: "int \<Rightarrow> int \<Rightarrow> player \<Rightarrow> player option" where
  "swap_deck i j q = do { d \<leftarrow> swap_at (decks q) i j; Some (q\<lparr>decks := d\<rparr>) }"

text \<open>\<open>decks[i].type = 0; decks[i].number = 0;\<close>\<close>

definition clear_deck :: "int \<Rightarrow> player \<Rightarrow> player option" where
  "clear_deck i q = do { m \<leftarrow> at (decks q) i; put_deck i (clear_mj m) q }"

definition clear_discarded :: "(server, unit) prog" where
  "clear_discarded = modp (\<lambda>s. s\<lparr>discarded_mj := clear_mj (discarded_mj s)\<rparr>)"

subsection \<open>Frames\<close>

text \<open>
  The game part of the state is everything but the world of messages. An invariant of the game
  part survives every exchange, so the invariant proofs need only look at the updates.
\<close>

definition game_part :: "(server \<Rightarrow> bool) \<Rightarrow> bool" where
  "game_part I \<longleftrightarrow> (\<forall>s t. io.more t = io.more s \<longrightarrow> I s \<longrightarrow> I t)"

lemma game_partD: "game_part I \<Longrightarrow> io.more t = io.more s \<Longrightarrow> I s \<Longrightarrow> I t"
  unfolding game_part_def by blast

lemma more_fields:
  assumes "io.more t = io.more s"
  shows "players t = players s" "shuffled_mjs t = shuffled_mjs s" "discarded_mj t = discarded_mj s"
    "take_index t = take_index s" "winner t = winner s" "rand_seq t = rand_seq s"
    "rand_pos t = rand_pos s" "rset t = rset s" "selects t = selects s"
  using assms by (cases s, cases t, simp)+

lemma same_game:
  assumes "io.more t = io.more s"
  shows "players t = players s \<and> shuffled_mjs t = shuffled_mjs s \<and> discarded_mj t = discarded_mj s \<and>
    take_index t = take_index s \<and> winner t = winner s"
  using more_fields [OF assms] by simp

named_theorems game_keeps "the programs that keep every invariant of the game part"

lemma keeps_player_of [game_keeps]: "keeps I (player_of p)"
  by (simp add: player_of_def triple_def)

lemma keeps_tell [game_keeps]: "game_part I \<Longrightarrow> keeps I (tell p msg)"
  unfolding tell_def
  by (rule keeps_bindp [OF keeps_player_of]) (rule server_chan.send_triple, blast dest: game_partD)

lemma keeps_hear [game_keeps]: "game_part I \<Longrightarrow> keeps I (hear p)"
  unfolding hear_def
  by (rule keeps_bindp [OF keeps_player_of]) (rule server_chan.recv_triple, blast dest: game_partD)

lemma keeps_tell_others [game_keeps]: "game_part I \<Longrightarrow> keeps I (tell_others p msg)"
  unfolding tell_others_def by (intro keeps_thenp keeps_tell)

lemma keeps_modp_world:
  assumes "game_part I" and "\<And>s. io.more (f s) = io.more s"
  shows "keeps I (modp f)"
  by (rule keeps_modp) (use assms in \<open>blast dest: game_partD\<close>)

lemma keeps_printf [game_keeps]: "game_part I \<Longrightarrow> keeps I (printf m)"
  unfolding printf_def by (rule keeps_modp_world) auto

lemma keeps_clear_recvline [game_keeps]: "game_part I \<Longrightarrow> keeps I clear_recvline"
  unfolding clear_recvline_def set_recvline_def by (rule keeps_modp_world) auto

lemma keeps_said_yes [game_keeps]: "keeps I said_yes"
  unfolding said_yes_def by (simp add: triple_def)

lemma update_player_run:
  "update_player p f s =
     (case f (players s p) of None \<Rightarrow> (Inl Undefined, s)
      | Some q \<Rightarrow> (Inr (), s\<lparr>players := (players s)(p := q)\<rparr>))"
  by (simp add: update_player_def player_of_def set_player_def split: option.splits)

subsection \<open>Properties of the state that the whole game keeps\<close>

text \<open>The arrays have their size and the indices stay inside.\<close>

definition shape :: "player \<Rightarrow> bool" where
  "shape q \<longleftrightarrow> length (decks q) = 20 \<and> length (flowers q) = 8 \<and> length (door q) = 20 \<and>
     length (sea q) = 150 \<and> 0 \<le> flower_index q \<and> flower_index q \<le> 8 \<and>
     0 \<le> door_index q \<and> door_index q \<le> 20 \<and> 0 \<le> sea_index q \<and> sea_index q \<le> 150"

text \<open>
  What is closed under everything a turn does to the game part, except naming a winner: changing
  the discarded tile, taking a tile that is there, and changing a player without raising the
  capacity or leaving the arrays.
\<close>

locale turn_invariant =
  fixes I :: "server \<Rightarrow> bool"
  assumes world: "io.more t = io.more s \<Longrightarrow> I s \<Longrightarrow> I t"
    and set_discarded: "I s \<Longrightarrow> I (s\<lparr>discarded_mj := d\<rparr>)"
    and take_one: "I s \<Longrightarrow> 0 \<le> take_index s \<Longrightarrow> take_index s < int (length (shuffled_mjs s)) \<Longrightarrow>
      I (s\<lparr>take_index := take_index s + 1\<rparr>)"
    and set_player: "I s \<Longrightarrow> normal_capacity q \<le> normal_capacity (players s p) \<Longrightarrow>
      (shape (players s p) \<Longrightarrow> shape q) \<Longrightarrow> I (s\<lparr>players := (players s)(p := q)\<rparr>)"

text \<open>
  A change of a player that does not raise the capacity, and one that leaves it; neither leaves
  the arrays.
\<close>

definition shrinks :: "(player \<Rightarrow> player option) \<Rightarrow> bool" where
  "shrinks f \<longleftrightarrow> (\<forall>q q'. f q = Some q' \<longrightarrow> normal_capacity q' \<le> normal_capacity q \<and> (shape q \<longrightarrow> shape q'))"

definition same_capacity :: "(player \<Rightarrow> player option) \<Rightarrow> bool" where
  "same_capacity f \<longleftrightarrow> (\<forall>q q'. f q = Some q' \<longrightarrow> normal_capacity q' = normal_capacity q \<and> (shape q \<longrightarrow> shape q'))"

lemma same_capacityD: "same_capacity f \<Longrightarrow> f q = Some q' \<Longrightarrow> normal_capacity q' = normal_capacity q"
  unfolding same_capacity_def by blast

lemma same_capacity_shape: "same_capacity f \<Longrightarrow> f q = Some q' \<Longrightarrow> shape q \<Longrightarrow> shape q'"
  unfolding same_capacity_def by blast

lemma same_capacityE:
  "same_capacity f \<Longrightarrow> f q = Some q' \<Longrightarrow> normal_capacity q' = normal_capacity q \<and> (shape q \<longrightarrow> shape q')"
  unfolding same_capacity_def by blast

text \<open>The capacity itself may change as well.\<close>

lemma shape_capacity [simp]: "shape (q\<lparr>normal_capacity := n\<rparr>) = shape q"
  by (simp add: shape_def)

lemma same_capacity_bind [intro]:
  "same_capacity f \<Longrightarrow> same_capacity g \<Longrightarrow> same_capacity (\<lambda>q. f q \<bind> g)"
  unfolding same_capacity_def by (auto simp: bind_eq_Some_conv)

lemma same_capacity_shrinks: "same_capacity f \<Longrightarrow> shrinks f"
  unfolding same_capacity_def shrinks_def by fastforce

named_theorems capacity "changes of a player that leave the capacity"

lemma capacity_basic [capacity]:
  "same_capacity (put_deck i m)" "same_capacity (push_flower m)" "same_capacity (push_door m)"
  "same_capacity (push_sea m)" "same_capacity (sort_deck lo hi)" "same_capacity (swap_deck i j)"
  by (auto simp: same_capacity_def put_deck_def push_flower_def push_door_def push_sea_def
      sort_deck_def swap_deck_def bind_eq_Some_conv shape_def decks_quick_sort_def
      dest!: quick_sort_length swap_at_SomeD)

lemma capacity_clear [capacity]: "same_capacity (clear_deck i)"
  by (auto simp: same_capacity_def clear_deck_def put_deck_def bind_eq_Some_conv shape_def)

lemma take_tile_run:
  "take_tile s =
     (case at (shuffled_mjs s) (take_index s) of None \<Rightarrow> (Inl Undefined, s)
      | Some m \<Rightarrow> (Inr m, s\<lparr>take_index := take_index s + 1\<rparr>))"
  by (cases "at (shuffled_mjs s) (take_index s)") (simp_all add: take_tile_def del: at_Some at_None)

text \<open>The rules for what a turn is made of.\<close>

context turn_invariant
begin

lemma stays_player_of: "stays I (player_of p)"
  by (simp add: player_of_def triple_def)

lemma stays_said_yes: "stays I said_yes"
  by (simp add: said_yes_def triple_def)

lemma stays_tell: "stays I (tell p msg)"
  unfolding tell_def
  by (rule stays_bindp [OF stays_player_of], rule server_chan.send_triple) (auto dest: world)

lemma stays_hear: "stays I (hear p)"
  unfolding hear_def
  by (rule stays_bindp [OF stays_player_of], rule server_chan.recv_triple) (auto dest: world)

lemma stays_tell_others: "stays I (tell_others p msg)"
  unfolding tell_others_def by (intro stays_thenp stays_tell)

lemma stays_world: "(\<And>s. io.more (f s) = io.more s) \<Longrightarrow> stays I (modp f)"
  by (intro stays_modp) (blast dest: world)

lemma stays_printf: "stays I (printf m)"
  unfolding printf_def by (rule stays_world) simp

lemma stays_clear_recvline: "stays I clear_recvline"
  unfolding clear_recvline_def set_recvline_def by (rule stays_world) simp

lemma stays_clear_discarded: "stays I clear_discarded"
  unfolding clear_discarded_def by (intro stays_modp set_discarded)

lemma stays_set_discarded: "stays I (modp (\<lambda>s. s\<lparr>discarded_mj := f s\<rparr>))"
  by (intro stays_modp set_discarded)

lemma stays_take_tile: "stays I take_tile"
  by (rule tripleI) (auto simp: take_tile_run at_def intro: take_one split: if_splits option.splits)

lemma stays_update: "shrinks f \<Longrightarrow> stays I (update_player p f)"
  by (rule tripleI) (auto simp: update_player_run shrinks_def intro!: set_player split: option.splits)

lemmas stays_basic = stays_player_of stays_said_yes stays_tell stays_hear stays_tell_others
  stays_printf stays_clear_recvline stays_clear_discarded stays_set_discarded stays_take_tile

end

lemma triple_bind_player:
  assumes "\<And>q. triple (\<lambda>s. P s \<and> players s p = q) (f q) Q E"
  shows "triple P (bindp (player_of p) f) Q E"
  unfolding player_of_def by (rule triple_bind_get) (rule assms)

lemma keeps_update_player:
  assumes "\<And>s q. I s \<Longrightarrow> f (players s p) = Some q \<Longrightarrow> I (s\<lparr>players := (players s)(p := q)\<rparr>)"
  shows "keeps I (update_player p f)"
  by (rule keepsI) (auto simp: update_player_run assms split: option.splits)

end
