(* ===== verification/Table.thy ===== *)
theory Table
  imports ServerState
begin

text \<open>
  Where the tiles are: the multiset of kinds that a player holds (in the hand, the flowers, the
  door and the sea) and that are on the table with the wall. The operations of a player move
  tiles; the lemmas say what each adds to the holdings.
\<close>

subsection \<open>Holdings\<close>

text \<open>The kinds of the tiles of a list that are not null.\<close>

definition real_kinds :: "mj list \<Rightarrow> (int \<times> int) multiset" where
  "real_kinds xs = filter_mset (\<lambda>k. k \<noteq> (0, 0)) (image_mset kind (mset xs))"

definition kinds :: "mj list \<Rightarrow> (int \<times> int) multiset" where
  "kinds xs = image_mset kind (mset xs)"

definition holdings :: "player \<Rightarrow> (int \<times> int) multiset" where
  "holdings q = real_kinds (decks q) + kinds (take (nat (flower_index q)) (flowers q)) +
     kinds (take (nat (door_index q)) (door q)) + kinds (take (nat (sea_index q)) (sea q))"

definition wall_kinds :: "server \<Rightarrow> (int \<times> int) multiset" where
  "wall_kinds s = kinds (drop (nat (take_index s)) (shuffled_mjs s))"

definition table :: "server \<Rightarrow> (int \<times> int) multiset" where
  "table s = holdings (players s 0) + holdings (players s 1) + holdings (players s 2) +
     holdings (players s 3) + wall_kinds s"

lemma kinds_simps [simp]:
  "kinds [] = {#}" "kinds (m # ms) = add_mset (kind m) (kinds ms)" "kinds (xs @ ys) = kinds xs + kinds ys"
  by (simp_all add: kinds_def)

lemma size_kinds [simp]: "size (kinds xs) = length xs"
  by (simp add: kinds_def)

lemma kinds_mset: "mset xs = mset ys \<Longrightarrow> kinds xs = kinds ys"
  by (simp add: kinds_def)

lemma real_kinds_Nil [simp]: "real_kinds [] = {#}"
  by (simp add: real_kinds_def)

lemma real_kinds_Cons:
  "real_kinds (m # ms) = (if is_null m then real_kinds ms else add_mset (kind m) (real_kinds ms))"
  by (simp add: real_kinds_def is_null_kind)

lemma real_kinds_null [simp]: "is_null m \<Longrightarrow> real_kinds [m] = {#}"
  by (simp add: real_kinds_Cons)

lemma real_kinds_one [simp]: "\<not> is_null m \<Longrightarrow> real_kinds [m] = {#kind m#}"
  by (simp add: real_kinds_Cons)

lemma real_kinds_append [simp]: "real_kinds (xs @ ys) = real_kinds xs + real_kinds ys"
  by (simp add: real_kinds_def)

lemma real_kinds_mset: "mset xs = mset ys \<Longrightarrow> real_kinds xs = real_kinds ys"
  by (simp add: real_kinds_def)

lemma real_kinds_subset: "real_kinds xs \<subseteq># kinds xs"
  by (simp add: real_kinds_def kinds_def)

lemma real_kinds_all: "\<forall>m \<in> set xs. \<not> is_null m \<Longrightarrow> real_kinds xs = kinds xs"
  by (induction xs) (auto simp: real_kinds_Cons)

lemma real_kinds_none: "\<forall>m \<in> set xs. is_null m \<Longrightarrow> real_kinds xs = {#}"
  by (induction xs) (auto simp: real_kinds_Cons)

lemma real_kinds_update:
  assumes "i < length xs"
  shows "real_kinds (xs[i := v]) + real_kinds [xs ! i] = real_kinds xs + real_kinds [v]"
proof -
  obtain r where r: "mset xs = add_mset (xs ! i) r"
    using assms by (metis insert_DiffM nth_mem_mset)
  then have "mset (xs[i := v]) = add_mset v r" using assms by (simp add: mset_update)
  with r show ?thesis by (simp add: real_kinds_def)
qed

lemma take_snoc_update:
  assumes "i < length xs"
  shows "take (Suc i) (xs[i := v]) = take i xs @ [v]"
  using assms by (simp add: take_Suc_conv_app_nth)

subsection \<open>What the operations of a player do\<close>

lemma put_deck_SomeD:
  assumes "put_deck i m q = Some q'"
  shows "0 \<le> i" "i < int (length (decks q))" "q' = q\<lparr>decks := (decks q)[nat i := m]\<rparr>"
  using assms by (auto simp: put_deck_def bind_eq_Some_conv)

lemma put_deck_holdings:
  assumes "put_deck i m q = Some q'"
  shows "holdings q' + real_kinds [decks q ! nat i] = holdings q + real_kinds [m]"
proof -
  note D = put_deck_SomeD [OF assms]
  have "nat i < length (decks q)" using D by auto
  from real_kinds_update [OF this, of m] show ?thesis
    unfolding D(3) holdings_def by (simp add: add_ac)
qed

lemma push_flower_SomeD:
  assumes "push_flower m q = Some q'"
  shows "0 \<le> flower_index q" "flower_index q < int (length (flowers q))"
    "q' = q\<lparr>flowers := (flowers q)[nat (flower_index q) := m], flower_index := flower_index q + 1\<rparr>"
  using assms by (auto simp: push_flower_def bind_eq_Some_conv)

lemma push_flower_holdings: "push_flower m q = Some q' \<Longrightarrow> holdings q' = add_mset (kind m) (holdings q)"
  using push_flower_SomeD [of m q q'] by (auto simp: holdings_def nat_add_distrib take_snoc_update)

lemma push_door_SomeD:
  assumes "push_door m q = Some q'"
  shows "0 \<le> door_index q" "door_index q < int (length (door q))"
    "q' = q\<lparr>door := (door q)[nat (door_index q) := m], door_index := door_index q + 1\<rparr>"
  using assms by (auto simp: push_door_def bind_eq_Some_conv)

lemma push_door_holdings: "push_door m q = Some q' \<Longrightarrow> holdings q' = add_mset (kind m) (holdings q)"
  using push_door_SomeD [of m q q'] by (auto simp: holdings_def nat_add_distrib take_snoc_update)

lemma push_sea_SomeD:
  assumes "push_sea m q = Some q'"
  shows "0 \<le> sea_index q" "sea_index q < int (length (sea q))"
    "q' = q\<lparr>sea := (sea q)[nat (sea_index q) := m], sea_index := sea_index q + 1\<rparr>"
  using assms by (auto simp: push_sea_def bind_eq_Some_conv)

lemma push_sea_holdings: "push_sea m q = Some q' \<Longrightarrow> holdings q' = add_mset (kind m) (holdings q)"
  using push_sea_SomeD [of m q q'] by (auto simp: holdings_def nat_add_distrib take_snoc_update)

lemma clear_deck_holdings:
  assumes "clear_deck i q = Some q'"
  shows "holdings q' + real_kinds [decks q ! nat i] = holdings q"
proof -
  from assms have "put_deck i (clear_mj (decks q ! nat i)) q = Some q'"
    by (auto simp: clear_deck_def bind_eq_Some_conv)
  from put_deck_holdings [OF this] show ?thesis by simp
qed

text \<open>Rearranging the hand moves nothing out of it.\<close>

lemma holdings_decks: "mset d = mset (decks q) \<Longrightarrow> holdings (q\<lparr>decks := d\<rparr>) = holdings q"
  using real_kinds_mset [of d "decks q"] by (simp add: holdings_def)

lemma swap_deck_SomeD:
  assumes "swap_deck i j q = Some q'"
  shows "0 \<le> i" "i < int (length (decks q))" "0 \<le> j" "j < int (length (decks q))"
    "q' = q\<lparr>decks := (decks q)[nat i := decks q ! nat j, nat j := decks q ! nat i]\<rparr>"
proof -
  from assms obtain d where d: "swap_at (decks q) i j = Some d" "q' = q\<lparr>decks := d\<rparr>"
    by (auto simp: swap_deck_def bind_eq_Some_conv)
  from swap_at_SomeD [OF d(1)] d(2)
  show "0 \<le> i" "i < int (length (decks q))" "0 \<le> j" "j < int (length (decks q))"
    "q' = q\<lparr>decks := (decks q)[nat i := decks q ! nat j, nat j := decks q ! nat i]\<rparr>" by simp_all
qed

lemma swap_deck_holdings:
  assumes "swap_deck i j q = Some q'"
  shows "holdings q' = holdings q"
proof -
  note D = swap_deck_SomeD [OF assms]
  have "mset ((decks q)[nat i := decks q ! nat j, nat j := decks q ! nat i]) = mset (decks q)"
    using D by (intro mset_swap) auto
  then show ?thesis unfolding D(5) by (rule holdings_decks)
qed

lemma sort_deck_holdings:
  assumes "sort_deck lo hi q = Some q'" and "0 \<le> lo" and "hi < int (length (decks q))"
  shows "holdings q' = holdings q"
  using assms deck_sort.sort_SomeD(4) [of "decks q" lo hi]
  by (auto simp: sort_deck_def bind_eq_Some_conv intro!: holdings_decks)

subsection \<open>The table\<close>

lemma table_update:
  assumes "p \<in> {0..3}"
  shows "table (s\<lparr>players := (players s)(p := q)\<rparr>) + holdings (players s p) = table s + holdings q"
proof -
  have "p = 0 \<or> p = 1 \<or> p = 2 \<or> p = 3" using assms by auto
  then show ?thesis by (elim disjE) (simp_all add: table_def wall_kinds_def)
qed

lemma table_world: "io.more t = io.more s \<Longrightarrow> table t = table s"
  by (drule same_game) (simp add: table_def wall_kinds_def)

lemma wall_kinds_take:
  assumes "take_tile s = (Inr m, t)"
  shows "wall_kinds s = add_mset (kind m) (wall_kinds t)"
    and "t = s\<lparr>take_index := take_index s + 1\<rparr>"
    and "0 \<le> take_index s" "take_index s < int (length (shuffled_mjs s))"
    and "m = shuffled_mjs s ! nat (take_index s)"
proof -
  from assms show r: "t = s\<lparr>take_index := take_index s + 1\<rparr>" "0 \<le> take_index s"
    "take_index s < int (length (shuffled_mjs s))" "m = shuffled_mjs s ! nat (take_index s)"
    by (auto simp: take_tile_run at_def split: if_splits)
  then show "wall_kinds s = add_mset (kind m) (wall_kinds t)"
    by (simp add: wall_kinds_def nat_add_distrib Cons_nth_drop_Suc [symmetric])
qed

lemma table_take:
  assumes "take_tile s = (Inr m, t)"
  shows "table s = add_mset (kind m) (table t)"
  using wall_kinds_take [OF assms] by (simp add: table_def wall_kinds_def)

end
