(* ===== verification/Wall.thy ===== *)
theory Wall
  imports Table
begin

text \<open>
  Shuffling the wall and dealing: \<open>shuffle\<close>, \<open>has_flower\<close>, \<open>deal\<close>, \<open>shuffle_n_deal\<close>.
\<close>

subsection \<open>Shuffling\<close>

definition rand :: "(server, int) prog" where
  "rand =
     bindp (getp (\<lambda>s. rand_seq s (rand_pos s))) (\<lambda>r.
     thenp (modp (\<lambda>s. s\<lparr>rand_pos := rand_pos s + 1\<rparr>)) (ret r))"

text \<open>One tile at \<open>nowindex\<close>; the value is the next \<open>nowindex\<close>.\<close>

definition place_tile :: "int \<Rightarrow> int \<Rightarrow> int \<Rightarrow> (server, int) prog" where
  "place_tile t n nowindex =
     bindp rand (\<lambda>r.
     bindp (getp shuffled_mjs) (\<lambda>w.
     bindp (liftp (set_at w nowindex \<lparr>type = t, number = n, priority = r\<rparr>)) (\<lambda>w'.
     thenp (modp (\<lambda>s. s\<lparr>shuffled_mjs := w'\<rparr>)) (ret (nowindex + 1)))))"

definition place_suit :: "int \<Rightarrow> int list \<Rightarrow> int \<Rightarrow> (server, int) prog" where
  "place_suit t ns = foldp ns (\<lambda>n. foldp [0..3] (\<lambda>j. place_tile t n))"

definition shuffle :: "(server, int) prog" where
  "shuffle =
     thenp (modp (\<lambda>s. s\<lparr>shuffled_mjs := replicate 144 null_mj\<rparr>)) (
     bindp (place_suit TONG [1..9] 0) (\<lambda>i.
     bindp (place_suit TIAO [1..9] i) (\<lambda>i.
     bindp (place_suit WAN [1..9] i) (\<lambda>i.
     bindp (place_suit DAZI [1..7] i) (\<lambda>i.
     bindp (foldp [1..8] (place_tile FLOWER) i) (\<lambda>_.
     bindp (getp shuffled_mjs) (\<lambda>w.
     bindp (liftp (priority_quick_sort w 0 143)) (\<lambda>w'.
     thenp (modp (\<lambda>s. s\<lparr>shuffled_mjs := w'\<rparr>)) (ret 0)))))))))"

subsection \<open>Dealing\<close>

definition has_flower :: "int \<Rightarrow> (server, int) prog" where
  "has_flower p = foldp [0..19] (\<lambda>i flowercount.
     bindp (player_of p) (\<lambda>q.
     bindp (liftp (at (decks q) i)) (\<lambda>m.
     if type m = FLOWER then
       thenp (update_player p (push_flower m)) (
       bindp take_tile (\<lambda>n.
       thenp (update_player p (put_deck i n)) (ret (flowercount + 1))))
     else ret flowercount))) 0"

definition deal_tiles :: "int \<Rightarrow> (server, unit) prog" where
  "deal_tiles playernow =
     forp [0..3] (\<lambda>time. forp [0..3] (\<lambda>playeradd. forp [0..3] (\<lambda>grab.
       bindp take_tile (\<lambda>m.
       update_player ((playernow + playeradd) mod 4) (put_deck (time * 4 + grab) m)))))"

text \<open>The replacement of flowers, until four players in a row had none; with fuel.\<close>

fun regrab :: "nat \<Rightarrow> int \<Rightarrow> int \<Rightarrow> int \<Rightarrow> (server, unit) prog" where
  "regrab 0 playernow no_flower_count playeradd s = failp Diverges s"
| "regrab (Suc fuel) playernow no_flower_count playeradd s =
     (if no_flower_count < 4 then
        bindp (has_flower ((playernow + playeradd) mod 4)) (\<lambda>c.
          if c > 0 then regrab fuel playernow 0 (playeradd + 1)
          else regrab fuel playernow (no_flower_count + 1) (playeradd + 1)) s
      else ret () s)"

definition regrab_fuel :: nat where
  "regrab_fuel = 64"

text \<open>Every player is sent the hand, the flowers and the line that ends the transfer.\<close>

definition transfer :: "int \<Rightarrow> (server, int) prog" where
  "transfer i =
     thenp (forp [0..15] (\<lambda>j.
       bindp (player_of i) (\<lambda>q.
       bindp (liftp (at (decks q) j)) (\<lambda>m.
       thenp (tell i (show_int (type m) @ '' '' @ show_int (number m) @ ''\<newline>'')) (ret ()))))) (
     bindp (player_of i) (\<lambda>q.
     thenp (forp [0..flower_index q - 1] (\<lambda>j.
       bindp (player_of i) (\<lambda>q.
       bindp (liftp (at (flowers q) j)) (\<lambda>m.
       thenp (tell i (show_int (number m) @ ''\<newline>'')) (ret ()))))) (
     tell i ''transfer complete\<newline>'')))"

definition deal :: "int \<Rightarrow> (server, int) prog" where
  "deal playernow =
     thenp (deal_tiles playernow) (
     thenp (regrab regrab_fuel playernow 0 0) (
     thenp (forp [0, 1, 2, 3] (\<lambda>i. update_player i (sort_deck 0 15))) (
     thenp (forp [0..3] (\<lambda>i. thenp (transfer i) (ret ()))) (
     ret 0))))"

definition shuffle_n_deal :: "int \<Rightarrow> (server, int) prog" where
  "shuffle_n_deal playernow = thenp shuffle (thenp (deal playernow) (ret 0))"

subsection \<open>What shuffling does\<close>

text \<open>The 144 tiles: four of each of 34 kinds and eight flowers.\<close>

definition suit_kinds :: "int \<Rightarrow> int \<Rightarrow> (int \<times> int) list" where
  "suit_kinds t m = concat (map (\<lambda>n. replicate 4 (t, n)) [1..m])"

definition all_kinds :: "(int \<times> int) list" where
  "all_kinds = suit_kinds TONG 9 @ suit_kinds TIAO 9 @ suit_kinds WAN 9 @ suit_kinds DAZI 7 @
     map (Pair FLOWER) [1..8]"

text \<open>So far the kinds \<open>done\<close> are placed, and nothing but the wall is touched.\<close>

definition placed :: "server \<Rightarrow> (int \<times> int) list \<Rightarrow> int \<Rightarrow> server \<Rightarrow> bool" where
  "placed s0 ks a s \<longleftrightarrow> a = int (length ks) \<and>
     (\<exists>w r. s = s0\<lparr>shuffled_mjs := w, rand_pos := r\<rparr> \<and> length w = 144 \<and> map kind (take (length ks) w) = ks)"

lemma wall_update_swap:
  "s\<lparr>rand_pos := r, shuffled_mjs := w\<rparr> = s\<lparr>shuffled_mjs := w, rand_pos := r\<rparr>" for s :: server
  by (cases s) simp

lemma place_tile_placed:
  assumes "length ks < 144"
  shows "triple (placed s0 ks a) (place_tile t n a) (placed s0 (ks @ [(t, n)])) (\<lambda>_ _. False)"
proof (rule tripleI)
  fix s b u assume "placed s0 ks a s" and run: "place_tile t n a s = (Inr b, u)"
  then obtain w r where s: "s = s0\<lparr>shuffled_mjs := w, rand_pos := r\<rparr>" "length w = 144"
    "map kind (take (length ks) w) = ks" "a = int (length ks)" by (auto simp: placed_def)
  let ?m = "\<lparr>type = t, number = n, priority = rand_seq s0 r\<rparr>"
  have "b = a + 1" "u = s0\<lparr>shuffled_mjs := w[length ks := ?m], rand_pos := r + 1\<rparr>"
    using run s assms by (auto simp: place_tile_def rand_def set_at_eq wall_update_swap)
  moreover have "map kind (take (Suc (length ks)) (w[length ks := ?m])) = ks @ [(t, n)]"
    using s assms by (simp add: take_snoc_update kind_def [of ?m])
  ultimately show "placed s0 (ks @ [(t, n)]) b u" using s by (auto simp: placed_def)
next
  fix s e u assume "placed s0 ks a s" and "place_tile t n a s = (Inl e, u)"
  then show False using assms by (auto simp: placed_def place_tile_def rand_def set_at_eq)
qed

lemma place_suit_placed:
  assumes "length ks + nat (4 * m) \<le> 144" and "0 \<le> m"
  shows "triple (placed s0 ks a) (place_suit t [1..m] a) (placed s0 (ks @ suit_kinds t m)) (\<lambda>_ _. False)"
proof -
  have len: "length (suit_kinds t k) = nat (4 * k)" if "0 \<le> k" for k
    using that unfolding suit_kinds_def by (simp add: length_concat comp_def sum_list_triv)
  have step: "triple (placed s0 (ks @ suit_kinds t (i - 1)) c) (foldp [0..3] (\<lambda>j. place_tile t i) c)
      (placed s0 (ks @ suit_kinds t i)) (\<lambda>_ _. False)" if "1 \<le> i" "i \<le> m" for i c
  proof -
    have inner: "triple (placed s0 ((ks @ suit_kinds t (i - 1)) @ replicate (nat 0) (t, i)) c)
        (foldp [0..4 - 1] (\<lambda>j. place_tile t i) c)
        (placed s0 ((ks @ suit_kinds t (i - 1)) @ replicate (nat 4) (t, i))) (\<lambda>_ _. False)"
    proof (rule triple_foldp_upto [where J = "\<lambda>j. placed s0 ((ks @ suit_kinds t (i - 1)) @ replicate (nat j) (t, i))"])
      fix j d :: int assume j: "0 \<le> j" "j < 4"
      have "length ((ks @ suit_kinds t (i - 1)) @ replicate (nat j) (t, i)) < 144"
        using that assms j by (simp add: len nat_diff_distrib nat_mult_distrib)
      from place_tile_placed [OF this, of s0 d t i]
      show "triple (placed s0 ((ks @ suit_kinds t (i - 1)) @ replicate (nat j) (t, i)) d) (place_tile t i d)
          (placed s0 ((ks @ suit_kinds t (i - 1)) @ replicate (nat (j + 1)) (t, i))) (\<lambda>_ _. False)"
        using j by (simp add: nat_add_distrib replicate_append_same)
    qed simp
    have "suit_kinds t i = suit_kinds t (i - 1) @ replicate 4 (t, i)"
      using that upto_rec2 [of 1 i] by (simp add: suit_kinds_def)
    with inner show ?thesis by simp
  qed
  have "triple (placed s0 (ks @ suit_kinds t (1 - 1)) a) (foldp [1..(m + 1) - 1] (\<lambda>n. foldp [0..3] (\<lambda>j. place_tile t n)) a)
      (placed s0 (ks @ suit_kinds t (m + 1 - 1))) (\<lambda>_ _. False)"
    by (rule triple_foldp_upto [where J = "\<lambda>i. placed s0 (ks @ suit_kinds t (i - 1))"])
      (use step assms in auto)
  then show ?thesis by (simp add: place_suit_def suit_kinds_def)
qed

lemma all_kinds_length: "length all_kinds = 144"
  by (simp add: all_kinds_def suit_kinds_def length_concat comp_def sum_list_triv)

text \<open>What a shuffled wall is.\<close>

definition full_wall :: "mj list \<Rightarrow> bool" where
  "full_wall w \<longleftrightarrow> length w = 144 \<and> kinds w = mset all_kinds \<and> sorted (map priority w)"

lemma shuffle_correct:
  "\<exists>w r. shuffle s = (Inr 0, s\<lparr>shuffled_mjs := w, rand_pos := r\<rparr>) \<and> full_wall w"
proof -
  let ?E = "\<lambda>(_ :: fault) (_ :: server). False"
  let ?k1 = "suit_kinds TONG 9" and ?k2 = "suit_kinds TIAO 9" and ?k3 = "suit_kinds WAN 9"
    and ?k4 = "suit_kinds DAZI 7"
  have len: "length (suit_kinds t k) = nat (4 * k)" if "0 \<le> k" for t k
    using that unfolding suit_kinds_def by (simp add: length_concat comp_def sum_list_triv)
  have flowers: "triple (placed s ks a) (foldp [1..8] (place_tile FLOWER) a)
      (placed s (ks @ map (Pair FLOWER) [1..8])) ?E" if "length ks \<le> 136" for ks a
  proof -
    have "triple (placed s (ks @ map (Pair FLOWER) [1..1 - 1]) a) (foldp [1..9 - 1] (place_tile FLOWER) a)
        (placed s (ks @ map (Pair FLOWER) [1..9 - 1])) ?E"
    proof (rule triple_foldp_upto [where J = "\<lambda>i. placed s (ks @ map (Pair FLOWER) [1..i - 1])"])
      fix i c :: int assume i: "1 \<le> i" "i < 9"
      have "length (ks @ map (Pair FLOWER) [1..i - 1]) < 144" using that i by simp
      from place_tile_placed [OF this, of s c FLOWER i]
      show "triple (placed s (ks @ map (Pair FLOWER) [1..i - 1]) c) (place_tile FLOWER i c)
          (placed s (ks @ map (Pair FLOWER) [1..i + 1 - 1])) ?E"
        using i upto_rec2 [of 1 i] by simp
    qed simp
    then show ?thesis by simp
  qed
  have final: "triple (placed s all_kinds a) (bindp (getp shuffled_mjs) (\<lambda>w.
      bindp (liftp (priority_quick_sort w 0 143)) (\<lambda>w'.
      thenp (modp (\<lambda>s. s\<lparr>shuffled_mjs := w'\<rparr>)) (ret 0))))
      (\<lambda>v t. v = (0 :: int) \<and> (\<exists>w r. t = s\<lparr>shuffled_mjs := w, rand_pos := r\<rparr> \<and> full_wall w)) ?E" for a
  proof (rule triple_bind_get, rule triple_bind_lift)
    fix w w' assume sort: "priority_quick_sort w 0 143 = Some w'"
    show "triple (\<lambda>t. placed s all_kinds a t \<and> shuffled_mjs t = w) (thenp (modp (\<lambda>s. s\<lparr>shuffled_mjs := w'\<rparr>)) (ret 0))
        (\<lambda>v t. v = (0 :: int) \<and> (\<exists>w r. t = s\<lparr>shuffled_mjs := w, rand_pos := r\<rparr> \<and> full_wall w)) ?E"
    proof (rule tripleI)
      fix t v u assume P: "placed s all_kinds a t \<and> shuffled_mjs t = w"
        and run: "thenp (modp (\<lambda>s. s\<lparr>shuffled_mjs := w'\<rparr>)) (ret (0 :: int)) t = (Inr v, u)"
      from P obtain v' r where P': "t = s\<lparr>shuffled_mjs := v', rand_pos := r\<rparr>" "length v' = 144"
        "map kind (take 144 v') = all_kinds" "shuffled_mjs t = w"
        unfolding placed_def all_kinds_length by blast
      then have t: "t = s\<lparr>shuffled_mjs := w, rand_pos := r\<rparr>" "length w = 144" "map kind w = all_kinds"
        by simp_all
      have e: "(143 :: int) = int (length w) - 1" using t by simp
      note W = wall_sort.sort_whole [OF sort [unfolded e]]
      have "kinds w' = kinds w" by (rule kinds_mset [OF W(2)])
      also have "\<dots> = mset (map kind w)" by (simp add: kinds_def)
      also have "\<dots> = mset all_kinds" by (simp only: t(3))
      finally have "kinds w' = mset all_kinds" .
      then have "full_wall w'"
        unfolding full_wall_def using W(1) t(2) mset_eq_length [OF W(2)] by simp
      with run t show "v = 0 \<and> (\<exists>w r. u = s\<lparr>shuffled_mjs := w, rand_pos := r\<rparr> \<and> full_wall w)"
        by (auto simp: wall_update_swap)
    qed simp
  next
    fix w assume "priority_quick_sort w 0 143 = None"
    then show "triple (\<lambda>t. placed s all_kinds a t \<and> shuffled_mjs t = w) (failp Undefined)
        (\<lambda>v t. v = (0 :: int) \<and> (\<exists>w r. t = s\<lparr>shuffled_mjs := w, rand_pos := r\<rparr> \<and> full_wall w)) ?E"
      using wall_sort.sort_spec [of 0 143 w] by (auto simp: triple_def placed_def)
  qed
  have "triple (\<lambda>t. t = s) shuffle
      (\<lambda>v t. v = (0 :: int) \<and> (\<exists>w r. t = s\<lparr>shuffled_mjs := w, rand_pos := r\<rparr> \<and> full_wall w)) ?E"
    unfolding shuffle_def
  proof (rule triple_thenp)
    show "triple (\<lambda>t. t = s) (modp (\<lambda>s. s\<lparr>shuffled_mjs := replicate 144 null_mj\<rparr>)) (\<lambda>_. placed s [] 0) ?E"
      by (rule triple_modp) (auto simp: placed_def intro!: exI [of _ "replicate 144 null_mj"] exI [of _ "rand_pos s"])
    show "triple (placed s [] 0) (bindp (place_suit TONG [1..9] 0) (\<lambda>i.
     bindp (place_suit TIAO [1..9] i) (\<lambda>i.
     bindp (place_suit WAN [1..9] i) (\<lambda>i.
     bindp (place_suit DAZI [1..7] i) (\<lambda>i.
     bindp (foldp [1..8] (place_tile FLOWER) i) (\<lambda>_.
     bindp (getp shuffled_mjs) (\<lambda>w.
     bindp (liftp (priority_quick_sort w 0 143)) (\<lambda>w'.
     thenp (modp (\<lambda>s. s\<lparr>shuffled_mjs := w'\<rparr>)) (ret 0)))))))))
     (\<lambda>v t. v = (0 :: int) \<and> (\<exists>w r. t = s\<lparr>shuffled_mjs := w, rand_pos := r\<rparr> \<and> full_wall w)) ?E"
      by ((rule triple_bindp [OF place_suit_placed], simp add: len, simp)+,
          rule triple_bindp [OF flowers], simp add: len)
        (use final in \<open>simp add: all_kinds_def\<close>)
  qed
  then show ?thesis
    using triple_Inr triple_Inl by (cases "shuffle s") (fastforce simp: triple_def split: sum.splits)
qed

end
