(* ===== verification/ServerTurn.thy ===== *)
theory ServerTurn
  imports ServerState
begin

text \<open>
  A player's own turn on the server: drawing with replacement of flowers, the offer to win, the
  quiet gang, the discard and its broadcast (\<open>draw\<close>, \<open>is_hu\<close>, \<open>quiet_gang\<close>, \<open>discard\<close>,
  \<open>broadcast_discard_mj\<close>, \<open>draw_n_discard\<close>).
\<close>

definition tile_line :: "mj \<Rightarrow> string" where
  "tile_line m = show_int (type m) @ '' '' @ show_int (number m) @ ''\<newline>''"

text \<open>\<open>players[p]->decks[players[p]->normal_capacity]\<close>, where the drawn tile is put.\<close>

definition drawn_tile :: "int \<Rightarrow> (server, mj) prog" where
  "drawn_tile p = bindp (player_of p) (\<lambda>q. liftp (at (decks q) (normal_capacity q)))"

definition grab_tile :: "int \<Rightarrow> (server, int) prog" where
  "grab_tile p =
     bindp take_tile (\<lambda>m.
     thenp (update_player p (\<lambda>q. put_deck (normal_capacity q) m q)) (
     bindp (drawn_tile p) (\<lambda>m. tell p (tile_line m))))"

fun draw_loop :: "nat \<Rightarrow> int \<Rightarrow> (server, int) prog" where
  "draw_loop 0 p s = failp Diverges s"
| "draw_loop (Suc fuel) p s =
     bindp (drawn_tile p) (\<lambda>m.
       if type m = FLOWER then
         thenp (update_player p (push_flower m)) (
         thenp (grab_tile p) (
         draw_loop fuel p))
       else ret 0) s"

text \<open>Every turn of the loop takes a tile, so the wall bounds how often it turns.\<close>

definition wall_left :: "server \<Rightarrow> nat" where
  "wall_left s = nat (int (length (shuffled_mjs s)) - take_index s)"

definition draw :: "int \<Rightarrow> (server, int) prog" where
  "draw p = thenp (grab_tile p) (bindp (getp wall_left) (\<lambda>k. draw_loop (Suc k) p))"

definition is_hu :: "int \<Rightarrow> (server, int) prog" where
  "is_hu p =
     bindp (player_of p) (\<lambda>q.
     bindp (liftp (hu_check (decks q) (normal_capacity q))) (\<lambda>h.
     if h = 1 then
       thenp (tell p ''can hu\<newline>'') (
       thenp (hear p) (
       bindp said_yes (\<lambda>y.
       if y then
         thenp clear_recvline (
         thenp (modp (\<lambda>s. s\<lparr>winner := p\<rparr>)) (
         ret 1))
       else thenp clear_recvline (ret 0))))
     else thenp (tell p ''cannot hu\<newline>'') (ret 0)))"

definition discard_text :: "int \<Rightarrow> mj \<Rightarrow> string option" where
  "discard_text p m =
     (let pre = ''(Discard) Player '' @ show_int p @ '' discarded '' in
      if type m = TONG then Some (pre @ show_int (number m) @ '' TONG.\<newline>'')
      else if type m = TIAO then Some (pre @ show_int (number m) @ '' TIAO.\<newline>'')
      else if type m = WAN then Some (pre @ show_int (number m) @ '' WAN.\<newline>'')
      else if type m = DAZI then
        (if number m = 1 then Some (pre @ ''EAST.\<newline>'')
         else if number m = 2 then Some (pre @ ''SOUTH.\<newline>'')
         else if number m = 3 then Some (pre @ ''WEST.\<newline>'')
         else if number m = 4 then Some (pre @ ''NORTH.\<newline>'')
         else if number m = 5 then Some (pre @ ''ZHONG.\<newline>'')
         else if number m = 6 then Some (pre @ ''FA.\<newline>'')
         else if number m = 7 then Some (pre @ ''BAI.\<newline>'')
         else None)
      else None)"

definition broadcast_discard_mj :: "int \<Rightarrow> (server, int) prog" where
  "broadcast_discard_mj playernow =
     bindp (getp discarded_mj) (\<lambda>d.
     case discard_text playernow d of
       None \<Rightarrow> ret 0
     | Some msg \<Rightarrow> thenp (tell_others playernow msg) (ret 0))"

text \<open>\<open>sscanf\<close> leaves the uninitialised \<open>index\<close> alone when there is no number.\<close>

definition read_index :: "string \<Rightarrow> int option" where
  "read_index l = (case sscanf_d l of Value i _ \<Rightarrow> Some i | _ \<Rightarrow> None)"

text \<open>The discarded tile leaves the hand: it is swapped behind it and cleared.\<close>

definition remove_tile :: "int \<Rightarrow> player \<Rightarrow> player option" where
  "remove_tile i q = do {
     q \<leftarrow> swap_deck (normal_capacity q) i q;
     q \<leftarrow> clear_deck (normal_capacity q) q;
     sort_deck 0 (normal_capacity q - 1) q
   }"

definition discard :: "int \<Rightarrow> (server, int) prog" where
  "discard p =
     thenp (hear p) (
     bindp (getp recvline) (\<lambda>l.
     bindp (liftp (read_index l)) (\<lambda>index.
     bindp (player_of p) (\<lambda>q.
     bindp (liftp (at (decks q) index)) (\<lambda>m.
     thenp (modp (\<lambda>s. s\<lparr>discarded_mj := (discarded_mj s)\<lparr>type := type m, number := number m\<rparr>\<rparr>)) (
     thenp clear_recvline (
     thenp (update_player p (remove_tile index)) (
     thenp (broadcast_discard_mj p) (
     ret 0)))))))))"

subsection \<open>Melds moved to the door\<close>

text \<open>
  The loop that moves matching tiles: for each tile of the hand of the kind of \<open>target\<close>, push
  \<open>target\<close> on the door and clear the tile, until \<open>need\<close> of them are moved.
\<close>

fun claim_loop :: "mj \<Rightarrow> int list \<Rightarrow> int \<Rightarrow> player \<Rightarrow> player option" where
  "claim_loop target [] need q = Some q"
| "claim_loop target (i # is) need q = do {
     m \<leftarrow> at (decks q) i;
     if mj_compare target m = 0 then do {
       q \<leftarrow> push_door target q;
       q \<leftarrow> clear_deck i q;
       if need - 1 = 0 then Some q else claim_loop target is (need - 1) q
     }
     else claim_loop target is need q
   }"

text \<open>The loop that swaps the cleared places to the end of the hand.\<close>

fun compact_loop :: "int \<Rightarrow> int list \<Rightarrow> int \<Rightarrow> player \<Rightarrow> player option" where
  "compact_loop base [] need q = Some q"
| "compact_loop base (i # is) need q = do {
     m \<leftarrow> at (decks q) i;
     if type m = 0 \<and> number m = 0 then do {
       q \<leftarrow> swap_deck i (normal_capacity q - base + need) q;
       if need - 1 = 0 then Some q else compact_loop base is (need - 1) q
     }
     else compact_loop base is need q
   }"

definition gang_tiles :: "mj \<Rightarrow> player \<Rightarrow> player option" where
  "gang_tiles target q = do {
     q \<leftarrow> push_door target q;
     q \<leftarrow> claim_loop target [0..normal_capacity q - 1] 3 q;
     q \<leftarrow> compact_loop 4 [0..normal_capacity q - 1] 3 q;
     let q = q\<lparr>normal_capacity := normal_capacity q - 3\<rparr>;
     sort_deck 0 (normal_capacity q - 1) q
   }"

definition quiet_gang :: "int \<Rightarrow> (server, int) prog" where
  "quiet_gang p =
     bindp (player_of p) (\<lambda>q.
     bindp (liftp (count_tiles (decks q) (normal_capacity q))) (\<lambda>cnt.
     bindp (drawn_tile p) (\<lambda>m.
     bindp (liftp (count_get cnt (mj_index m))) (\<lambda>c.
     if c \<ge> 3 then
       thenp (tell p ''You can quietly-gang.\<newline>'') (
       thenp (hear p) (
       bindp said_yes (\<lambda>y.
       if y then
         thenp (update_player p (gang_tiles m)) (
         thenp (tell_others p (''(Announce) player '' @ show_int p @ '' quietly-ganged something...\<newline>'')) (
         thenp clear_discarded (
         thenp clear_recvline (
         ret 0))))
       else ret 0)))
     else
       thenp (tell p ''You cannot quietly-gang.\<newline>'') (ret 0)))))"

subsection \<open>The turn\<close>

definition show_deck :: "int \<Rightarrow> bool \<Rightarrow> bool \<Rightarrow> (server, unit) prog" where
  "show_deck p separate show_index =
     bindp (player_of p) (\<lambda>q.
     bindp (getp discarded_mj) (\<lambda>d.
     bindp (liftp (print_deck (decks q) (door q) d separate show_index)) printf))"

text \<open>The loop of quiet gangs; the value says whether the player won in it. With fuel.\<close>

fun quiet_gang_loop :: "nat \<Rightarrow> int \<Rightarrow> (server, bool) prog" where
  "quiet_gang_loop 0 p s = failp Diverges s"
| "quiet_gang_loop (Suc fuel) p s =
     bindp (quiet_gang p) (\<lambda>g.
       if g = 1 then
         thenp (draw p) (
         bindp (is_hu p) (\<lambda>h.
         if h = 1 then ret True else quiet_gang_loop fuel p))
       else ret False) s"

definition draw_n_discard :: "int \<Rightarrow> (server, int) prog" where
  "draw_n_discard p =
     thenp (tell p ''your turn\<newline>'') (
     thenp (draw p) (
     bindp (is_hu p) (\<lambda>h.
     if h = 1 then ret 1
     else
       thenp (show_deck p False True) (
       bindp (getp wall_left) (\<lambda>k.
       bindp (quiet_gang_loop (Suc k) p) (\<lambda>won.
       if won then ret 1
       else
         thenp (discard p) (
         thenp (show_deck p False False) (
         ret 0))))))))"

subsection \<open>What a turn keeps\<close>

lemma capacity_remove [capacity]: "same_capacity (remove_tile i)"
  by (auto simp: same_capacity_def remove_tile_def bind_eq_Some_conv
      dest!: same_capacityE [OF capacity_basic(6)] same_capacityE [OF capacity_clear] same_capacityE [OF capacity_basic(5)])

lemma claim_loop_capacity: "same_capacity (claim_loop target is need)"
proof -
  have "claim_loop target is need q = Some q' \<Longrightarrow>
      normal_capacity q' = normal_capacity q \<and> (shape q \<longrightarrow> shape q')" for q q'
  proof (induction target "is" need q rule: claim_loop.induct)
    case (2 target i "is" need q)
    show ?case
    proof (cases "at (decks q) i")
      case (Some m)
      show ?thesis
      proof (cases "mj_compare target m = 0")
        case True
        with 2 Some obtain q1 q2 where q: "push_door target q = Some q1" "clear_deck i q1 = Some q2"
          by (auto simp: bind_eq_Some_conv simp del: at_Some mj_compare_0)
        then have "normal_capacity q2 = normal_capacity q \<and> (shape q \<longrightarrow> shape q2)"
          using same_capacityE [OF capacity_basic(3) q(1)] same_capacityE [OF capacity_clear q(2)] by simp
        then show ?thesis
          using 2(1) [OF Some True q] 2(3) Some True q
          by (simp del: at_Some mj_compare_0 split: if_splits)
      next
        case False
        then show ?thesis using 2(2) [OF Some False] 2(3) Some by (simp del: at_Some mj_compare_0)
      qed
    qed (use 2 in \<open>simp del: at_None\<close>)
  qed simp
  then show ?thesis by (simp add: same_capacity_def)
qed

lemma compact_loop_capacity: "same_capacity (compact_loop base is need)"
proof -
  have "compact_loop base is need q = Some q' \<Longrightarrow>
      normal_capacity q' = normal_capacity q \<and> (shape q \<longrightarrow> shape q')" for q q'
  proof (induction base "is" need q rule: compact_loop.induct)
    case (2 base i "is" need q)
    show ?case
    proof (cases "at (decks q) i")
      case (Some m)
      show ?thesis
      proof (cases "type m = 0 \<and> number m = 0")
        case True
        with 2 Some obtain q1 where q: "swap_deck i (normal_capacity q - base + need) q = Some q1"
          by (auto simp: bind_eq_Some_conv simp del: at_Some)
        then have "normal_capacity q1 = normal_capacity q \<and> (shape q \<longrightarrow> shape q1)"
          using same_capacityE [OF capacity_basic(6)] by blast
        then show ?thesis
          using 2(1) [OF Some True q] 2(3) Some True q by (simp del: at_Some split: if_splits)
      next
        case False
        then show ?thesis using 2(2) [OF Some False] 2(3) Some by (auto simp del: at_Some)
      qed
    qed (use 2 in \<open>simp del: at_None\<close>)
  qed simp
  then show ?thesis by (simp add: same_capacity_def)
qed

lemma gang_tiles_capacity:
  "gang_tiles target q = Some q' \<Longrightarrow> normal_capacity q' = normal_capacity q - 3"
  by (auto simp: gang_tiles_def bind_eq_Some_conv Let_def
      dest!: same_capacityD [OF claim_loop_capacity] same_capacityD [OF compact_loop_capacity]
        same_capacityD [OF capacity_basic(3)] same_capacityD [OF capacity_basic(5)])

lemma gang_tiles_shape: "gang_tiles target q = Some q' \<Longrightarrow> shape q \<Longrightarrow> shape q'"
  by (auto simp: gang_tiles_def bind_eq_Some_conv Let_def
      dest!: same_capacity_shape [OF claim_loop_capacity] same_capacity_shape [OF compact_loop_capacity]
        same_capacity_shape [OF capacity_basic(3)] same_capacity_shape [OF capacity_basic(5)])

lemma shrinks_gang: "shrinks (gang_tiles target)"
  by (simp add: shrinks_def gang_tiles_capacity gang_tiles_shape)

lemma shrinks_put_drawn: "shrinks (\<lambda>q. put_deck (normal_capacity q) m q)"
  by (auto simp: shrinks_def dest!: same_capacityE [OF capacity_basic(1)])

interpretation wall_bound: turn_invariant "\<lambda>s. wall_left s < n" for n
  by unfold_locales (auto simp: wall_left_def dest: same_game)

lemma turn_invariant_conj:
  assumes "turn_invariant I" and "turn_invariant J"
  shows "turn_invariant (\<lambda>s. I s \<and> J s)"
  by (rule turn_invariant.intro)
    (auto intro: assms [THEN turn_invariant.set_discarded] assms [THEN turn_invariant.take_one]
      assms [THEN turn_invariant.set_player] dest: assms [THEN turn_invariant.world])

context turn_invariant
begin

lemma stays_drawn_tile: "stays I (drawn_tile p)"
  unfolding drawn_tile_def by (intro stays_intros stays_basic)

lemma stays_grab_tile: "stays I (grab_tile p)"
  unfolding grab_tile_def
  by (intro stays_intros stays_basic stays_drawn_tile stays_update shrinks_put_drawn)

lemma stays_broadcast: "stays I (broadcast_discard_mj p)"
  unfolding broadcast_discard_mj_def by (intro stays_intros stays_basic)

lemma stays_discard: "stays I (discard p)"
  unfolding discard_def
  by (intro stays_intros stays_basic stays_update stays_broadcast same_capacity_shrinks capacity)

lemma stays_show_deck: "stays I (show_deck p separate show_index)"
  unfolding show_deck_def by (intro stays_intros stays_basic)

lemma stays_quiet_gang: "stays I (quiet_gang p)"
  unfolding quiet_gang_def
  by (intro stays_intros stays_basic stays_drawn_tile stays_update shrinks_gang)

end

text \<open>Taking a tile shortens the wall, so the loop of \<open>draw\<close> ends.\<close>

lemma take_tile_wall: "triple (\<lambda>s. wall_left s \<le> n) take_tile (\<lambda>_ s. wall_left s < n) (\<lambda>e _. e \<noteq> Diverges)"
  by (rule tripleI) (auto simp: take_tile_run wall_left_def at_def split: if_splits)

lemma grab_tile_wall: "triple (\<lambda>s. wall_left s \<le> n) (grab_tile p) (\<lambda>_ s. wall_left s < n) (\<lambda>e _. e \<noteq> Diverges)"
  unfolding grab_tile_def
  by (rule triple_bindp [OF take_tile_wall])
    (intro stays_intros wall_bound.stays_basic wall_bound.stays_drawn_tile wall_bound.stays_update shrinks_put_drawn)

context turn_invariant
begin

lemma stays_draw_loop: "stays (\<lambda>s. I s \<and> wall_left s < fuel) (draw_loop fuel p)"
proof (induction fuel)
  case 0
  then show ?case by (simp add: triple_def)
next
  case (Suc fuel)
  have inv: "turn_invariant (\<lambda>s. I s \<and> wall_left s < Suc fuel)"
    by (rule turn_invariant_conj [OF turn_invariant_axioms wall_bound.turn_invariant_axioms])
  have eq: "draw_loop (Suc fuel) p = bindp (drawn_tile p) (\<lambda>m.
       if type m = FLOWER then
         thenp (update_player p (push_flower m)) (thenp (grab_tile p) (draw_loop fuel p))
       else ret 0)"
    by (rule ext) simp
  have grab: "triple (\<lambda>s. I s \<and> wall_left s < Suc fuel) (grab_tile p)
      (\<lambda>_ s. I s \<and> wall_left s < fuel) (\<lambda>e _. e \<noteq> Diverges)"
    using triple_conj [OF stays_grab_tile grab_tile_wall [of fuel p]] by (simp add: less_Suc_eq_le)
  have "triple (\<lambda>s. I s \<and> wall_left s < Suc fuel) (thenp (grab_tile p) (draw_loop fuel p))
      (\<lambda>_ s. I s \<and> wall_left s < Suc fuel) (\<lambda>e _. e \<noteq> Diverges)"
    by (rule triple_thenp [OF grab]) (rule triple_post [OF Suc.IH], simp)
  note rest = this
  show ?case
    unfolding eq
    by (intro stays_bindp stays_if stays_ret stays_thenp [OF _ rest]
        turn_invariant.stays_drawn_tile [OF inv] turn_invariant.stays_update [OF inv]
        same_capacity_shrinks capacity)
qed

lemma stays_draw: "stays I (draw p)"
  unfolding draw_def
proof (rule stays_thenp [OF stays_grab_tile], rule triple_bind_get)
  fix k
  show "triple (\<lambda>s. I s \<and> wall_left s = k) (draw_loop (Suc k) p) (\<lambda>_. I) (\<lambda>e _. e \<noteq> Diverges)"
    by (rule triple_conseq [OF stays_draw_loop]) auto
qed

end

text \<open>A draw takes at least one tile.\<close>

lemma draw_wall: "triple (\<lambda>s. wall_left s \<le> n) (draw p) (\<lambda>_ s. wall_left s < n) (\<lambda>e _. e \<noteq> Diverges)"
  unfolding draw_def
proof (rule triple_thenp [OF grab_tile_wall], rule triple_bind_get)
  fix k
  show "triple (\<lambda>s. wall_left s < n \<and> wall_left s = k) (draw_loop (Suc k) p)
      (\<lambda>_ s. wall_left s < n) (\<lambda>e _. e \<noteq> Diverges)"
    by (rule triple_conseq [OF wall_bound.stays_draw_loop [of n]]) auto
qed

subsection \<open>Winning\<close>

text \<open>The winner's hand passed the test of a drawn or of a discarded tile.\<close>

definition won :: "server \<Rightarrow> bool" where
  "won s \<longleftrightarrow> winner s \<in> {0..3} \<and>
     (let q = players s (winner s) in
      hu_check (decks q) (normal_capacity q) = Some 1 \<or>
      is_add_hu_possible (decks q) (normal_capacity q) (discarded_mj s) = Some 1)"

lemma won_world: "io.more t = io.more s \<Longrightarrow> won t = won s"
  by (drule same_game) (simp add: won_def)

interpretation no_winner: turn_invariant "\<lambda>s. winner s = -1"
  by unfold_locales (auto dest: same_game)

text \<open>A state with the same game part as another.\<close>

abbreviation like :: "server \<Rightarrow> server \<Rightarrow> bool" where
  "like s t \<equiv> io.more t = io.more s"

lemma like_tell: "triple (like s) (tell p msg) (\<lambda>_. like s) (\<lambda>e _. e \<noteq> Diverges)"
  unfolding tell_def player_of_def
  by (rule stays_bindp [OF stays_getp], rule server_chan.send_triple) auto

lemma like_hear: "triple (like s) (hear p) (\<lambda>_. like s) (\<lambda>e _. e \<noteq> Diverges)"
  unfolding hear_def player_of_def
  by (rule stays_bindp [OF stays_getp], rule server_chan.recv_triple) auto

lemma like_said_yes: "stays (like s) said_yes"
  by (simp add: said_yes_def triple_def)

lemma like_clear_recvline: "stays (like s) clear_recvline"
  by (simp add: clear_recvline_def set_recvline_def triple_def)

lemmas like_basic = like_tell like_hear like_said_yes like_clear_recvline

lemma like_player: "triple (like s) (player_of p) (\<lambda>q t. like s t \<and> q = players s p) E"
  by (auto simp: player_of_def triple_def dest: same_game)

lemma is_hu_won:
  assumes "p \<in> {0..3}"
  shows "triple (\<lambda>s. winner s = -1) (is_hu p)
     (\<lambda>h s. if h = 1 then won s else winner s = -1) (\<lambda>e _. e \<noteq> Diverges)"
proof -
  have "triple (like s) (is_hu p) (\<lambda>h t. if h = 1 then won t else winner t = -1) (\<lambda>e _. e \<noteq> Diverges)"
    if w: "winner s = -1" for s
    unfolding is_hu_def
  proof (rule triple_bindp [OF like_player], rule triple_pure, rule triple_bind_lift)
    fix q h
    assume q: "q = players s p" and h: "hu_check (decks q) (normal_capacity q) = Some h"
    have win: "triple (like s) (thenp (modp (\<lambda>s. s\<lparr>winner := p\<rparr>)) (ret (1 :: int)))
        (\<lambda>h t. if h = 1 then won t else winner t = -1) (\<lambda>e _. e \<noteq> Diverges)" if "h = 1"
      using q h that assms by (auto simp: triple_def won_def dest: same_game)
    have none: "triple (like s) (ret (0 :: int)) (\<lambda>h t. if h = 1 then won t else winner t = -1) (\<lambda>e _. e \<noteq> Diverges)"
      using w by (auto simp: triple_def dest: same_game)
    show "triple (like s) (if h = 1 then
        thenp (tell p ''can hu\<newline>'') (thenp (hear p) (bindp said_yes (\<lambda>y.
          if y then thenp clear_recvline (thenp (modp (\<lambda>s. s\<lparr>winner := p\<rparr>)) (ret 1))
          else thenp clear_recvline (ret 0))))
        else thenp (tell p ''cannot hu\<newline>'') (ret (0 :: int)))
        (\<lambda>h t. if h = 1 then won t else winner t = -1) (\<lambda>e _. e \<noteq> Diverges)"
      by (intro triple_if triple_thenp [OF like_tell] triple_thenp [OF like_hear]
          triple_bindp [OF like_said_yes] triple_thenp [OF like_clear_recvline] win none)
  qed (simp add: triple_def)
  then show ?thesis by (rule triple_from) simp_all
qed

subsection \<open>The whole turn\<close>

text \<open>What is also closed under naming a winner.\<close>

locale game_invariant = turn_invariant +
  assumes set_winner: "I s \<Longrightarrow> I (s\<lparr>winner := w\<rparr>)"
begin

lemma stays_is_hu: "stays I (is_hu p)"
  unfolding is_hu_def by (intro stays_intros stays_basic stays_modp set_winner)

end

text \<open>Every path of \<open>quiet_gang\<close> returns 0, also the one on which the player ganged.\<close>

lemma quiet_gang_zero: "triple P (quiet_gang p) (\<lambda>g _. g = 0) (\<lambda>_ _. True)"
proof -
  have ret0: "triple (\<lambda>_. True) (ret 0) (\<lambda>g _. g = (0 :: int)) (\<lambda>_ _. True)" by (simp add: triple_def)
  have any: "triple (\<lambda>_. True) m (\<lambda>_ _. True) (\<lambda>_ _. True)" for m :: "(server, 'a) prog"
    by (auto simp: triple_def split: prod.splits sum.splits)
  have "triple (\<lambda>_. True) (quiet_gang p) (\<lambda>g _. g = 0) (\<lambda>_ _. True)"
    unfolding quiet_gang_def
    by (intro triple_if triple_bindp [OF any] triple_thenp [OF any] ret0)
  then show ?thesis by (rule triple_pre) simp
qed

lemma quiet_gang_loop_once:
  assumes "triple P (quiet_gang p) (\<lambda>_. Q) E"
  shows "triple P (quiet_gang_loop (Suc n) p) (\<lambda>b s. \<not> b \<and> Q s) E"
proof -
  have eq: "quiet_gang_loop (Suc n) p = bindp (quiet_gang p) (\<lambda>g.
       if g = 1 then
         thenp (draw p) (bindp (is_hu p) (\<lambda>h. if h = 1 then ret True else quiet_gang_loop n p))
       else ret False)"
    by (rule ext) simp
  show ?thesis
    unfolding eq
  proof (rule triple_bindp)
    show "triple P (quiet_gang p) (\<lambda>g s. Q s \<and> g = 0) E"
      using triple_conj [OF assms quiet_gang_zero [of P p]] by simp
  next
    fix g :: int
    show "triple (\<lambda>s. Q s \<and> g = 0) (if g = 1 then
         thenp (draw p) (bindp (is_hu p) (\<lambda>h. if h = 1 then ret True else quiet_gang_loop n p))
       else ret False) (\<lambda>b s. \<not> b \<and> Q s) E"
      by (rule triple_pure) (simp add: triple_def)
  qed
qed

text \<open>A turn after the offer to win; it always returns 0.\<close>

abbreviation turn_tail :: "int \<Rightarrow> (server, int) prog" where
  "turn_tail p \<equiv>
     thenp (show_deck p False True) (
     bindp (getp wall_left) (\<lambda>k.
     bindp (quiet_gang_loop (Suc k) p) (\<lambda>won.
     if won then ret 1
     else
       thenp (discard p) (
       thenp (show_deck p False False) (
       ret 0)))))"

context turn_invariant
begin

lemma turn_tail_zero: "triple I (turn_tail p) (\<lambda>r s. r = 0 \<and> I s) (\<lambda>e _. e \<noteq> Diverges)"
proof (rule triple_thenp [OF stays_show_deck], rule triple_bindp [OF stays_getp])
  fix k
  have tail: "triple I (thenp (discard p) (thenp (show_deck p False False) (ret (0 :: int))))
      (\<lambda>r s. r = 0 \<and> I s) (\<lambda>e _. e \<noteq> Diverges)"
    by (rule triple_thenp [OF stays_discard], rule triple_thenp [OF stays_show_deck]) (simp add: triple_def)
  show "triple I (bindp (quiet_gang_loop (Suc k) p) (\<lambda>won. if won then ret 1
      else thenp (discard p) (thenp (show_deck p False False) (ret (0 :: int)))))
      (\<lambda>r s. r = 0 \<and> I s) (\<lambda>e _. e \<noteq> Diverges)"
    by (rule triple_bindp [OF quiet_gang_loop_once [OF stays_quiet_gang]])
      (use tail in \<open>auto simp: triple_def\<close>)
qed

end

lemma draw_n_discard_eq:
  "draw_n_discard p =
     thenp (tell p ''your turn\<newline>'') (thenp (draw p) (bindp (is_hu p) (\<lambda>h.
       if h = 1 then ret 1 else turn_tail p)))"
  by (simp add: draw_n_discard_def)

context game_invariant
begin

lemma stays_draw_n_discard: "stays I (draw_n_discard p)"
  unfolding draw_n_discard_eq
  by (intro stays_bindp stays_thenp stays_if stays_ret stays_tell stays_draw stays_is_hu stays_show_deck
      triple_post [OF turn_tail_zero]) simp

end

lemma draw_n_discard_won:
  assumes "p \<in> {0..3}"
  shows "triple (\<lambda>s. winner s = -1) (draw_n_discard p)
     (\<lambda>r s. if r = 1 then won s else winner s = -1) (\<lambda>e _. e \<noteq> Diverges)"
  unfolding draw_n_discard_eq
proof (rule triple_thenp [OF no_winner.stays_tell], rule triple_thenp [OF no_winner.stays_draw],
    rule triple_bindp [OF is_hu_won [OF assms]])
  fix h :: int
  show "triple (\<lambda>s. if h = 1 then won s else winner s = -1) (if h = 1 then ret 1 else turn_tail p)
      (\<lambda>r s. if r = 1 then won s else winner s = -1) (\<lambda>e _. e \<noteq> Diverges)"
    by (cases "h = 1") (auto simp: triple_ret intro: triple_post [OF no_winner.turn_tail_zero])
qed

interpretation wall_shrinks: game_invariant "\<lambda>s. wall_left s < n" for n
  by unfold_locales (simp add: wall_left_def)

lemma draw_n_discard_wall:
  "triple (\<lambda>s. wall_left s \<le> n) (draw_n_discard p) (\<lambda>_ s. wall_left s < n) (\<lambda>e _. e \<noteq> Diverges)"
proof -
  have tell: "triple (\<lambda>s. wall_left s \<le> n) (tell p msg) (\<lambda>_ s. wall_left s \<le> n) (\<lambda>e _. e \<noteq> Diverges)" for msg
    using wall_bound.stays_tell [of "Suc n"] by (simp add: less_Suc_eq_le)
  show ?thesis
    unfolding draw_n_discard_eq
    by (rule triple_thenp [OF tell], rule triple_thenp [OF draw_wall])
      (intro stays_bindp stays_if stays_ret wall_shrinks.stays_is_hu triple_post [OF wall_bound.turn_tail_zero], simp)
qed

end
