(* ===== verification/Reaction.thy ===== *)
theory Reaction
  imports ServerTurn "HOL-Library.Signed_Division"
begin

text \<open>
  The reaction of the other players to a discarded tile (\<open>othersreaction\<close>): win with it, gang,
  pong, eat, or let it go to the sea. The C writes the gang and the pong out three times, for the
  players behind the current one; here each is a definition with the distance \<open>k\<close> as argument.
  The pointer argument \<open>playernowp\<close> is the argument and the second part of the value. A claim
  ends with a discard and a recursive call, whose result is dropped as in the code.
\<close>

subsection \<open>What a hand can do with the tile\<close>

definition is_gang_possible :: "mj list \<Rightarrow> int \<Rightarrow> mj \<Rightarrow> int option" where
  "is_gang_possible deck nc discarded = do {
     cnt \<leftarrow> count_tiles deck nc;
     c \<leftarrow> count_get cnt (mj_index discarded);
     Some (if c \<ge> 3 then 1 else 0)
   }"

definition is_pong_possible :: "mj list \<Rightarrow> int \<Rightarrow> mj \<Rightarrow> int option" where
  "is_pong_possible deck nc discarded = do {
     cnt \<leftarrow> count_tiles deck nc;
     c \<leftarrow> count_get cnt (mj_index discarded);
     Some (if c \<ge> 2 then 1 else 0)
   }"

text \<open>
  One of the three conditions of \<open>is_eat_possible\<close>: tiles at the indices \<open>a\<close> and \<open>b\<close> and all
  of one suit. The conjunction is evaluated from left to right and stops at the first false
  part; the guards only bound the side on which the index can leave the array.
\<close>

definition guard_ok :: "int \<Rightarrow> int \<Rightarrow> bool" where
  "guard_ok t k = (if t < k then k < 34 else 0 \<le> k)"

definition eat_with :: "counts \<Rightarrow> int \<Rightarrow> int \<Rightarrow> int \<Rightarrow> bool option" where
  "eat_with cnt t a b =
     (if guard_ok t a then do {
        x \<leftarrow> count_get cnt a;
        if x \<ge> 1 \<and> guard_ok t b then do {
          y \<leftarrow> count_get cnt b;
          Some (y \<ge> 1 \<and> t sdiv 9 = a sdiv 9 \<and> t sdiv 9 = b sdiv 9)
        }
        else Some False
      }
      else Some False)"

definition is_eat_possible :: "mj list \<Rightarrow> int \<Rightarrow> mj \<Rightarrow> int option" where
  "is_eat_possible deck nc discarded =
     (if type discarded = DAZI then Some 0
      else do {
        cnt \<leftarrow> count_tiles deck nc;
        let t = mj_index discarded;
        c1 \<leftarrow> eat_with cnt t (t + 1) (t + 2);
        if c1 then Some 1
        else do {
          c2 \<leftarrow> eat_with cnt t (t + 1) (t - 1);
          if c2 then Some 1
          else do {
            c3 \<leftarrow> eat_with cnt t (t - 2) (t - 1);
            Some (if c3 then 1 else 0)
          }
        }
      })"

subsection \<open>Case 0: others may be able to win\<close>

definition seat_after :: "int \<Rightarrow> int \<Rightarrow> int" where
  "seat_after p k = (p + k) mod 4"

text \<open>The question to one player; the value says whether the answer is yes.\<close>

definition ask :: "int \<Rightarrow> string \<Rightarrow> (server, bool) prog" where
  "ask i question = thenp (tell i question) (thenp (hear i) said_yes)"

text \<open>One of the predicates above on a player's hand and the discarded tile.\<close>

definition possible :: "(mj list \<Rightarrow> int \<Rightarrow> mj \<Rightarrow> int option) \<Rightarrow> int \<Rightarrow> (server, int) prog" where
  "possible f i =
     bindp (player_of i) (\<lambda>q.
     bindp (getp discarded_mj) (\<lambda>d.
     liftp (f (decks q) (normal_capacity q) d)))"

definition try_hu :: "int \<Rightarrow> int \<Rightarrow> (server, (int \<times> int) option) prog" where
  "try_hu playernow k =
     bindp (possible is_add_hu_possible (seat_after playernow k)) (\<lambda>h.
     if h = 1 then
       bindp (ask (seat_after playernow k) ''(Hu) You actually can hu already, proceed? [Y/n]\<newline>'') (\<lambda>y.
       if y then
         thenp (modp (\<lambda>s. s\<lparr>winner := seat_after playernow k\<rparr>)) (ret (Some (1, playernow)))
       else ret None)
     else ret None)"

definition hu_claims :: "int \<Rightarrow> (server, (int \<times> int) option) prog" where
  "hu_claims playernow = firstp [1, 2, 3] (try_hu playernow)"

subsection \<open>The rest of a claim\<close>

text \<open>
  After the meld is on the door: a win, or a discard and the reactions to it. The parameter
  \<open>rec\<close> is the recursive call.
\<close>

definition claim_turn :: "(int \<Rightarrow> (server, int \<times> int) prog) \<Rightarrow> int \<Rightarrow> (server, (int \<times> int) option) prog" where
  "claim_turn rec p =
     bindp (is_hu p) (\<lambda>h.
     if h = 1 then ret (Some (1, p))
     else
       thenp (discard p) (
       bindp (rec p) (\<lambda>(_, p').
       thenp clear_recvline (
       ret (Some (0, p'))))))"

definition announce :: "int \<Rightarrow> string \<Rightarrow> (server, int) prog" where
  "announce p what = tell_others p (''(Announce) player '' @ show_int p @ what)"

subsection \<open>Case 1: gang\<close>

definition try_gang ::
  "(int \<Rightarrow> (server, int \<times> int) prog) \<Rightarrow> int \<Rightarrow> int \<Rightarrow> (server, (int \<times> int) option) prog" where
  "try_gang rec playernow k =
     bindp (possible is_gang_possible (seat_after playernow k)) (\<lambda>g.
     if g = 1 then
       bindp (ask (seat_after playernow k) ''You can gang.\<newline>'') (\<lambda>y.
       if y then
         let p = seat_after playernow k in
         bindp (getp discarded_mj) (\<lambda>d.
         thenp (update_player p (gang_tiles d)) (
         thenp (announce p '' ganged it\<newline>'') (
         thenp clear_discarded (
         thenp (draw p) (
         claim_turn rec p)))))
       else ret None)
     else ret None)"

definition gang_claims ::
  "(int \<Rightarrow> (server, int \<times> int) prog) \<Rightarrow> int \<Rightarrow> (server, (int \<times> int) option) prog" where
  "gang_claims rec playernow = firstp [1, 2, 3] (try_gang rec playernow)"

subsection \<open>Case 2: pong\<close>

definition pong_tiles :: "mj \<Rightarrow> player \<Rightarrow> player option" where
  "pong_tiles target q = do {
     q \<leftarrow> push_door target q;
     q \<leftarrow> claim_loop target [0..normal_capacity q - 1] 2 q;
     q \<leftarrow> compact_loop 3 [0..normal_capacity q - 1] 2 q;
     let q = q\<lparr>normal_capacity := normal_capacity q - 3\<rparr>;
     sort_deck 0 (normal_capacity q) q
   }"

definition try_pong ::
  "(int \<Rightarrow> (server, int \<times> int) prog) \<Rightarrow> int \<Rightarrow> int \<Rightarrow> (server, (int \<times> int) option) prog" where
  "try_pong rec playernow k =
     bindp (possible is_pong_possible (seat_after playernow k)) (\<lambda>g.
     if g = 1 then
       bindp (ask (seat_after playernow k) ''You can pong.\<newline>'') (\<lambda>y.
       if y then
         let p = seat_after playernow k in
         bindp (getp discarded_mj) (\<lambda>d.
         thenp (update_player p (pong_tiles d)) (
         thenp (announce p '' ponged it\<newline>'') (
         thenp clear_discarded (
         claim_turn rec p))))
       else ret None)
     else ret None)"

definition pong_claims ::
  "(int \<Rightarrow> (server, int \<times> int) prog) \<Rightarrow> int \<Rightarrow> (server, (int \<times> int) option) prog" where
  "pong_claims rec playernow = firstp [1, 2, 3] (try_pong rec playernow)"

subsection \<open>Case 3: eat\<close>

text \<open>\<open>sscanf(recvline, "%d %d", &eatindex1, &eatindex2)\<close> on two variables that hold -1.\<close>

definition read_two :: "string \<Rightarrow> (int \<times> int) option" where
  "read_two l =
     (case sscanf_d l of
        Value i r \<Rightarrow>
          (case sscanf_d r of Value j _ \<Rightarrow> Some (i, j) | NoMatch \<Rightarrow> Some (i, -1) | Overflow \<Rightarrow> None)
      | NoMatch \<Rightarrow> Some (-1, -1)
      | Overflow \<Rightarrow> None)"

definition eat_temp :: "mj list \<Rightarrow> int \<Rightarrow> int \<Rightarrow> mj \<Rightarrow> mj list option" where
  "eat_temp deck e1 e2 discarded = do {
     a \<leftarrow> at deck e1;
     b \<leftarrow> at deck e2;
     decks_quick_sort [a, b, discarded] 0 2
   }"

definition eatable :: "mj list \<Rightarrow> bool" where
  "eatable t =
     (type (t ! 0) = type (t ! 1) \<and> type (t ! 1) = type (t ! 2) \<and>
      number (t ! 0) = number (t ! 1) - 1 \<and> number (t ! 1) = number (t ! 2) - 1)"

definition eat_tiles :: "int \<Rightarrow> int \<Rightarrow> mj list \<Rightarrow> player \<Rightarrow> player option" where
  "eat_tiles e1 e2 t q = do {
     q \<leftarrow> push_door (t ! 0) q;
     q \<leftarrow> push_door (t ! 1) q;
     q \<leftarrow> push_door (t ! 2) q;
     q \<leftarrow> clear_deck e1 q;
     q \<leftarrow> clear_deck e2 q;
     q \<leftarrow> swap_deck e1 (normal_capacity q - 1) q;
     swap_deck e2 (normal_capacity q - 2) q
   }"

definition leave_three :: "player \<Rightarrow> player option" where
  "leave_three q = (let q = q\<lparr>normal_capacity := normal_capacity q - 3\<rparr> in sort_deck 0 (normal_capacity q) q)"

text \<open>The loop that asks for the two tiles until they fit; with fuel. \<open>again\<close> is its next turn.\<close>

definition eat_turn :: "(server, unit) prog \<Rightarrow> int \<Rightarrow> (server, unit) prog" where
  "eat_turn again p =
     thenp (tell p ''Type which 2 of the mjs you want to eat with: \<newline>'') (
     thenp (hear p) (
     bindp (getp recvline) (\<lambda>l.
     bindp (liftp (read_two l)) (\<lambda>(e1, e2).
     thenp clear_recvline (
     bindp (player_of p) (\<lambda>q.
     bindp (getp discarded_mj) (\<lambda>d.
     bindp (liftp (eat_temp (decks q) e1 e2 d)) (\<lambda>t.
     if eatable t then
       thenp (tell p ''eatable.\<newline>'') (
       update_player p (eat_tiles e1 e2 t))
     else
       thenp (tell p ''invalid choice.\<newline>'') again))))))))"

fun eat_loop :: "nat \<Rightarrow> int \<Rightarrow> (server, unit) prog" where
  "eat_loop 0 p s = failp Diverges s"
| "eat_loop (Suc fuel) p s = eat_turn (eat_loop fuel p) p s"

text \<open>Every turn of the loop reads from the player, so what is unread bounds how often it turns.\<close>

definition try_eat ::
  "(int \<Rightarrow> (server, int \<times> int) prog) \<Rightarrow> int \<Rightarrow> (server, (int \<times> int) option) prog" where
  "try_eat rec playernow =
     bindp (possible is_eat_possible (seat_after playernow 1)) (\<lambda>g.
     if g = 1 then
       bindp (ask (seat_after playernow 1) ''You can eat.\<newline>'') (\<lambda>y.
       if y then
         let p = seat_after playernow 1 in
         bindp (getp (\<lambda>s. unread (player_fd (players s p)) s)) (\<lambda>k.
         thenp (eat_loop (Suc k) p) (
         thenp (update_player p leave_three) (
         thenp (announce p '' ate it\<newline>'') (
         thenp clear_discarded (
         claim_turn rec p)))))
       else ret None)
     else ret None)"

subsection \<open>The whole reaction\<close>

definition no_claim :: "int \<Rightarrow> (server, (int \<times> int) option) prog" where
  "no_claim p =
     thenp (tell p ''no one wants it.\<newline>'') (
     bindp (getp discarded_mj) (\<lambda>d.
     thenp (update_player p (push_sea d)) (
     bindp (player_of p) (\<lambda>q.
     thenp (printf (''this is sea_index: '' @ show_int (sea_index q) @ ''\<newline>'')) (
     thenp clear_discarded (
     thenp (printf ''exiting othersreaction\<newline>'') (
     ret (Some (0, p)))))))))"

text \<open>The five cases in order; each of them returns or passes on.\<close>

datatype reaction = Hu | Gang | Pong | Eat | Nobody

fun react :: "(int \<Rightarrow> (server, int \<times> int) prog) \<Rightarrow> int \<Rightarrow> reaction \<Rightarrow> (server, (int \<times> int) option) prog" where
  "react rec p Hu = hu_claims p"
| "react rec p Gang = gang_claims rec p"
| "react rec p Pong = pong_claims rec p"
| "react rec p Eat = try_eat rec p"
| "react rec p Nobody = no_claim p"

fun othersreaction :: "nat \<Rightarrow> int \<Rightarrow> (server, int \<times> int) prog" where
  "othersreaction 0 p s = failp Diverges s"
| "othersreaction (Suc fuel) p s =
     bindp (firstp [Hu, Gang, Pong, Eat, Nobody] (react (othersreaction fuel) p)) (\<lambda>r.
       case r of Some x \<Rightarrow> ret x | None \<Rightarrow> ret (0, p)) s"

text \<open>Every claim takes tiles out of a hand, so the tiles in hand bound the depth.\<close>

definition claims_left :: "server \<Rightarrow> nat" where
  "claims_left s = (\<Sum>p \<leftarrow> [0, 1, 2, 3]. nat (normal_capacity (players s p)))"

subsection \<open>What the reaction keeps\<close>

lemma pong_tiles_capacity:
  "pong_tiles target q = Some q' \<Longrightarrow> normal_capacity q' = normal_capacity q - 3"
  by (auto simp: pong_tiles_def bind_eq_Some_conv Let_def
      dest!: same_capacityD [OF claim_loop_capacity] same_capacityD [OF compact_loop_capacity]
        same_capacityD [OF capacity_basic(3)] same_capacityD [OF capacity_basic(5)])

lemma leave_three_capacity:
  "leave_three q = Some q' \<Longrightarrow> normal_capacity q' = normal_capacity q - 3"
  by (auto simp: leave_three_def Let_def dest!: same_capacityD [OF capacity_basic(5)])

lemma pong_tiles_shape: "pong_tiles target q = Some q' \<Longrightarrow> shape q \<Longrightarrow> shape q'"
  by (auto simp: pong_tiles_def bind_eq_Some_conv Let_def
      dest!: same_capacity_shape [OF claim_loop_capacity] same_capacity_shape [OF compact_loop_capacity]
        same_capacity_shape [OF capacity_basic(3)] same_capacity_shape [OF capacity_basic(5)])

lemma leave_three_shape: "leave_three q = Some q' \<Longrightarrow> shape q \<Longrightarrow> shape q'"
  by (auto simp: leave_three_def Let_def dest!: same_capacity_shape [OF capacity_basic(5)])

lemma eat_tiles_capacity [capacity]: "same_capacity (eat_tiles e1 e2 t)"
  by (auto simp: same_capacity_def eat_tiles_def bind_eq_Some_conv
      dest!: same_capacityE [OF capacity_basic(3)] same_capacityE [OF capacity_basic(6)] same_capacityE [OF capacity_clear])

text \<open>What takes three tiles out of a hand.\<close>

definition takes_three :: "(player \<Rightarrow> player option) \<Rightarrow> bool" where
  "takes_three f \<longleftrightarrow>
     (\<forall>q q'. f q = Some q' \<longrightarrow> normal_capacity q' = normal_capacity q - 3 \<and> (shape q \<longrightarrow> shape q'))"

lemma takes_three: "takes_three (gang_tiles d)" "takes_three (pong_tiles d)" "takes_three leave_three"
  by (simp_all add: takes_three_def gang_tiles_capacity pong_tiles_capacity leave_three_capacity
      gang_tiles_shape pong_tiles_shape leave_three_shape)

lemma takes_three_shrinks: "takes_three f \<Longrightarrow> shrinks f"
  by (simp add: takes_three_def shrinks_def)

text \<open>An empty hand can claim nothing.\<close>

lemma count_tiles_empty: "nc \<le> 0 \<Longrightarrow> count_tiles deck nc = Some (\<lambda>_. 0)"
  by (simp add: count_tiles_def)

lemma gang_possible_pos: "is_gang_possible deck nc d = Some 1 \<Longrightarrow> 0 < nc"
  by (rule ccontr) (auto simp: is_gang_possible_def count_tiles_empty count_get_def bind_eq_Some_conv split: if_splits)

lemma pong_possible_pos: "is_pong_possible deck nc d = Some 1 \<Longrightarrow> 0 < nc"
  by (rule ccontr) (auto simp: is_pong_possible_def count_tiles_empty count_get_def bind_eq_Some_conv split: if_splits)

lemma eat_with_empty: "eat_with (\<lambda>_. 0) t a b = Some c \<Longrightarrow> \<not> c"
  by (auto simp: eat_with_def count_get_def split: if_splits)

lemma eat_possible_pos: "is_eat_possible deck nc d = Some 1 \<Longrightarrow> 0 < nc"
  by (rule ccontr)
    (auto simp: is_eat_possible_def count_tiles_empty bind_eq_Some_conv Let_def
      split: if_splits dest!: eat_with_empty)

interpretation claims_bound: game_invariant "\<lambda>s. claims_left s < n" for n
proof unfold_locales
  fix s t :: server assume "io.more t = io.more s" "claims_left s < n"
  then show "claims_left t < n" by (auto simp: claims_left_def dest: same_game)
next
  fix s :: server and q :: player and p
  assume n: "claims_left s < n" and q: "normal_capacity q \<le> normal_capacity (players s p)"
  have "claims_left (s\<lparr>players := (players s)(p := q)\<rparr>) \<le> claims_left s"
    using q by (auto simp: claims_left_def nat_mono)
  with n show "claims_left (s\<lparr>players := (players s)(p := q)\<rparr>) < n" by simp
qed (simp_all add: claims_left_def)

lemma game_invariant_conj:
  assumes "game_invariant I" and "game_invariant J"
  shows "game_invariant (\<lambda>s. I s \<and> J s)"
proof (rule game_invariant.intro)
  show "turn_invariant (\<lambda>s. I s \<and> J s)"
    using assms [THEN game_invariant.axioms(1)] by (rule turn_invariant_conj)
  show "game_invariant_axioms (\<lambda>s. I s \<and> J s)"
    by (rule game_invariant_axioms.intro) (auto intro: assms [THEN game_invariant.set_winner])
qed

text \<open>A player in one of the four seats who has tiles and loses three leaves fewer claims.\<close>

lemma seat_range [simp]: "seat_after p k \<in> {0..3}" "0 \<le> seat_after p k" "seat_after p k \<le> 3"
  using pos_mod_bound [of 4 "p + k"] by (simp_all add: seat_after_def)

lemma claims_left_less:
  assumes "p \<in> {0..3}" and "normal_capacity q < normal_capacity (players s p)"
    and "0 < normal_capacity (players s p)"
  shows "claims_left (s\<lparr>players := (players s)(p := q)\<rparr>) < claims_left s"
proof -
  have "p = 0 \<or> p = 1 \<or> p = 2 \<or> p = 3" using assms(1) by auto
  moreover have "nat (normal_capacity q) < nat (normal_capacity (players s p))" using assms by simp
  ultimately show ?thesis by (auto simp: claims_left_def)
qed

context turn_invariant
begin

lemma stays_possible: "stays I (possible f i)"
  unfolding possible_def by (intro stays_intros stays_basic)

lemma stays_ask: "stays I (ask i msg)"
  unfolding ask_def by (intro stays_intros stays_basic)

lemma stays_announce: "stays I (announce p msg)"
  unfolding announce_def by (intro stays_basic)

lemma stays_no_claim: "stays I (no_claim p)"
  unfolding no_claim_def
  by (intro stays_intros stays_basic stays_update same_capacity_shrinks capacity)

end

text \<open>The predicates only read the state.\<close>

lemma possible_run:
  "possible f i s =
     (case f (decks (players s i)) (normal_capacity (players s i)) (discarded_mj s) of
        None \<Rightarrow> (Inl Undefined, s) | Some v \<Rightarrow> (Inr v, s))"
  by (simp add: possible_def player_of_def split: option.split)

lemma possible_triple:
  "triple P (possible f i)
     (\<lambda>v s. P s \<and> f (decks (players s i)) (normal_capacity (players s i)) (discarded_mj s) = Some v)
     (\<lambda>e _. e \<noteq> Diverges)"
  by (rule tripleI) (auto simp: possible_run split: option.splits)

subsection \<open>The reaction ends\<close>

text \<open>
  A question changes only the world of messages, so what is known of the hand stays known.
\<close>

lemma ask_triple:
  assumes "\<And>s t. io.more t = io.more s \<Longrightarrow> P s \<Longrightarrow> P t"
  shows "stays P (ask i msg)"
  unfolding ask_def tell_def hear_def player_of_def said_yes_def
  by (intro stays_thenp stays_bindp stays_getp server_chan.send_triple server_chan.recv_triple)
    (use assms in auto)

text \<open>One attempt at a claim, whose meld is made by \<open>f\<close>; what follows may assume one claim less.\<close>

lemma claim_step:
  assumes I: "game_invariant I" and f: "takes_three f"
    and rest: "stays (\<lambda>s. I s \<and> claims_left s < n) rest"
  shows "triple (\<lambda>s. (I s \<and> claims_left s < Suc n) \<and> 0 < normal_capacity (players s (seat_after p k)))
     (thenp (update_player (seat_after p k) f) rest)
     (\<lambda>_ s. I s \<and> claims_left s < Suc n) (\<lambda>e _. e \<noteq> Diverges)"
proof (rule triple_thenp)
  show "triple (\<lambda>s. (I s \<and> claims_left s < Suc n) \<and> 0 < normal_capacity (players s (seat_after p k)))
     (update_player (seat_after p k) f) (\<lambda>_ s. I s \<and> claims_left s < n) (\<lambda>e _. e \<noteq> Diverges)"
  proof (rule tripleI)
    fix s t and u :: unit
    assume P: "(I s \<and> claims_left s < Suc n) \<and> 0 < normal_capacity (players s (seat_after p k))"
      and run: "update_player (seat_after p k) f s = (Inr u, t)"
    from run obtain q where q: "f (players s (seat_after p k)) = Some q"
      and t: "t = s\<lparr>players := (players s)(seat_after p k := q)\<rparr>"
      by (auto simp: update_player_run split: option.splits)
    from f q have nc: "normal_capacity q = normal_capacity (players s (seat_after p k)) - 3"
      "shape (players s (seat_after p k)) \<Longrightarrow> shape q"
      by (simp_all add: takes_three_def)
    have "I t" unfolding t
      using turn_invariant.set_player [OF game_invariant.axioms(1) [OF I]] P nc by simp
    moreover have "claims_left t < claims_left s"
      unfolding t using P nc by (intro claims_left_less) auto
    ultimately show "I t \<and> claims_left t < n" using P by simp
  qed (auto simp: update_player_run split: option.splits)
  show "triple (\<lambda>s. I s \<and> claims_left s < n) rest (\<lambda>_ s. I s \<and> claims_left s < Suc n) (\<lambda>e _. e \<noteq> Diverges)"
    by (rule triple_post [OF rest]) simp
qed

context game_invariant
begin

abbreviation bounded :: "nat \<Rightarrow> server \<Rightarrow> bool" where
  "bounded n s \<equiv> I s \<and> claims_left s < n"

lemma bounded_invariant: "game_invariant (bounded n)"
  by (rule game_invariant_conj [OF game_invariant_axioms claims_bound.game_invariant_axioms])

lemma bounded_turn: "turn_invariant (bounded n)"
  by (rule game_invariant.axioms(1) [OF bounded_invariant])

lemma stays_claim_turn:
  assumes "\<And>p. stays I (rec p)"
  shows "stays I (claim_turn rec p)"
  unfolding claim_turn_def
  by (intro stays_intros stays_basic stays_is_hu stays_discard assms)

lemma stays_hu_claims: "stays I (hu_claims p)"
  unfolding hu_claims_def try_hu_def
  by (intro stays_intros stays_basic stays_possible stays_ask stays_modp set_winner)

end

subsection \<open>Eating\<close>

text \<open>
  A turn of the loop that does not end it has read a line from the player, so what the player
  can still send bounds the loop. Here \<open>P\<close> is kept by everything the loop does.
\<close>

lemma eat_tiles_fd: "eat_tiles e1 e2 t q = Some q' \<Longrightarrow> player_fd q' = player_fd q"
  by (auto simp: eat_tiles_def push_door_def clear_deck_def put_deck_def swap_deck_def bind_eq_Some_conv)

lemma eat_loop_ends:
  assumes world: "\<And>s t. io.more t = io.more s \<Longrightarrow> P s \<Longrightarrow> P t"
    and eat: "\<And>s e1 e2 t q. P s \<Longrightarrow> eat_tiles e1 e2 t (players s p) = Some q \<Longrightarrow>
      P (s\<lparr>players := (players s)(p := q)\<rparr>)"
  shows "triple (\<lambda>s. P s \<and> player_fd (players s p) = fd \<and> unread fd s < fuel) (eat_loop fuel p)
     (\<lambda>_. P) (\<lambda>e _. e \<noteq> Diverges)"
proof (induction fuel)
  case 0
  then show ?case by (simp add: triple_def)
next
  case (Suc fuel)
  let ?I = "\<lambda>n s. P s \<and> player_fd (players s p) = fd \<and> unread fd s < n"
  have tell: "triple (?I n) (tell p msg) (\<lambda>_. ?I n) (\<lambda>e _. e \<noteq> Diverges)" for n msg
    unfolding tell_def player_of_def
    by (rule tripleI)
      (auto dest: server_chan.send_Inl server_chan.send_more [THEN world] server_chan.send_unread
        server_chan.send_more [THEN same_game] elim!: bindp_InrE)
  have hear: "triple (?I (Suc fuel)) (hear p) (\<lambda>_. ?I fuel) (\<lambda>e _. e \<noteq> Diverges)"
    unfolding hear_def player_of_def
    by (rule tripleI)
      (fastforce dest: server_chan.recv_Inl server_chan.recv_more [THEN world] server_chan.recv_unread
        server_chan.recv_more [THEN same_game] elim!: bindp_InrE)+
  have clear: "triple (?I n) clear_recvline (\<lambda>_. ?I n) (\<lambda>e _. e \<noteq> Diverges)" for n
    unfolding clear_recvline_def set_recvline_def by (rule triple_modp) (auto intro: world)
  have done_it: "triple (?I fuel) (update_player p (eat_tiles e1 e2 t)) (\<lambda>_. P) (\<lambda>e _. e \<noteq> Diverges)"
    for e1 e2 t
    by (rule tripleI) (auto simp: update_player_run intro: eat split: option.splits)
  have eq: "eat_loop (Suc fuel) p = eat_turn (eat_loop fuel p) p" by (rule ext) simp
  show ?case
    unfolding eq eat_turn_def player_of_def
    by (intro triple_thenp [OF tell] triple_thenp [OF hear] stays_bindp [OF stays_getp]
        triple_bindp [OF stays_getp] triple_bindp [OF stays_liftp]
        triple_case_prod triple_thenp [OF clear] triple_if done_it Suc.IH)
qed

context turn_invariant
begin

lemma stays_eat_loop:
  "triple (\<lambda>s. I s \<and> unread (player_fd (players s p)) s = k) (eat_loop (Suc k) p) (\<lambda>_. I) (\<lambda>e _. e \<noteq> Diverges)"
proof (rule triple_ghost [of _ "\<lambda>s. player_fd (players s p)"])
  fix fd
  have "triple (\<lambda>s. I s \<and> player_fd (players s p) = fd \<and> unread fd s < Suc k) (eat_loop (Suc k) p)
      (\<lambda>_. I) (\<lambda>e _. e \<noteq> Diverges)"
  proof (rule eat_loop_ends)
    show "I (s\<lparr>players := (players s)(p := q)\<rparr>)"
      if "I s" "eat_tiles e1 e2 t (players s p) = Some q" for s e1 e2 t q
      by (rule set_player [OF that(1)]) (simp_all add: same_capacityE [OF eat_tiles_capacity that(2)])
  qed (rule world)
  then show "triple (\<lambda>s. (I s \<and> unread (player_fd (players s p)) s = k) \<and> player_fd (players s p) = fd)
      (eat_loop (Suc k) p) (\<lambda>_. I) (\<lambda>e _. e \<noteq> Diverges)"
    by (rule triple_pre) auto
qed

end

subsection \<open>The depth of the recursion\<close>

text \<open>
  A claim: if the hand can make the meld and the player says yes, \<open>body\<close> is run. All three kinds
  have this form.
\<close>

lemma claim_attempt:
  assumes world: "\<And>s t. io.more t = io.more s \<Longrightarrow> P s \<Longrightarrow> P t"
    and pos: "\<And>deck nc d. f deck nc d = Some 1 \<Longrightarrow> 0 < nc"
    and body: "triple (\<lambda>s. P s \<and> 0 < normal_capacity (players s i)) body (\<lambda>_. P) (\<lambda>e _. e \<noteq> Diverges)"
  shows "stays P (bindp (possible f i) (\<lambda>g. if g = 1 then bindp (ask i msg) (\<lambda>y. if y then body else ret None)
     else ret None))"
proof (rule triple_bindp [OF possible_triple])
  fix g :: int
  let ?Q = "\<lambda>s. P s \<and> 0 < normal_capacity (players s i)"
  have ask: "stays ?Q (ask i msg)" by (rule ask_triple) (auto dest: same_game world)
  have none: "triple Q (ret None) (\<lambda>_. Q) (\<lambda>e _. e \<noteq> Diverges)" for Q :: "server \<Rightarrow> bool"
    by (rule stays_ret)
  have yes: "triple ?Q (bindp (ask i msg) (\<lambda>y. if y then body else ret None)) (\<lambda>_. P) (\<lambda>e _. e \<noteq> Diverges)"
    by (rule triple_bindp [OF ask]) (auto intro: body triple_ret)
  show "triple (\<lambda>s. P s \<and> f (decks (players s i)) (normal_capacity (players s i)) (discarded_mj s) = Some g)
     (if g = 1 then bindp (ask i msg) (\<lambda>y. if y then body else ret None) else ret None) (\<lambda>_. P)
     (\<lambda>e _. e \<noteq> Diverges)"
    by (cases "g = 1") (auto intro: triple_pre [OF yes] triple_ret pos)
qed

context game_invariant
begin

lemma stays_try_gang:
  assumes rec: "\<And>p. stays (bounded n) (rec p)"
  shows "stays (bounded (Suc n)) (try_gang rec playernow k)"
proof -
  let ?p = "seat_after playernow k"
  have rest: "stays (bounded n) (thenp (announce ?p m) (thenp clear_discarded (thenp (draw ?p) (claim_turn rec ?p))))" for m
    by (intro stays_thenp turn_invariant.stays_announce [OF bounded_turn]
        turn_invariant.stays_clear_discarded [OF bounded_turn] turn_invariant.stays_draw [OF bounded_turn]
        game_invariant.stays_claim_turn [OF bounded_invariant] rec)
  show ?thesis
    unfolding try_gang_def Let_def
    by (rule claim_attempt, erule (1) turn_invariant.world [OF bounded_turn], erule gang_possible_pos,
        rule triple_bindp [OF stays_getp], rule claim_step [OF game_invariant_axioms takes_three(1) rest])
qed

lemma stays_try_pong:
  assumes rec: "\<And>p. stays (bounded n) (rec p)"
  shows "stays (bounded (Suc n)) (try_pong rec playernow k)"
proof -
  let ?p = "seat_after playernow k"
  have rest: "stays (bounded n) (thenp (announce ?p m) (thenp clear_discarded (claim_turn rec ?p)))" for m
    by (intro stays_thenp turn_invariant.stays_announce [OF bounded_turn]
        turn_invariant.stays_clear_discarded [OF bounded_turn]
        game_invariant.stays_claim_turn [OF bounded_invariant] rec)
  show ?thesis
    unfolding try_pong_def Let_def
    by (rule claim_attempt, erule (1) turn_invariant.world [OF bounded_turn], erule pong_possible_pos,
        rule triple_bindp [OF stays_getp], rule claim_step [OF game_invariant_axioms takes_three(2) rest])
qed

lemma stays_try_eat:
  assumes rec: "\<And>p. stays (bounded n) (rec p)"
  shows "stays (bounded (Suc n)) (try_eat rec playernow)"
proof -
  let ?p = "seat_after playernow 1"
  let ?Q = "\<lambda>s. bounded (Suc n) s \<and> 0 < normal_capacity (players s ?p)"
  have rest: "stays (bounded n) (thenp (announce ?p m) (thenp clear_discarded (claim_turn rec ?p)))" for m
    by (intro stays_thenp turn_invariant.stays_announce [OF bounded_turn]
        turn_invariant.stays_clear_discarded [OF bounded_turn]
        game_invariant.stays_claim_turn [OF bounded_invariant] rec)
  have loop: "triple (\<lambda>s. ?Q s \<and> player_fd (players s ?p) = fd \<and> unread fd s < fuel) (eat_loop fuel ?p)
     (\<lambda>_. ?Q) (\<lambda>e _. e \<noteq> Diverges)" for fd fuel
  proof (rule eat_loop_ends)
    show "?Q t" if "io.more t = io.more s" "?Q s" for s t
      using that turn_invariant.world [OF bounded_turn that(1)] by (auto dest: same_game)
    show "?Q (s\<lparr>players := (players s)(?p := q)\<rparr>)"
      if "?Q s" "eat_tiles e1 e2 t (players s ?p) = Some q" for s e1 e2 t q
      using that turn_invariant.set_player [OF bounded_turn, of s "Suc n" q ?p]
      by (simp add: same_capacityE [OF eat_tiles_capacity that(2)])
  qed
  have loop': "triple (\<lambda>s. ?Q s \<and> unread (player_fd (players s ?p)) s = k) (eat_loop (Suc k) ?p)
     (\<lambda>_. ?Q) (\<lambda>e _. e \<noteq> Diverges)" for k
    by (rule triple_ghost [of _ "\<lambda>s. player_fd (players s ?p)"], rule triple_pre [OF loop]) auto
  show ?thesis
    unfolding try_eat_def Let_def
    by (rule claim_attempt, erule (1) turn_invariant.world [OF bounded_turn], erule eat_possible_pos,
        rule triple_bind_get, rule triple_thenp [OF loop'],
        rule claim_step [OF game_invariant_axioms takes_three(3) rest])
qed

lemma stays_react:
  assumes rec: "\<And>p. stays (bounded n) (rec p)"
  shows "stays (bounded (Suc n)) (react rec p c)"
  by (cases c)
    (auto simp: gang_claims_def pong_claims_def
      intro!: stays_firstp stays_try_gang stays_try_pong stays_try_eat rec
        game_invariant.stays_hu_claims [OF bounded_invariant]
        turn_invariant.stays_no_claim [OF bounded_turn])

lemma stays_othersreaction: "stays (bounded fuel) (othersreaction fuel p)"
proof (induction fuel arbitrary: p)
  case 0
  then show ?case by (simp add: triple_def)
next
  case (Suc fuel)
  have eq: "othersreaction (Suc fuel) p =
      bindp (firstp [Hu, Gang, Pong, Eat, Nobody] (react (othersreaction fuel) p)) (\<lambda>r.
        case r of Some x \<Rightarrow> ret x | None \<Rightarrow> ret (0, p))"
    by (rule ext) simp
  show ?case
    unfolding eq by (intro stays_bindp stays_firstp stays_react Suc.IH stays_case_option stays_ret)
qed

end

subsection \<open>No false win\<close>

text \<open>
  What a reaction leaves behind: when it returns 1 the winner's hand passed the test; when it
  returns 0 either nobody has won, or a player has won in a recursive call whose result was
  dropped.
\<close>

definition fair :: "server \<Rightarrow> bool" where
  "fair s \<longleftrightarrow> winner s = -1 \<or> won s"

definition fair_result :: "int \<times> int \<Rightarrow> server \<Rightarrow> bool" where
  "fair_result x s \<longleftrightarrow> (if fst x = 1 then won s else fair s)"

definition fair_attempt :: "(int \<times> int) option \<Rightarrow> server \<Rightarrow> bool" where
  "fair_attempt r s \<longleftrightarrow> (case r of None \<Rightarrow> winner s = -1 | Some x \<Rightarrow> fair_result x s)"

lemma fair_simps [simp]:
  "fair_attempt None s \<longleftrightarrow> winner s = -1" "fair_attempt (Some x) s \<longleftrightarrow> fair_result x s"
  "fair_result (1, p) s \<longleftrightarrow> won s" "fair_result (0, p) s \<longleftrightarrow> fair s"
  by (simp_all add: fair_attempt_def fair_result_def)

lemma fair_result_fair: "fair_result x s \<Longrightarrow> fair s"
  by (auto simp: fair_result_def fair_def split: if_splits)

lemma fair_world: "io.more t = io.more s \<Longrightarrow> fair t = fair s"
  unfolding fair_def using won_world [of t s] same_game [of t s] by simp

lemma try_hu_fair: "partial (\<lambda>s. winner s = -1) (try_hu playernow k) fair_attempt"
  unfolding try_hu_def
proof (rule triple_bindp [OF partialI [OF possible_triple]])
  fix h :: int
  let ?p = "seat_after playernow k"
  let ?P = "\<lambda>s. winner s = -1 \<and> is_add_hu_possible (decks (players s ?p))
      (normal_capacity (players s ?p)) (discarded_mj s) = Some h"
  have ask: "stays ?P (ask ?p msg)" for msg by (rule ask_triple) (auto dest: same_game)
  have no: "partial ?P (ret None) fair_attempt" by (simp add: triple_def)
  have yes: "partial ?P (thenp (modp (\<lambda>s. s\<lparr>winner := ?p\<rparr>)) (ret (Some (1, playernow)))) fair_attempt"
    if h: "h = 1"
  proof (rule tripleI)
    fix s t :: server and r :: "(int \<times> int) option"
    assume P: "?P s" and run: "thenp (modp (\<lambda>s. s\<lparr>winner := ?p\<rparr>)) (ret (Some (1, playernow))) s = (Inr r, t)"
    from run have "r = Some (1, playernow)" "t = s\<lparr>winner := ?p\<rparr>" by simp_all
    moreover have "won (s\<lparr>winner := ?p\<rparr>)" unfolding won_def Let_def using P h seat_range by simp
    ultimately show "fair_attempt r t" by simp
  qed simp
  show "partial ?P (if h = 1 then
       bindp (ask ?p ''(Hu) You actually can hu already, proceed? [Y/n]\<newline>'') (\<lambda>y.
       if y then thenp (modp (\<lambda>s. s\<lparr>winner := ?p\<rparr>)) (ret (Some (1, playernow))) else ret None)
     else ret None) fair_attempt"
    by (intro triple_if partial_bindp [OF ask] yes no)
qed

lemma claim_turn_fair:
  assumes rec: "\<And>p. partial (\<lambda>s. winner s = -1) (rec p) fair_result" and p: "p \<in> {0..3}"
  shows "partial (\<lambda>s. winner s = -1) (claim_turn rec p) fair_attempt"
  unfolding claim_turn_def
proof (rule triple_bindp [OF partialI [OF is_hu_won [OF p]]])
  fix h :: int
  have after: "partial (fair_result x) (case x of (_, p') \<Rightarrow> thenp clear_recvline (ret (Some (0, p')))) fair_attempt"
    for x :: "int \<times> int"
    by (cases x) (auto simp: triple_def clear_recvline_def set_recvline_def
        fair_world [of "_\<lparr>recvline := []\<rparr>"] dest: fair_result_fair)
  have rest: "partial (\<lambda>s. winner s = -1) (thenp (discard p) (bindp (rec p) (\<lambda>(_, p').
      thenp clear_recvline (ret (Some (0, p')))))) fair_attempt"
    by (rule partial_thenp [OF no_winner.stays_discard], rule triple_bindp [OF rec], rule after)
  show "partial (\<lambda>s. if h = 1 then won s else winner s = -1)
     (if h = 1 then ret (Some (1, p)) else thenp (discard p) (bindp (rec p) (\<lambda>(_, p').
      thenp clear_recvline (ret (Some (0, p')))))) fair_attempt"
    by (cases "h = 1") (auto simp: triple_ret intro: rest)
qed

lemma claims_fair:
  assumes rec: "\<And>p. partial (\<lambda>s. winner s = -1) (rec p) fair_result"
  shows "partial (\<lambda>s. winner s = -1) (react rec playernow c) fair_attempt"
proof -
  note turn = claim_turn_fair [OF rec seat_range(1)]
  have no: "partial (\<lambda>s. winner s = -1) (ret None) fair_attempt" by (simp add: triple_def)
  note steps = triple_if partial_bindp [OF no_winner.stays_possible] partial_bindp [OF no_winner.stays_ask]
    partial_bindp [OF stays_getp] partial_thenp [OF no_winner.stays_announce]
    partial_thenp [OF no_winner.stays_clear_discarded] partial_thenp [OF no_winner.stays_draw] turn no
    partial_thenp [OF no_winner.stays_update] takes_three_shrinks takes_three
  have gang: "partial (\<lambda>s. winner s = -1) (try_gang rec playernow k) fair_attempt" for k
    unfolding try_gang_def Let_def by (intro steps)
  have pong: "partial (\<lambda>s. winner s = -1) (try_pong rec playernow k) fair_attempt" for k
    unfolding try_pong_def Let_def by (intro steps)
  have eat: "partial (\<lambda>s. winner s = -1) (try_eat rec playernow) fair_attempt"
    unfolding try_eat_def Let_def
    by (intro steps triple_bind_get triple_thenp [OF partialI [OF no_winner.stays_eat_loop]])
  have first: "partial (\<lambda>s. winner s = -1) (firstp xs f) fair_attempt"
    if "\<And>x. partial (\<lambda>s. winner s = -1) (f x) fair_attempt" for f :: "int \<Rightarrow> _" and xs
    using triple_firstp [of xs "\<lambda>s. winner s = -1" f fair_result "\<lambda>_ _. True"] that
    by (simp add: fair_attempt_def [abs_def])
  show ?thesis
  proof (cases c)
    case Nobody
    have "partial (\<lambda>s. winner s = -1) (ret (Some (0, playernow))) fair_attempt"
      by (simp add: triple_def fair_def)
    then have "partial (\<lambda>s. winner s = -1) (no_claim playernow) fair_attempt"
      unfolding no_claim_def
      by (intro partial_thenp [OF no_winner.stays_tell] partial_bindp [OF stays_getp]
          partial_thenp [OF no_winner.stays_update] partial_bindp [OF no_winner.stays_player_of]
          partial_thenp [OF no_winner.stays_printf] partial_thenp [OF no_winner.stays_clear_discarded]
          same_capacity_shrinks capacity)
    with Nobody show ?thesis by simp
  qed (simp_all add: hu_claims_def gang_claims_def pong_claims_def first try_hu_fair gang pong eat)
qed

lemma othersreaction_fair: "partial (\<lambda>s. winner s = -1) (othersreaction fuel p) fair_result"
proof (induction fuel arbitrary: p)
  case 0
  then show ?case by (simp add: triple_def)
next
  case (Suc fuel)
  have eq: "othersreaction (Suc fuel) p =
      bindp (firstp [Hu, Gang, Pong, Eat, Nobody] (react (othersreaction fuel) p)) (\<lambda>r.
        case r of Some x \<Rightarrow> ret x | None \<Rightarrow> ret (0, p))"
    by (rule ext) simp
  have "partial (\<lambda>s. winner s = -1) (firstp [Hu, Gang, Pong, Eat, Nobody] (react (othersreaction fuel) p))
      fair_attempt"
    using triple_firstp [of "[Hu, Gang, Pong, Eat, Nobody]" "\<lambda>s. winner s = -1" _ fair_result "\<lambda>_ _. True"]
      claims_fair [OF Suc.IH] by (simp add: fair_attempt_def [abs_def])
  then show ?case
    unfolding eq by (rule triple_bindp) (auto simp: fair_def intro!: triple_ret split: option.splits)
qed

end
