(* ===== verification/ServerGame.thy ===== *)
theory ServerGame
  imports Wall Reaction
begin

text \<open>
  The rounds of the server: the turns of one round, the question for another round over
  \<open>select\<close>, and the four rounds of a game (\<open>game_set_display\<close>, \<open>game\<close>).
\<close>

subsection \<open>After a round\<close>

text \<open>
  \<open>select\<close> without a timeout: it blocks until a descriptor is readable. The descriptors of
  each coming call are in \<open>selects\<close>; when there are none left it blocks for ever.
\<close>

definition select_in :: "int set \<Rightarrow> (server, int set) prog" where
  "select_in fds s =
     (case selects s of [] \<Rightarrow> (Inl Diverges, s)
      | r # rs \<Rightarrow> (Inr (set r \<inter> fds), s\<lparr>selects := rs\<rparr>))"

definition tell_all :: "string \<Rightarrow> (server, unit) prog" where
  "tell_all msg = forp [0, 1, 2, 3] (\<lambda>i. thenp (tell i msg) (ret ()))"

text \<open>The part of the loop for one player: \<open>temprset\<close>, \<open>response_count\<close>, \<open>newgame_count\<close>.\<close>

definition answer_of :: "int set \<Rightarrow> int \<Rightarrow> int set \<times> int \<times> int \<Rightarrow> (server, int set \<times> int \<times> int) prog" where
  "answer_of testset i = (\<lambda>(temprset, responses, newgames).
     bindp (player_of i) (\<lambda>q.
     if player_fd q \<in> testset then
       thenp (hear i) (
       bindp said_yes (\<lambda>y.
       thenp clear_recvline (
       ret (temprset - {player_fd q}, responses + 1, if y then newgames + 1 else newgames))))
     else ret (temprset, responses, newgames)))"

fun answer_loop :: "nat \<Rightarrow> int set \<times> int \<times> int \<Rightarrow> (server, int) prog" where
  "answer_loop 0 acc s = failp Diverges s"
| "answer_loop (Suc fuel) (temprset, responses, newgames) s =
     (if responses \<noteq> 4 then
        bindp (select_in temprset) (\<lambda>testset.
        bindp (foldp [0, 1, 2, 3] (answer_of testset) (temprset, responses, newgames)) (
        answer_loop fuel)) s
      else ret newgames s)"

definition end_text :: "int \<Rightarrow> string" where
  "end_text w =
     (if w = -1
      then ''(End) No more mjs can be draw, game is finished. Continue for next round? [Y/n]\<newline>''
      else ''(Game) The game is set and we have a winner: '' @ show_int w @
        ''!!! Continue for next round? [Y/n]\<newline>'')"

definition game_set_display :: "(server, int) prog" where
  "game_set_display =
     bindp (getp winner) (\<lambda>w.
     thenp (tell_all (end_text w)) (
     bindp (getp rset) (\<lambda>fds.
     bindp (getp (\<lambda>s. length (selects s))) (\<lambda>k.
     bindp (answer_loop (Suc (Suc k)) (fds, 0, 0)) (\<lambda>newgames.
     if newgames = 4 then thenp (tell_all ''start!\<newline>'') (ret 1)
     else thenp (tell_all ''Some players don't want to play, no more game!\<newline>'') (ret 0))))))"

subsection \<open>A round\<close>

text \<open>
  The loop over the turns. Every turn takes a tile, so the wall bounds how often it turns; fuel
  that cannot run out is passed to \<open>othersreaction\<close> in the same way.
\<close>

definition reaction_to :: "int \<Rightarrow> (server, int \<times> int) prog" where
  "reaction_to p = bindp (getp claims_left) (\<lambda>k. othersreaction (Suc k) p)"

fun turn_loop :: "nat \<Rightarrow> int \<Rightarrow> (server, unit) prog" where
  "turn_loop 0 playernow s = failp Diverges s"
| "turn_loop (Suc fuel) playernow s =
     (if winner s = -1 then
        bindp (draw_n_discard playernow) (\<lambda>d.
        if d = 1 then ret ()
        else
          bindp (reaction_to playernow) (\<lambda>(r, playernow').
          if r = 1 then ret ()
          else
            bindp (getp take_index) (\<lambda>t.
            if t = 144 then ret ()
            else turn_loop fuel ((playernow' + 1) mod 4)))) s
      else ret () s)"

definition turns :: "int \<Rightarrow> (server, unit) prog" where
  "turns playernow = bindp (getp wall_left) (\<lambda>k. turn_loop (Suc k) playernow)"

subsection \<open>The game\<close>

text \<open>The rounds; the value of \<open>game_set_display\<close> says whether to go on.\<close>

fun rounds :: "int list \<Rightarrow> (server, unit) prog" where
  "rounds [] s = ret () s"
| "rounds (startplayer # rest) s =
     thenp game_init (
     thenp (shuffle_n_deal startplayer) (
     thenp (turns startplayer) (
     bindp game_set_display (\<lambda>g.
     if g = 1 then rounds rest else ret ())))) s"

definition game :: "(server, int) prog" where
  "game =
     thenp (forp [0..3] (\<lambda>i. thenp (tell i (show_int i @ ''-th\<newline>'')) (ret ()))) (
     thenp (rounds [0..3]) (
     ret 0))"

subsection \<open>A round ends\<close>

lemma stays_reaction_to:
  assumes "game_invariant I"
  shows "stays I (reaction_to p)"
  unfolding reaction_to_def
proof (rule triple_bind_get)
  fix k
  show "triple (\<lambda>s. I s \<and> claims_left s = k) (othersreaction (Suc k) p) (\<lambda>_. I) (\<lambda>e _. e \<noteq> Diverges)"
    by (rule triple_conseq [OF game_invariant.stays_othersreaction [OF assms]]) auto
qed

lemma turn_loop_eq:
  "turn_loop (Suc fuel) playernow s =
     (if winner s = -1 then
        bindp (draw_n_discard playernow) (\<lambda>d. if d = 1 then ret () else
          bindp (reaction_to playernow) (\<lambda>(r, playernow'). if r = 1 then ret () else
            bindp (getp take_index) (\<lambda>t. if t = 144 then ret ()
              else turn_loop fuel ((playernow' + 1) mod 4)))) s
      else ret () s)"
  by simp

lemma turn_loop_ends:
  "triple (\<lambda>s. wall_left s < fuel) (turn_loop fuel p) (\<lambda>_ _. True) (\<lambda>e _. e \<noteq> Diverges)"
proof (induction fuel arbitrary: p)
  case 0
  then show ?case by (simp add: triple_def)
next
  case (Suc fuel)
  let ?E = "\<lambda>(e :: fault) (s :: server). e \<noteq> Diverges"
  have skip: "triple P (ret ()) (\<lambda>_ _. True) ?E" for P by (simp add: triple_def)
  have after: "triple (\<lambda>s. wall_left s < fuel) (case x of (r, playernow') \<Rightarrow> if r = 1 then ret () else
      bindp (getp take_index) (\<lambda>t. if t = 144 then ret () else turn_loop fuel ((playernow' + 1) mod 4)))
      (\<lambda>_ _. True) ?E" for x :: "int \<times> int"
    by (cases x) (auto intro!: triple_if skip triple_bindp [OF stays_getp] Suc.IH)
  have rest: "triple (\<lambda>s. wall_left s < fuel) (if d = 1 then ret () else
      bindp (reaction_to p) (\<lambda>(r, playernow'). if r = 1 then ret () else
        bindp (getp take_index) (\<lambda>t. if t = 144 then ret () else turn_loop fuel ((playernow' + 1) mod 4))))
      (\<lambda>_ _. True) ?E" for d :: int
    by (rule triple_if [OF skip], rule triple_bindp [OF stays_reaction_to [OF wall_shrinks.game_invariant_axioms]],
        rule after)
  have turn: "triple (\<lambda>s. wall_left s < Suc fuel) (draw_n_discard p) (\<lambda>_ s. wall_left s < fuel) ?E"
    using draw_n_discard_wall [of fuel p] by (simp add: less_Suc_eq_le)
  note body = triple_bindp [OF turn rest]
  show ?case
  proof (rule tripleI)
    fix s e t assume "wall_left s < Suc fuel" and "turn_loop (Suc fuel) p s = (Inl e, t)"
    then show "e \<noteq> Diverges"
      unfolding turn_loop_eq using triple_Inl [OF body] by (cases "winner s = -1") auto
  qed simp
qed

lemma turn_loop_fair:
  "p \<in> {0..3} \<Longrightarrow> partial (\<lambda>s. winner s = -1) (turn_loop fuel p)
     (\<lambda>_ s. won s \<or> winner s = -1 \<and> take_index s = 144)"
proof (induction fuel arbitrary: p)
  case 0
  then show ?case by (simp add: triple_def)
next
  case (Suc fuel)
  let ?Q = "\<lambda>(_ :: unit) s. won s \<or> winner s = -1 \<and> take_index s = 144"
  have again: "partial fair (turn_loop fuel q) ?Q" if "q \<in> {0..3}" for q
  proof (rule tripleI)
    fix s t and u :: unit
    assume F: "fair s" and run: "turn_loop fuel q s = (Inr u, t)"
    show "?Q u t"
    proof (cases "winner s = -1")
      case True
      then show ?thesis using triple_Inr [OF Suc.IH [OF that]] run by blast
    next
      case False
      then have "won s" using F by (simp add: fair_def)
      moreover have "t = s" using run False by (cases fuel) auto
      ultimately show ?thesis by simp
    qed
  qed simp
  have stop: "partial (fair_result (1, p')) (ret ()) ?Q" for p' by (simp add: triple_def)
  have after: "partial (fair_result x) (case x of (r, playernow') \<Rightarrow> if r = 1 then ret () else
      bindp (getp take_index) (\<lambda>t. if t = 144 then ret () else turn_loop fuel ((playernow' + 1) mod 4))) ?Q"
    for x :: "int \<times> int"
  proof (cases x)
    case (Pair r q)
    have step: "partial (\<lambda>s. fair s \<and> take_index s = t)
        (if t = 144 then ret () else turn_loop fuel ((q + 1) mod 4)) ?Q" for t
    proof (rule triple_if)
      show "partial (\<lambda>s. fair s \<and> take_index s = t) (turn_loop fuel ((q + 1) mod 4)) ?Q"
        by (rule triple_pre [OF again]) auto
    qed (auto simp: triple_def fair_def)
    have "partial fair (bindp (getp take_index) (\<lambda>t. if t = 144 then ret () else turn_loop fuel ((q + 1) mod 4))) ?Q"
      by (rule triple_bind_get [OF step])
    then show ?thesis
      unfolding Pair using stop [of q]
      by (cases "r = 1") (auto intro: triple_pre [of fair] dest: fair_result_fair)
  qed
  have rest: "partial (\<lambda>s. if d = 1 then won s else winner s = -1) (if d = 1 then ret () else
      bindp (reaction_to p) (\<lambda>(r, playernow'). if r = 1 then ret () else
        bindp (getp take_index) (\<lambda>t. if t = 144 then ret () else turn_loop fuel ((playernow' + 1) mod 4)))) ?Q"
    for d :: int
  proof (cases "d = 1")
    case True
    then show ?thesis by (simp add: triple_def)
  next
    case False
    have "partial (\<lambda>s. winner s = -1) (reaction_to p) fair_result"
      unfolding reaction_to_def by (rule partial_bindp [OF stays_getp othersreaction_fair])
    from triple_bindp [OF this after] False show ?thesis by simp
  qed
  note body = triple_bindp [OF partialI [OF draw_n_discard_won [OF Suc.prems]] rest]
  show ?case
  proof (rule tripleI)
    fix s t and u :: unit
    assume "winner s = -1" and "turn_loop (Suc fuel) p s = (Inr u, t)"
    then show "?Q u t" unfolding turn_loop_eq using triple_Inr [OF body] by simp
  qed simp
qed

subsection \<open>What a round keeps\<close>

context game_invariant
begin

lemma partial_turn_loop: "partial I (turn_loop fuel p) (\<lambda>_. I)"
proof (induction fuel arbitrary: p)
  case 0
  then show ?case by (simp add: triple_def)
next
  case (Suc fuel)
  note body = partial_bindp [OF stays_draw_n_discard] partial_bindp [OF stays_reaction_to [OF game_invariant_axioms]]
    partial_bindp [OF stays_getp] triple_if triple_ret triple_case_prod Suc.IH
  have "partial I (bindp (draw_n_discard p) (\<lambda>d. if d = 1 then ret () else
          bindp (reaction_to p) (\<lambda>(r, playernow'). if r = 1 then ret () else
            bindp (getp take_index) (\<lambda>t. if t = 144 then ret ()
              else turn_loop fuel ((playernow' + 1) mod 4))))) (\<lambda>_. I)"
    by (intro body)
  then show ?case
    by (intro tripleI) (auto simp only: turn_loop_eq ret.simps dest: triple_Inr split: if_splits)
qed

lemma turns_keep: "I s \<Longrightarrow> turns p s = (Inr v, t) \<Longrightarrow> I t"
  unfolding turns_def
  by (erule triple_Inr [OF partial_bindp [OF stays_getp partial_turn_loop], rotated])

end

text \<open>
  The arrays of the players and of the wall: their lengths, and the ranges of the indices that
  the code keeps beside them.
\<close>

definition in_arrays :: "server \<Rightarrow> bool" where
  "in_arrays s \<longleftrightarrow> length (shuffled_mjs s) = 144 \<and> 0 \<le> take_index s \<and> take_index s \<le> 144 \<and>
     (\<forall>p \<in> {0..3}. shape (players s p) \<and> normal_capacity (players s p) \<le> 16)"

interpretation in_arrays: game_invariant in_arrays
proof unfold_locales
  fix s t :: server assume "io.more t = io.more s" "in_arrays s"
  then show "in_arrays t" by (auto simp: in_arrays_def dest: same_game)
next
  fix s :: server and q p assume "in_arrays s" "normal_capacity q \<le> normal_capacity (players s p)"
    "shape (players s p) \<Longrightarrow> shape q"
  then show "in_arrays (s\<lparr>players := (players s)(p := q)\<rparr>)"
    by (auto simp: in_arrays_def intro: order_trans)
qed (auto simp: in_arrays_def)

text \<open>
  A round that returns has kept them, as every access outside an array ends the run: so each turn of a round
  starts from the shape that the analysis of one turn (TurnBounds) starts from.
\<close>

lemma turns_keep_arrays: "in_arrays s \<Longrightarrow> turns p s = (Inr v, t) \<Longrightarrow> in_arrays t"
  by (rule in_arrays.turns_keep)

subsection \<open>Answers that fit nothing\<close>

text \<open>A message and an answer in one piece each.\<close>

lemma tell_chunk:
  assumes "read_cnt s \<le> 0" and "net s (player_fd (players s p)) = Bytes ack_line # es"
  obtains t where "tell p msg s = (Inr 0, t)" and "net t = (net s)(player_fd (players s p) := es)" and "read_cnt t = 0"
    and "sent t = sent s @ [(player_fd (players s p), vsnprintf_line msg)]" and "io.more t = io.more s"
proof -
  obtain t where t: "write_message_wait_ack (player_fd (players s p)) msg s = (Inr 0, t)"
    "net t = (net s)(player_fd (players s p) := es)" "read_cnt t = 0"
    using send_chunk [OF assms] by blast
  then show thesis
    using server_chan.send_Inr [OF t(1)] server_chan.send_more [OF t(1)]
    by (intro that [of t]) (simp_all add: tell_def player_of_def)
qed

lemma hear_chunk:
  assumes "read_cnt s \<le> 0" and "net s (player_fd (players s p)) = Bytes (b @ [newline]) # es"
    and "newline \<notin> set b" and "length b + 1 < MAXLINE"
  obtains t where "hear p s = (Inr 0, t)" and "recvline t = b @ [newline]"
    and "net t = (net s)(player_fd (players s p) := es)" and "read_cnt t = 0"
    and "sent t = sent s @ [(player_fd (players s p), ack_line)]" and "io.more t = io.more s"
proof -
  let ?fd = "player_fd (players s p)"
  have r: "readline ?fd MAXLINE s = ((int (length b) + 1, b @ [newline]), s\<lparr>net := (net s)(?fd := es), read_cnt := 0, read_ptr := []\<rparr>)"
    by (rule readline_chunk) (use assms in auto)
  let ?t = "s\<lparr>net := (net s)(?fd := es), read_cnt := 0, read_ptr := [], recvline := b @ [newline], sent := sent s @ [(?fd, ack_line)]\<rparr>"
  have "hear p s = (Inr 0, ?t)"
    by (simp add: hear_def player_of_def read_and_ack_def readline_recv_def r write_fd_def)
  then show thesis by (intro that [of ?t]) simp_all
qed

text \<open>A turn of the loop of the eat on two indices whose tiles are no run with the discard.\<close>

definition eat_prompt :: string where
  "eat_prompt = ''Type which 2 of the mjs you want to eat with: \<newline>''"

definition eat_refusal :: string where
  "eat_refusal = ''invalid choice.\<newline>''"

lemma eat_texts: "vsnprintf_line eat_prompt = eat_prompt" "vsnprintf_line eat_refusal = eat_refusal"
  by code_simp+

lemma eat_turn_refuses:
  assumes "read_cnt s \<le> 0" and "net s (player_fd (players s p)) = [Bytes ack_line, Bytes (b @ [newline]), Bytes ack_line] @ es"
    and "newline \<notin> set b" and "length b + 1 < MAXLINE" and "read_two (b @ [newline]) = Some (e1, e2)"
    and "eat_temp (decks (players s p)) e1 e2 (discarded_mj s) = Some tiles" and "\<not> eatable tiles"
  shows "\<exists>t. eat_turn again p s = again t \<and> io.more t = io.more s \<and> read_cnt t \<le> 0 \<and>
     net t = (net s)(player_fd (players s p) := es) \<and>
     sent t = sent s @ map (Pair (player_fd (players s p))) [eat_prompt, ack_line, eat_refusal]"
proof -
  let ?fd = "player_fd (players s p)"
  obtain t where t: "tell p eat_prompt s = (Inr 0, t)" "net t = (net s)(?fd := [Bytes (b @ [newline]), Bytes ack_line] @ es)"
    "read_cnt t = 0" "sent t = sent s @ [(?fd, vsnprintf_line eat_prompt)]" "io.more t = io.more s"
    by (rule tell_chunk [of s p "[Bytes (b @ [newline]), Bytes ack_line] @ es" eat_prompt]) (use assms(1,2) in auto)
  note tp = more_fields(1) [OF t(5)]
  obtain u where u: "hear p t = (Inr 0, u)" "recvline u = b @ [newline]" "net u = (net t)(?fd := [Bytes ack_line] @ es)"
    "read_cnt u = 0" "sent u = sent t @ [(?fd, ack_line)]" "io.more u = io.more t"
    by (rule hear_chunk [of t p b "[Bytes ack_line] @ es"]) (use t(2,3) assms(3,4) tp in auto)
  let ?v = "u\<lparr>recvline := []\<rparr>"
  have up: "players u = players s" "discarded_mj u = discarded_mj s" "io.more ?v = io.more s"
    using more_fields [OF u(6)] more_fields [OF t(5)] t(5) u(6) by simp_all
  obtain w where w: "tell p eat_refusal ?v = (Inr 0, w)" "net w = (net ?v)(?fd := es)" "read_cnt w = 0"
    "sent w = sent ?v @ [(?fd, vsnprintf_line eat_refusal)]" "io.more w = io.more ?v"
    by (rule tell_chunk [of ?v p es eat_refusal]) (use u(3,4) up in auto)
  have "eat_turn again p s = again w"
    using t(1) u(1,2) w(1) up assms(5-7)
    by (simp add: eat_turn_def eat_prompt_def eat_refusal_def clear_recvline_def set_recvline_def player_of_def)
  then show ?thesis
    using w t(2,4) u(3,5) up(3) by (intro exI [of _ w]) (simp add: eat_texts)
qed

lemma eat_loop_refuses:
  assumes "read_cnt s \<le> 0"
    and "net s (player_fd (players s p)) = concat (replicate n [Bytes ack_line, Bytes (b @ [newline]), Bytes ack_line]) @ es"
    and "newline \<notin> set b" and "length b + 1 < MAXLINE" and "read_two (b @ [newline]) = Some (e1, e2)"
    and "eat_temp (decks (players s p)) e1 e2 (discarded_mj s) = Some tiles" and "\<not> eatable tiles"
  shows "\<exists>t. eat_loop (n + k) p s = eat_loop k p t \<and> io.more t = io.more s \<and>
     net t = (net s)(player_fd (players s p) := es) \<and>
     sent t = sent s @ concat (replicate n (map (Pair (player_fd (players s p))) [eat_prompt, ack_line, eat_refusal]))"
  using assms(1,2,6)
proof (induction n arbitrary: s)
  case 0
  then show ?case by (intro exI [of _ s]) (simp add: fun_upd_idem)
next
  case (Suc n)
  let ?fd = "player_fd (players s p)"
  let ?es = "concat (replicate n [Bytes ack_line, Bytes (b @ [newline]), Bytes ack_line]) @ es"
  obtain u where u: "eat_turn (eat_loop (n + k) p) p s = eat_loop (n + k) p u" "io.more u = io.more s" "read_cnt u \<le> 0"
    "net u = (net s)(?fd := ?es)" "sent u = sent s @ map (Pair ?fd) [eat_prompt, ack_line, eat_refusal]"
    using eat_turn_refuses [OF Suc.prems(1) _ assms(3-5) Suc.prems(3) assms(7), of ?es "eat_loop (n + k) p"] Suc.prems(2)
    by auto
  note up = more_fields [OF u(2)]
  have next_one: "net u (player_fd (players u p)) = ?es" "eat_temp (decks (players u p)) e1 e2 (discarded_mj u) = Some tiles"
    using u(4) up Suc.prems(3) by simp_all
  obtain t where t: "eat_loop (n + k) p u = eat_loop k p t" "io.more t = io.more u"
    "net t = (net u)(player_fd (players u p) := es)" "sent t = sent u @
       concat (replicate n (map (Pair (player_fd (players u p))) [eat_prompt, ack_line, eat_refusal]))"
    using Suc.IH [OF u(3) next_one] by blast
  show ?case using u(1,2,4,5) t unfolding up(1) by (intro exI [of _ t]) simp
qed

subsection \<open>Properties\<close>

text \<open>
  Property C4: a round ends when the input of its clients ends, and nothing else bounds the choice of an eat. From every
  state of the table, with any finite input of the clients, the loop over the turns with the claims
  nested in it does not run for ever: it returns, or the process ends in \<open>exit\<close> or in undefined
  behaviour. The bound on the input is needed: a client that answers \<open>n\<close> times with two tiles of its hand
  that are no run with the discard is refused and asked again \<open>n\<close> times, after which the loop stands
  where it stood, with the game unchanged; so a client that never stops keeps the server
  in this loop for ever.
\<close>

theorem turns_end:
  "fst (turns playernow s) \<noteq> Inl Diverges \<and>
   (read_cnt u \<le> 0 \<and> newline \<notin> set b \<and> length b + 1 < MAXLINE \<and> read_two (b @ [newline]) = Some (e1, e2) \<and>
    eat_temp (decks (players u p)) e1 e2 (discarded_mj u) = Some tiles \<and> \<not> eatable tiles \<and>
    net u (player_fd (players u p)) = concat (replicate n [Bytes ack_line, Bytes (b @ [newline]), Bytes ack_line]) @ es \<longrightarrow>
    (\<exists>t. eat_loop (n + k) p u = eat_loop k p t \<and> io.more t = io.more u \<and>
       net t = (net u)(player_fd (players u p) := es) \<and>
       sent t = sent u @ concat (replicate n (map (Pair (player_fd (players u p))) [eat_prompt, ack_line, eat_refusal]))))"
proof (intro conjI impI)
  have "triple (\<lambda>_. True) (turns playernow) (\<lambda>_ _. True) (\<lambda>e _. e \<noteq> Diverges)"
    unfolding turns_def by (rule triple_bind_get, rule triple_pre [OF turn_loop_ends]) simp
  then show "fst (turns playernow s) \<noteq> Inl Diverges" by (cases "turns playernow s") (auto dest: triple_Inl)
qed (elim conjE, rule eat_loop_refuses)

text \<open>
  Property C3: no false win. A round that began without a winner ends with the wall exhausted and no
  winner, or with a winner in one of the four seats whose hand passed the server's test, with the
  tile drawn or with the tile discarded by somebody else.
\<close>

theorem turns_fair:
  assumes "playernow \<in> {0..3}" and "winner s = -1" and "turns playernow s = (Inr (), t)"
  shows "(winner t = -1 \<and> take_index t = 144) \<or>
     (winner t \<in> {0..3} \<and>
      (hu_check (decks (players t (winner t))) (normal_capacity (players t (winner t))) = Some 1 \<or>
       is_add_hu_possible (decks (players t (winner t))) (normal_capacity (players t (winner t)))
         (discarded_mj t) = Some 1))"
proof -
  have "partial (\<lambda>s. winner s = -1) (turns playernow) (\<lambda>_ s. won s \<or> winner s = -1 \<and> take_index s = 144)"
    unfolding turns_def by (rule partial_bindp [OF stays_getp turn_loop_fair [OF assms(1)]])
  from triple_Inr [OF this assms(2,3)] show ?thesis by (auto simp: won_def Let_def)
qed

text \<open>A table on which the first player has one tile left and draws its pair.\<close>

definition last_pair :: server where
  "last_pair = \<lparr>net = (\<lambda>fd. if fd = 5 then
       [Bytes ''ACK\<newline>'', Bytes ''ACK\<newline>'', Bytes ''ACK\<newline>'', Bytes ''YES!\<newline>''] else []),
     read_cnt = 0, read_ptr = [], sent = [], console = [], recvline = [],
     players = (\<lambda>p. \<lparr>player_fd = p + 5, flower_index = 0, door_index = 0, sea_index = 0, normal_capacity = 1,
       decks = [\<lparr>type = 3, number = 5, priority = 0\<rparr>, null_mj], flowers = [], door = [], sea = []\<rparr>),
     shuffled_mjs = [\<lparr>type = 3, number = 5, priority = 0\<rparr>], discarded_mj = null_mj, take_index = 0,
     winner = -1, rand_seq = (\<lambda>_. 0), rand_pos = 0, rset = {}, selects = []\<rparr>"

theorem turns_fair_witness:
  "\<exists>t. turns 0 last_pair = (Inr (), t) \<and> winner t = 0 \<and>
     hu_check (decks (players t 0)) (normal_capacity (players t 0)) = Some 1"
proof -
  obtain v t where run: "turns 0 last_pair = (v, t)" by (metis prod.exhaust)
  have "fst (turns 0 last_pair) = Inr ()" by code_simp
  then have v: "turns 0 last_pair = (Inr (), t)" using run by simp
  have "winner (snd (turns 0 last_pair)) = 0" by code_simp
  then have w: "winner t = 0" using run by simp
  have "is_add_hu_possible (decks (players (snd (turns 0 last_pair)) 0))
      (normal_capacity (players (snd (turns 0 last_pair)) 0)) (discarded_mj (snd (turns 0 last_pair))) \<noteq> Some 1"
    by code_simp
  moreover have "winner last_pair = -1" by (simp add: last_pair_def)
  ultimately show ?thesis using turns_fair [OF _ _ v] v w run by auto
qed

text \<open>The first player holds the 2, 3 and 9 of a suit, the 4 is discarded, and it keeps naming the last two.\<close>

definition stubborn :: "nat \<Rightarrow> server" where
  "stubborn n = last_pair\<lparr>
     net := (\<lambda>_. concat (replicate n [Bytes ack_line, Bytes (''1 2'' @ [newline]), Bytes ack_line]) @ []),
     players := (\<lambda>p. (players last_pair p)\<lparr>normal_capacity := 3, decks := [\<lparr>type = 3, number = 2, priority = 0\<rparr>,
       \<lparr>type = 3, number = 3, priority = 0\<rparr>, \<lparr>type = 3, number = 9, priority = 0\<rparr>, null_mj]\<rparr>),
     discarded_mj := \<lparr>type = 3, number = 4, priority = 0\<rparr>\<rparr>"

theorem turns_end_witness:
  "\<forall>k. \<exists>t. eat_loop (1000 + k) 0 (stubborn 1000) = eat_loop k 0 t \<and> io.more t = io.more (stubborn 1000)"
proof
  fix k
  have b: "newline \<notin> set ''1 2''" "length ''1 2'' + 1 < MAXLINE" by code_simp+
  have r: "read_two (''1 2'' @ [newline]) = Some (1, 2)" by code_simp
  let ?t = "[\<lparr>type = 3, number = 3, priority = 0\<rparr>, \<lparr>type = 3, number = 4, priority = 0\<rparr>, \<lparr>type = 3, number = 9, priority = 0\<rparr>]"
  have e: "eat_temp (decks (players (stubborn 0) 0)) 1 2 (discarded_mj (stubborn 0)) = Some ?t" "\<not> eatable ?t" by code_simp+
  have "players (stubborn 1000) = players (stubborn 0)" "discarded_mj (stubborn 1000) = discarded_mj (stubborn 0)"
    "read_cnt (stubborn 1000) \<le> 0" "player_fd (players (stubborn 0) 0) = 5"
    "net (stubborn 1000) 5 = concat (replicate 1000 [Bytes ack_line, Bytes (''1 2'' @ [newline]), Bytes ack_line]) @ []"
    by (simp_all add: stubborn_def last_pair_def)
  then show "\<exists>t. eat_loop (1000 + k) 0 (stubborn 1000) = eat_loop k 0 t \<and> io.more t = io.more (stubborn 1000)"
    using turns_end [of 0 "stubborn 0" "stubborn 1000" "''1 2''" 1 2 0 ?t 1000 "[]" k] b r e by auto
qed

end
