(* ===== verification/ServerMain.thy ===== *)
theory ServerMain
  imports ServerGame
begin

text \<open>
  The server process: the listening socket, the four seats, and the child process for each
  table (\<open>connection_preparation\<close>, \<open>connection_establish\<close>, \<open>sig_chld\<close>, \<open>main\<close>). The results of
  the system calls to come are part of the state: those of \<open>socket\<close>, \<open>bind\<close> and
  \<open>listen\<close>, of the coming calls of \<open>accept\<close>, \<open>select\<close>, \<open>fork\<close> and \<open>malloc\<close>. A run of
  \<open>main\<close> follows one process: when \<open>fork\<close> returns 0 it is the child from there on.
\<close>

datatype accept_event = Accepted int | AcceptInterrupted | AcceptFailed

record host = io +
  pre_players :: "int \<Rightarrow> player"
  host_rset :: "int set"
  maxfd :: int
  listenfd :: int
  socket_result :: int
  bind_result :: int
  listen_result :: int
  errno :: int
  pid :: int
  accepts :: "accept_event list"
  host_selects :: "int list list"
  forks :: "int list"
  mallocs :: "bool list"
  closed :: "int list"

definition SERV_PORT :: int where
  "SERV_PORT = 9877"

definition close_fd :: "int \<Rightarrow> (host, unit) prog" where
  "close_fd fd = modp (\<lambda>s. s\<lparr>closed := closed s @ [fd]\<rparr>)"

text \<open>A call of \<open>malloc\<close>; when nothing is said about it, it succeeds.\<close>

definition malloc_ok :: "(host, bool) prog" where
  "malloc_ok s =
     (case mallocs s of [] \<Rightarrow> (Inr True, s) | b # bs \<Rightarrow> (Inr b, s\<lparr>mallocs := bs\<rparr>))"

definition seat_init :: "int \<Rightarrow> (host, unit) prog" where
  "seat_init i =
     bindp malloc_ok (\<lambda>ok.
     bindp (player_init ok) (\<lambda>q.
     modp (\<lambda>s. s\<lparr>pre_players := (pre_players s)(i := q)\<rparr>)))"

definition fd_of :: "int \<Rightarrow> (host, int) prog" where
  "fd_of i = getp (\<lambda>s. player_fd (pre_players s i))"

definition set_fd :: "int \<Rightarrow> int \<Rightarrow> (host, unit) prog" where
  "set_fd i fd = modp (\<lambda>s. s\<lparr>pre_players := (pre_players s)(i := (pre_players s i)\<lparr>player_fd := fd\<rparr>)\<rparr>)"

subsection \<open>Preparation\<close>

definition connection_preparation :: "(host, int) prog" where
  "connection_preparation =
     thenp (modp (\<lambda>s. s\<lparr>host_rset := {}\<rparr>)) (
     thenp (modp (\<lambda>s. s\<lparr>listenfd := socket_result s\<rparr>)) (
     bindp (getp listenfd) (\<lambda>l.
     if l < 0 then thenp (printf ''ERROR OCCURRED IN socket(), exiting...\<newline>'') (failp (Exited 1))
     else
       bindp (getp bind_result) (\<lambda>b.
       if b < 0 then
         bindp (getp errno) (\<lambda>e.
         bindp (getp pid) (\<lambda>i.
         thenp (printf (''ERROR OCCURRED IN bind(), errno = '' @ show_int e @ '', PID = '' @
           show_int i @ '', exiting...\<newline>'')) (
         failp (Exited 1))))
       else
         bindp (getp listen_result) (\<lambda>r.
         if r < 0 then thenp (printf ''ERROR OCCURED IN listen(), exiting...\<newline>'') (failp (Exited 1))
         else
           thenp (printf (''Server listening on port '' @ show_int (SERV_PORT + 10) @ ''...\<newline>'')) (
           ret 0))))))"

subsection \<open>Waiting for four players\<close>

text \<open>\<open>accept\<close>; without a connection to come it blocks for ever.\<close>

definition accept_next :: "(host, accept_event) prog" where
  "accept_next s =
     (case accepts s of [] \<Rightarrow> (Inl Diverges, s) | a # as \<Rightarrow> (Inr a, s\<lparr>accepts := as\<rparr>))"

text \<open>One seat; an interrupted \<open>accept\<close> leaves its descriptor at -1 and the seat uncounted.\<close>

definition fill_seat :: "int \<Rightarrow> int \<Rightarrow> (host, int) prog" where
  "fill_seat i connection_count =
     bindp (fd_of i) (\<lambda>fd.
     if fd = -1 then
       bindp accept_next (\<lambda>a.
       case a of
         AcceptInterrupted \<Rightarrow> thenp (set_fd i (-1)) (ret connection_count)
       | AcceptFailed \<Rightarrow> thenp (set_fd i (-1)) (thenp (printf ''accept error\<newline>'') (failp (Exited 1)))
       | Accepted fd' \<Rightarrow>
           thenp (set_fd i fd') (
           thenp (printf ''A client is connected!\<newline>'') (
           thenp (write_fd fd' (''(join) You are the '' @ show_int (connection_count + 1) @
             ''-th player, let's wait for others...\<newline>'')) (
           thenp (modp (\<lambda>s. s\<lparr>host_rset := insert fd' (host_rset s),
             maxfd := if fd' > maxfd s then fd' else maxfd s\<rparr>)) (
           ret (connection_count + 1))))))
     else ret (connection_count + 1))"

text \<open>\<open>select\<close> with a timeout: when nothing is said about it, no descriptor is readable.\<close>

definition poll :: "(host, int set) prog" where
  "poll s =
     (case host_selects s of [] \<Rightarrow> (Inr {}, s)
      | r # rs \<Rightarrow> (Inr (set r \<inter> host_rset s), s\<lparr>host_selects := rs\<rparr>))"

text \<open>
  \<open>read(fd, recvline, MAXLINE)\<close>: the bytes replace the front of the buffer, without a
  terminator. The value is the number of bytes, 0 at end of file.
\<close>

definition read_raw :: "int \<Rightarrow> (host, int) prog" where
  "read_raw fd s =
     (case net s fd of
        [] \<Rightarrow> (Inr 0, s)
      | Bytes b # es \<Rightarrow>
          (let k = take MAXLINE b;
               rest = (if length b \<le> MAXLINE then es else Bytes (drop MAXLINE b) # es)
           in (Inr (int (length k)),
               s\<lparr>net := (net s)(fd := rest), recvline := k @ drop (length k) (recvline s)\<rparr>))
      | _ # es \<Rightarrow> (Inr (-1), s\<lparr>net := (net s)(fd := es)\<rparr>))"

text \<open>The check of one seat; \<open>FD_ISSET\<close> of a negative descriptor is undefined.\<close>

definition check_seat :: "int set \<Rightarrow> int \<Rightarrow> int \<Rightarrow> (host, int) prog" where
  "check_seat testset i connection_count =
     bindp (fd_of i) (\<lambda>fd.
     if fd < 0 then failp Undefined
     else if fd \<in> testset then
       bindp (read_raw fd) (\<lambda>n.
       if n = 0 then
         thenp (printf ''A client just disconnected!\<newline>'') (
         thenp (close_fd fd) (
         thenp (seat_init i) (
         ret (connection_count - 1))))
       else ret connection_count)
     else ret connection_count)"

definition write_all :: "string \<Rightarrow> (host, unit) prog" where
  "write_all msg = forp [0..3] (\<lambda>i. bindp (fd_of i) (\<lambda>fd. write_fd fd msg))"

fun establish_loop :: "nat \<Rightarrow> (host, int) prog" where
  "establish_loop 0 s = failp Diverges s"
| "establish_loop (Suc fuel) s =
     bindp (foldp [0..3] fill_seat 0) (\<lambda>connection_count.
     bindp poll (\<lambda>testset.
     bindp (foldp [0..3] (check_seat testset) connection_count) (\<lambda>connection_count.
     if connection_count = 4 then thenp (write_all ''start!\<newline>'') (ret 0)
     else thenp (write_all ''wait...\<newline>'') (establish_loop fuel)))) s"

text \<open>A turn of the loop that is not the last uses up a result of \<open>accept\<close> or the next one does.\<close>

definition connection_establish :: "(host, int) prog" where
  "connection_establish = bindp (getp (\<lambda>s. length (accepts s))) (\<lambda>k. establish_loop (Suc (Suc k)))"

subsection \<open>The processes\<close>

text \<open>\<open>sig_chld\<close>, for the results of its calls of \<open>waitpid\<close>.\<close>

fun sig_chld :: "int list \<Rightarrow> (host, unit) prog" where
  "sig_chld [] s = ret () s"
| "sig_chld (p # ps) s =
     (if p > 0 then thenp (printf (''child '' @ show_int p @ '' terminated\<newline>'')) (sig_chld ps) s
      else ret () s)"

text \<open>
  The memory of the child: the players and the descriptors are copies, the globals of the game
  still have their initial values. \<open>r\<close> are the values of its \<open>rand\<close>, \<open>sel\<close> the results of its
  \<open>select\<close>.
\<close>

definition child_state :: "(nat \<Rightarrow> int) \<Rightarrow> int list list \<Rightarrow> host \<Rightarrow> server" where
  "child_state r sel s =
     \<lparr>net = net s, read_cnt = read_cnt s, read_ptr = read_ptr s, sent = sent s,
      console = console s, recvline = recvline s,
      players = pre_players s, shuffled_mjs = replicate 144 null_mj, discarded_mj = null_mj,
      take_index = 0, winner = -1, rand_seq = r, rand_pos = 0, rset = host_rset s, selects = sel\<rparr>"

definition world_back :: "server \<Rightarrow> host \<Rightarrow> host" where
  "world_back t s = s\<lparr>net := net t, read_cnt := read_cnt t, read_ptr := read_ptr t, sent := sent t,
     console := console t, recvline := recvline t\<rparr>"

definition run_game :: "(nat \<Rightarrow> int) \<Rightarrow> int list list \<Rightarrow> (host, int) prog" where
  "run_game r sel s =
     (case game (child_state r sel s) of
        (Inl e, t) \<Rightarrow> (Inl e, world_back t s)
      | (Inr v, t) \<Rightarrow> (Inr v, world_back t s))"

definition close_seat :: "int \<Rightarrow> (host, unit) prog" where
  "close_seat i = bindp (fd_of i) close_fd"

definition child_process :: "(nat \<Rightarrow> int) \<Rightarrow> int list list \<Rightarrow> (host, unit) prog" where
  "child_process r sel =
     thenp (bindp (getp listenfd) close_fd) (
     thenp (run_game r sel) (
     thenp (forp [0..3] close_seat) (
     failp (Exited 0))))"

definition fork_next :: "(host, int) prog" where
  "fork_next s = (case forks s of [] \<Rightarrow> (Inr (-1), s) | f # fs \<Rightarrow> (Inr f, s\<lparr>forks := fs\<rparr>))"

text \<open>The loop of the parent; every turn waits for connections, so these bound it.\<close>

fun serve_loop :: "nat \<Rightarrow> (nat \<Rightarrow> int) \<Rightarrow> int list list \<Rightarrow> (host, unit) prog" where
  "serve_loop 0 r sel s = failp Diverges s"
| "serve_loop (Suc fuel) r sel s =
     bindp connection_establish (\<lambda>c.
     if c = 0 then
       bindp fork_next (\<lambda>f.
       if f = 0 then child_process r sel
       else
         thenp (forp [0..3] (\<lambda>i. thenp (close_seat i) (seat_init i))) (
         serve_loop fuel r sel))
     else bindp (getp listenfd) close_fd) s"

definition main :: "(nat \<Rightarrow> int) \<Rightarrow> int list list \<Rightarrow> (host, int) prog" where
  "main r sel =
     thenp (forp [0..3] seat_init) (
     thenp connection_preparation (
     bindp (getp (\<lambda>s. length (accepts s))) (\<lambda>k.
     thenp (serve_loop (Suc (Suc k)) r sel) (
     ret 0))))"

end
