(* ===== verification/PointCount.thy ===== *)
theory PointCount
  imports Tiles
begin

text \<open>
  The points of a hand (\<open>point\<close> in point_count.c): five passes over the first 16 tiles,
  in the order of the code, each adding to \<open>count\<close>. \<open>tmpcnt\<close> is carried through a pass; the
  accumulator is the pair of both.
\<close>

definition ZHONG :: int where [simp]: "ZHONG = 5"
definition BAI :: int where [simp]: "BAI = 7"

definition mjsame :: "mj \<Rightarrow> mj \<Rightarrow> bool" where
  "mjsame a b = (type a = type b \<and> number a = number b)"

text \<open>A pass: the body for each index from \<open>lo\<close> to 15, on \<open>(count, tmpcnt)\<close>.\<close>

fun point_pass :: "(int \<Rightarrow> int \<times> int \<Rightarrow> (int \<times> int) option) \<Rightarrow> int list \<Rightarrow> int \<times> int \<Rightarrow> (int \<times> int) option" where
  "point_pass body [] acc = Some acc"
| "point_pass body (i # is) acc = do { acc \<leftarrow> body i acc; point_pass body is acc }"

definition dragon_step :: "mj list \<Rightarrow> mj \<Rightarrow> int \<Rightarrow> int \<times> int \<Rightarrow> (int \<times> int) option" where
  "dragon_step decks drawn i = (\<lambda>(cnt, tmp). do {
     d \<leftarrow> at decks i;
     let tmp = (if type d = DAZI \<and> number d \<ge> 5 \<and> number d \<le> 7 then tmp + 1 else 0);
     let (cnt, tmp) =
       (if tmp = 2 \<and> type drawn = DAZI \<and> number drawn = number d then (cnt + 1, 0) else (cnt, tmp));
     Some (if tmp = 3 then (cnt + 1, 0) else (cnt, tmp))
   })"

definition wind_step :: "mj list \<Rightarrow> mj \<Rightarrow> int \<Rightarrow> int \<Rightarrow> int \<times> int \<Rightarrow> (int \<times> int) option" where
  "wind_step decks drawn doorwind i = (\<lambda>(cnt, tmp). do {
     d \<leftarrow> at decks i;
     let tmp = (if type d = DAZI \<and> number d \<ge> 1 \<and> number d \<le> 4 then tmp + 1 else 0);
     let (cnt, tmp) =
       (if tmp = 2 \<and> type drawn = DAZI \<and> number drawn = number d then
          (cnt + (if doorwind = number d then 1 else 0) + (if number d = TONG then 1 else 0), 0)
        else (cnt, tmp));
     Some (if tmp = 3 then
        (cnt + (if doorwind = number d then 1 else 0) + (if number d = TONG then 1 else 0) + 1, 0)
      else (cnt, tmp))
   })"

definition middle_step :: "mj list \<Rightarrow> mj \<Rightarrow> int \<Rightarrow> int \<times> int \<Rightarrow> (int \<times> int) option" where
  "middle_step decks drawn i = (\<lambda>(cnt, tmp). do {
     d \<leftarrow> at decks i;
     e \<leftarrow> at decks (i - 1);
     Some (if number d = number e - 2 \<and> type drawn = type d \<and> number drawn = number d - 1
       then cnt + 1 else cnt, tmp)
   })"

definition edge_step :: "mj list \<Rightarrow> mj \<Rightarrow> int \<Rightarrow> int \<times> int \<Rightarrow> (int \<times> int) option" where
  "edge_step decks drawn i = (\<lambda>(cnt, tmp). do {
     d \<leftarrow> at decks i;
     e \<leftarrow> at decks (i - 1);
     let cnt = (if number d = 2 \<and> number e = 1 \<and> type d = type drawn \<and> number drawn = 3
       then cnt + 1 else cnt);
     Some (if number d = 9 \<and> number e = 8 \<and> type d = type drawn \<and> number drawn = 7
       then cnt + 1 else cnt, tmp)
   })"

definition triplet_step :: "mj list \<Rightarrow> mj \<Rightarrow> int \<Rightarrow> int \<times> int \<Rightarrow> (int \<times> int) option" where
  "triplet_step decks drawn i = (\<lambda>(cnt, tmp). do {
     d \<leftarrow> at decks i;
     e \<leftarrow> at decks (i - 1);
     f \<leftarrow> at decks (i - 2);
     let tmp = (if mjsame d e \<and> mjsame d f then tmp + 1 else tmp);
     Some (cnt, if mjsame d e \<and> mjsame d drawn then tmp + 1 else tmp)
   })"

definition point :: "int \<Rightarrow> int \<Rightarrow> mj list \<Rightarrow> mj \<Rightarrow> int \<Rightarrow> int option" where
  "point base mul decks drawn doorwind = do {
     (cnt, _) \<leftarrow> point_pass (dragon_step decks drawn) [2..15] (0, 0);
     (cnt, _) \<leftarrow> point_pass (wind_step decks drawn doorwind) [2..15] (cnt, 0);
     (cnt, _) \<leftarrow> point_pass (middle_step decks drawn) [1..15] (cnt, 0);
     (cnt, _) \<leftarrow> point_pass (edge_step decks drawn) [1..15] (cnt, 0);
     (cnt, tmp) \<leftarrow> point_pass (triplet_step decks drawn) [2..15] (cnt, 0);
     let cnt = (if tmp = 5 then cnt + 4 else cnt);
     Some (base + cnt * mul)
   }"

subsection \<open>Bounds\<close>

lemma point_pass_bounds:
  assumes "\<And>i c t c' t'. i \<in> set is \<Longrightarrow> body i (c, t) = Some (c', t') \<Longrightarrow> c \<le> c' \<and> c' \<le> c + k"
    and "point_pass body is (c, t) = Some (c', t')"
  shows "c \<le> c' \<and> c' \<le> c + k * int (length is)"
  using assms
proof (induction "is" arbitrary: c t)
  case (Cons i "is")
  from Cons.prems(2) obtain c1 t1 where s: "body i (c, t) = Some (c1, t1)" "point_pass body is (c1, t1) = Some (c', t')"
    by (auto simp: bind_eq_Some_conv)
  have "c \<le> c1 \<and> c1 \<le> c + k" by (rule Cons.prems(1) [OF _ s(1)]) simp
  moreover have "c1 \<le> c' \<and> c' \<le> c1 + k * int (length is)" by (rule Cons.IH [OF _ s(2)]) (rule Cons.prems(1), simp_all)
  ultimately show ?case by (simp add: algebra_simps)
qed simp

lemma point_pass_runs:
  assumes "\<And>i acc. i \<in> set is \<Longrightarrow> \<exists>acc'. body i acc = Some acc'"
  shows "\<exists>acc'. point_pass body is acc = Some acc'"
  using assms
proof (induction "is" arbitrary: acc)
  case (Cons i "is")
  from Cons.prems obtain a where "body i acc = Some a" by (meson list.set_intros(1))
  with Cons show ?case by auto
qed simp

text \<open>A pass that adds nothing.\<close>

lemma point_pass_same:
  assumes "\<And>i c t c' t'. i \<in> set is \<Longrightarrow> body i (c, t) = Some (c', t') \<Longrightarrow> c' = c"
    and "point_pass body is (c, t) = Some (c', t')"
  shows "c' = c"
  using assms
proof (induction "is" arbitrary: c t)
  case (Cons i "is")
  from Cons.prems(2) obtain c1 t1 where s: "body i (c, t) = Some (c1, t1)" "point_pass body is (c1, t1) = Some (c', t')"
    by (auto simp: bind_eq_Some_conv)
  have "c1 = c" by (rule Cons.prems(1) [OF _ s(1)]) simp
  moreover have "c' = c1" by (rule Cons.IH [OF _ s(2)]) (rule Cons.prems(1), simp_all)
  ultimately show ?case by simp
qed simp


lemma dragon_step_bounds:
  assumes "dragon_step decks drawn i (c, t) = Some (c', t')"
  shows "c \<le> c' \<and> c' \<le> c + 1"
  using assms by (auto simp: dragon_step_def bind_eq_Some_conv Let_def split: if_splits)

lemma wind_step_bounds:
  assumes "wind_step decks drawn w i (c, t) = Some (c', t')"
  shows "c \<le> c' \<and> c' \<le> c + 3"
  using assms by (auto simp: wind_step_def bind_eq_Some_conv Let_def split: if_splits)

lemma middle_step_bounds:
  assumes "middle_step decks drawn i (c, t) = Some (c', t')"
  shows "c \<le> c' \<and> c' \<le> c + 1"
  using assms by (auto simp: middle_step_def bind_eq_Some_conv split: if_splits)

lemma edge_step_bounds:
  assumes "edge_step decks drawn i (c, t) = Some (c', t')"
  shows "c \<le> c' \<and> c' \<le> c + 1"
  using assms by (auto simp: edge_step_def bind_eq_Some_conv Let_def split: if_splits)

lemma triplet_step_bounds:
  assumes "triplet_step decks drawn i (c, t) = Some (c', t')"
  shows "c \<le> c' \<and> c' \<le> c + 0"
  using assms by (auto simp: triplet_step_def bind_eq_Some_conv Let_def split: if_splits)

lemma steps_run:
  assumes "0 \<le> i" "i < int (length decks)"
  shows "\<exists>a. dragon_step decks drawn i acc = Some a" "\<exists>a. wind_step decks drawn w i acc = Some a"
    "1 \<le> i \<Longrightarrow> \<exists>a. middle_step decks drawn i acc = Some a" "1 \<le> i \<Longrightarrow> \<exists>a. edge_step decks drawn i acc = Some a"
    "2 \<le> i \<Longrightarrow> \<exists>a. triplet_step decks drawn i acc = Some a"
  using assms by (cases acc; simp add: dragon_step_def wind_step_def middle_step_def edge_step_def triplet_step_def
      at_eq Let_def split: prod.split)+

text \<open>What the five passes of \<open>point\<close> add up to.\<close>

lemma point_cases:
  assumes "16 \<le> length decks"
  obtains c1 t1 c2 t2 c3 t3 c4 t4 c5 t5 where
    "point_pass (dragon_step decks drawn) [2..15] (0, 0) = Some (c1, t1)"
    "point_pass (wind_step decks drawn w) [2..15] (c1, 0) = Some (c2, t2)"
    "point_pass (middle_step decks drawn) [1..15] (c2, 0) = Some (c3, t3)"
    "point_pass (edge_step decks drawn) [1..15] (c3, 0) = Some (c4, t4)"
    "point_pass (triplet_step decks drawn) [2..15] (c4, 0) = Some (c5, t5)"
    "point base mul decks drawn w = Some (base + (if t5 = 5 then c5 + 4 else c5) * mul)"
proof -
  have "\<exists>a. point_pass (dragon_step decks drawn) [2..15] (0, 0) = Some a"
    by (intro point_pass_runs steps_run) (use assms in auto)
  moreover have "\<exists>a. point_pass (wind_step decks drawn w) [2..15] acc = Some a" for acc
    by (intro point_pass_runs steps_run) (use assms in auto)
  moreover have "\<exists>a. point_pass (middle_step decks drawn) [1..15] acc = Some a" for acc
    by (intro point_pass_runs steps_run) (use assms in auto)
  moreover have "\<exists>a. point_pass (edge_step decks drawn) [1..15] acc = Some a" for acc
    by (intro point_pass_runs steps_run) (use assms in auto)
  moreover have "\<exists>a. point_pass (triplet_step decks drawn) [2..15] acc = Some a" for acc
    by (intro point_pass_runs steps_run) (use assms in auto)
  ultimately obtain c1 t1 c2 t2 c3 t3 c4 t4 c5 t5 where p:
    "point_pass (dragon_step decks drawn) [2..15] (0, 0) = Some (c1, t1)"
    "point_pass (wind_step decks drawn w) [2..15] (c1, 0) = Some (c2, t2)"
    "point_pass (middle_step decks drawn) [1..15] (c2, 0) = Some (c3, t3)"
    "point_pass (edge_step decks drawn) [1..15] (c3, 0) = Some (c4, t4)"
    "point_pass (triplet_step decks drawn) [2..15] (c4, 0) = Some (c5, t5)"
    by (metis surj_pair)
  have "point base mul decks drawn w = Some (base + (if t5 = 5 then c5 + 4 else c5) * mul)"
    unfolding point_def by (simp only: p Option.bind.simps prod.case Let_def)
  with p show thesis by (rule that)
qed

subsection \<open>Properties\<close>

text \<open>
  \<open>point\<close> stays inside the sixteen tiles and counts at most 90: what it adds to the
  base is a multiple of \<open>mul\<close> between 0 and 90 times.
\<close>

theorem point_bounded:
  assumes "16 \<le> length decks"
  shows "\<exists>c. point base mul decks drawn doorwind = Some (base + c * mul) \<and> 0 \<le> c \<and> c \<le> 90"
proof -
  obtain c1 t1 c2 t2 c3 t3 c4 t4 c5 t5 where p:
    "point_pass (dragon_step decks drawn) [2..15] (0, 0) = Some (c1, t1)"
    "point_pass (wind_step decks drawn doorwind) [2..15] (c1, 0) = Some (c2, t2)"
    "point_pass (middle_step decks drawn) [1..15] (c2, 0) = Some (c3, t3)"
    "point_pass (edge_step decks drawn) [1..15] (c3, 0) = Some (c4, t4)"
    "point_pass (triplet_step decks drawn) [2..15] (c4, 0) = Some (c5, t5)"
    "point base mul decks drawn doorwind = Some (base + (if t5 = 5 then c5 + 4 else c5) * mul)"
    by (rule point_cases [OF assms])
  have "0 \<le> c1 \<and> c1 \<le> 14" using point_pass_bounds [OF dragon_step_bounds p(1)] by simp
  moreover have "c1 \<le> c2 \<and> c2 \<le> c1 + 42" using point_pass_bounds [OF wind_step_bounds p(2)] by simp
  moreover have "c2 \<le> c3 \<and> c3 \<le> c2 + 15" using point_pass_bounds [OF middle_step_bounds p(3)] by simp
  moreover have "c3 \<le> c4 \<and> c4 \<le> c3 + 15" using point_pass_bounds [OF edge_step_bounds p(4)] by simp
  moreover have "c4 \<le> c5 \<and> c5 \<le> c4 + 0" using point_pass_bounds [OF triplet_step_bounds p(5)] by simp
  ultimately have "0 \<le> c5" "c5 \<le> 86" by simp_all
  then show ?thesis using p(6) by (intro exI [of _ "if t5 = 5 then c5 + 4 else c5"]) simp
qed

text \<open>
  Property C36: a middle wait is not counted. In a hand in the order of the sort, the test for it
  compares a tile with the one before it and asks for a number that is smaller by two, which no two
  neighbours of one type have; so on a hand of one type the pass adds nothing, whatever is drawn.
\<close>

theorem middle_wait_missed:
  assumes "16 \<le> length decks" and "\<forall>i j. i \<le> j \<and> j < 16 \<longrightarrow> deck_key (decks ! i) \<le> deck_key (decks ! j)"
    and "\<forall>i < 16. type (decks ! i) = k"
  shows "\<exists>t. point_pass (middle_step decks drawn) [1..15] (c, t0) = Some (c, t)"
proof -
  have "\<exists>a. point_pass (middle_step decks drawn) [1..15] (c, t0) = Some a"
    by (intro point_pass_runs steps_run) (use assms(1) in auto)
  then obtain c' t where run: "point_pass (middle_step decks drawn) [1..15] (c, t0) = Some (c', t)" by (metis surj_pair)
  have "c' = c"
  proof (rule point_pass_same [OF _ run])
    fix i d u d' u' assume i: "i \<in> set [1..15]" and s: "middle_step decks drawn i (d, u) = Some (d', u')"
    have "nat (i - 1) \<le> nat i \<and> nat i < 16" "nat (i - 1) < 16" using i by auto
    then have "deck_key (decks ! nat (i - 1)) \<le> deck_key (decks ! nat i)" "type (decks ! nat (i - 1)) = type (decks ! nat i)"
      using assms(2,3) by auto
    then have "number (decks ! nat i) \<noteq> number (decks ! nat (i - 1)) - 2" by (simp add: deck_key_def)
    then show "d' = d" using s i assms(1) by (auto simp: middle_step_def bind_eq_Some_conv)
  qed
  then show ?thesis using run by blast
qed

text \<open>A hand that waits for the 5 between 4 and 6: it is worth nothing.\<close>

definition middle_hand :: "mj list" where
  "middle_hand = map (\<lambda>n. \<lparr>type = 1, number = n, priority = 0\<rparr>) [1, 1, 1, 2, 2, 3, 3, 4, 4, 6, 7, 7, 8, 8, 9, 9]"

theorem point_bounded_witness:
  "\<exists>c. point 0 1 middle_hand \<lparr>type = 1, number = 5, priority = 0\<rparr> 2 = Some c \<and> 0 \<le> c \<and> c \<le> 90"
  using point_bounded [of middle_hand 0 1 "\<lparr>type = 1, number = 5, priority = 0\<rparr>" 2] by (auto simp: middle_hand_def)

theorem middle_wait_missed_witness:
  "\<exists>t. point_pass (middle_step middle_hand \<lparr>type = 1, number = 5, priority = 0\<rparr>) [1..15] (0, 0) = Some (0, t)"
proof -
  have "\<forall>i \<in> set [0..<16]. \<forall>j \<in> set [0..<16]. i \<le> j \<longrightarrow> deck_key (middle_hand ! i) \<le> deck_key (middle_hand ! j)"
    and "\<forall>i \<in> set [0..<16]. type (middle_hand ! i) = 1" by code_simp+
  then have "\<forall>i j. i \<le> j \<and> j < 16 \<longrightarrow> deck_key (middle_hand ! i) \<le> deck_key (middle_hand ! j)"
    and "\<forall>i < 16. type (middle_hand ! i) = 1" by auto
  from middle_wait_missed [OF _ this] show ?thesis by (simp add: middle_hand_def)
qed

end
