(* ===== verification/UnpIO.thy ===== *)
theory UnpIO
  imports UnpRead
begin

text \<open>
  The other pieces of the bundled network library that are modelled: \<open>readn\<close> and \<open>writen\<close>
  (unpv13e/lib), and the conversion of IPv4 addresses (unpv13e/libfree), which the client's
  \<open>main\<close> calls on its argument.
\<close>

subsection \<open>readn and writen\<close>

text \<open>
  The loop of \<open>readn\<close> over the results of \<open>read\<close>, each of at most \<open>nleft\<close> bytes. The value
  is \<open>None\<close> for -1, and the bytes read otherwise.
\<close>

fun readn_loop :: "nat \<Rightarrow> string \<Rightarrow> read_event list \<Rightarrow> string option \<times> read_event list" where
  "readn_loop nleft acc [] = (Some acc, [])"
| "readn_loop nleft acc (e # es) =
     (if nleft = 0 then (Some acc, e # es)
      else case e of
        Failed \<Rightarrow> (None, es)
      | Interrupted \<Rightarrow> readn_loop nleft acc es
      | Bytes b \<Rightarrow>
          if b = [] then (Some acc, es)
          else if length b \<le> nleft then readn_loop (nleft - length b) (acc @ b) es
          else (Some (acc @ take nleft b), Bytes (drop nleft b) # es))"

definition readn :: "int \<Rightarrow> nat \<Rightarrow> 'z io_scheme \<Rightarrow> (int \<times> string) \<times> 'z io_scheme" where
  "readn fd n s =
     (case readn_loop n [] (net s fd) of
        (None, es) \<Rightarrow> ((-1, []), s\<lparr>net := (net s)(fd := es)\<rparr>)
      | (Some b, es) \<Rightarrow> ((int (length b), b), s\<lparr>net := (net s)(fd := es)\<rparr>))"

definition Readn :: "int \<Rightarrow> nat \<Rightarrow> ('z io_scheme, int \<times> string) prog" where
  "Readn fd n s =
     (case readn fd n s of ((r, b), t) \<Rightarrow>
        if r < 0 then (Inl (Exited 1), t\<lparr>console := console t @ [''readn error'']\<rparr>)
        else (Inr (r, b), t))"

text \<open>The results of the coming calls of \<open>write\<close>: at most so many bytes, or an error.\<close>

datatype write_event = Wrote nat | WriteInterrupted | WriteFailed

text \<open>The bytes that went out, the rest of the results, and whether all were written.\<close>

fun writen_loop :: "string \<Rightarrow> string \<Rightarrow> write_event list \<Rightarrow> (bool \<times> string) \<times> write_event list" where
  "writen_loop [] out ws = ((True, out), ws)"
| "writen_loop (c # cs) out [] = ((False, out), [])"
| "writen_loop (c # cs) out (Wrote k # ws) =
     (if k = 0 then ((False, out), ws)
      else writen_loop (drop k (c # cs)) (out @ take k (c # cs)) ws)"
| "writen_loop (c # cs) out (WriteInterrupted # ws) = writen_loop (c # cs) out ws"
| "writen_loop (c # cs) out (WriteFailed # ws) = ((False, out), ws)"

definition writen :: "string \<Rightarrow> write_event list \<Rightarrow> (int \<times> string) \<times> write_event list" where
  "writen msg ws =
     (case writen_loop msg [] ws of ((ok, out), ws') \<Rightarrow>
        ((if ok then int (length msg) else -1, out), ws'))"

text \<open>\<open>Writen\<close> ends the process when not everything was written.\<close>

definition Writen :: "string \<Rightarrow> write_event list \<Rightarrow> (fault + string) \<times> write_event list" where
  "Writen msg ws =
     (case writen msg ws of ((r, out), ws') \<Rightarrow>
        (if r \<noteq> int (length msg) then Inl (Exited 1) else Inr out, ws'))"

lemma readn_loop_stream:
  "readn_loop n acc es = (Some b, es') \<Longrightarrow>
     \<exists>k. b = acc @ k \<and> length k \<le> n \<and> (\<exists>r. stream es = k @ r \<and> (length k < n \<longrightarrow> r = []))"
proof (induction n acc es rule: readn_loop.induct)
  case (1 nleft acc)
  then show ?case by auto
next
  case (2 nleft acc e es)
  show ?case
  proof (cases e)
    case (Bytes d)
    consider "nleft = 0" | "nleft \<noteq> 0" "d = []" | "nleft \<noteq> 0" "d \<noteq> []" "length d \<le> nleft"
      | "nleft \<noteq> 0" "d \<noteq> []" "nleft < length d" by linarith
    then show ?thesis
    proof cases
      case 3
      with "2.prems" Bytes have "readn_loop (nleft - length d) (acc @ d) es = (Some b, es')" by simp
      with "2.IH"(1) [OF 3(1) Bytes 3(2,3)] obtain k r where
        "b = (acc @ d) @ k" "length k \<le> nleft - length d" "stream es = k @ r"
        "length k < nleft - length d \<longrightarrow> r = []" by blast
      with 3 Bytes show ?thesis by (intro exI [of _ "d @ k"]) auto
    next
      case 4
      with "2.prems" Bytes have "b = acc @ take nleft d" by auto
      with 4 Bytes show ?thesis
        by (intro exI [of _ "take nleft d"]) (auto intro!: exI [of _ "drop nleft d @ stream es"] simp flip: append_assoc)
    qed (use "2.prems" Bytes in auto)
  qed (use 2 in \<open>auto split: if_splits\<close>)
qed

lemma writen_loop_ok:
  "writen_loop msg out ws = ((ok, out'), ws') \<Longrightarrow>
     \<exists>k \<le> length msg. out' = out @ take k msg \<and> (ok \<longrightarrow> k = length msg)"
proof (induction msg out ws rule: writen_loop.induct)
  case (3 c cs out k ws)
  show ?case
  proof (cases "k = 0")
    case False
    with 3 obtain j where j: "j \<le> length (drop k (c # cs))"
      "out' = (out @ take k (c # cs)) @ take j (drop k (c # cs))"
      "ok \<longrightarrow> j = length (drop k (c # cs))" by auto
    then have "out' = out @ take (k + j) (c # cs)" by (simp add: take_add)
    moreover have "ok \<longrightarrow> length (c # cs) \<le> k + j" and "k \<le> length (c # cs) \<longrightarrow> k + j \<le> length (c # cs)"
      using j by auto
    ultimately show ?thesis
      using j by (intro exI [of _ "min (k + j) (length (c # cs))"]) (auto simp: min_def)
  qed (use 3 in \<open>auto intro: exI [of _ 0]\<close>)
qed (auto intro: exI [of _ 0])

subsection \<open>IPv4 addresses\<close>

text \<open>
  \<open>inet_pton4\<close>: \<open>tp\<close> is the array \<open>tmp\<close> up to the pointer, the last octet first. An octet
  is a byte because a larger value returns.
\<close>

fun pton4_loop :: "string \<Rightarrow> bool \<Rightarrow> nat \<Rightarrow> nat list \<Rightarrow> nat list option" where
  "pton4_loop [] saw_digit octets tp = (if octets < 4 then None else Some (rev tp))"
| "pton4_loop (ch # src) saw_digit octets tp =
     (if is_digit ch then
        let new = hd tp * 10 + digit_val ch in
        if new > 255 then None
        else if saw_digit then pton4_loop src True octets (new # tl tp)
        else if octets + 1 > 4 then None
        else pton4_loop src True (octets + 1) (new # tl tp)
      else if ch = CHR ''.'' \<and> saw_digit then
        (if octets = 4 then None else pton4_loop src False octets (0 # tp))
      else None)"

definition inet_pton4 :: "string \<Rightarrow> nat list option" where
  "inet_pton4 src = pton4_loop (cstr src) False 0 [0]"

text \<open>\<open>inet_ntop4\<close>: the text that is copied to \<open>dst\<close>, or nothing when it does not fit.\<close>

fun dotted :: "nat list \<Rightarrow> string" where
  "dotted [] = []"
| "dotted [a] = show_nat a"
| "dotted (a # as) = show_nat a @ ''.'' @ dotted as"

definition inet_ntop4 :: "nat list \<Rightarrow> nat \<Rightarrow> string option" where
  "inet_ntop4 src dst_size =
     (let tmp = dotted (take 4 src) in if length tmp > dst_size then None else Some tmp)"

text \<open>Reading the digits of an octet.\<close>

lemma foldl_digits_mono: "v \<le> foldl (\<lambda>v c. 10 * v + digit_val c) v ds"
proof (induction ds arbitrary: v)
  case (Cons d ds)
  have "v \<le> 10 * v + digit_val d" by simp
  also have "\<dots> \<le> foldl (\<lambda>v c. 10 * v + digit_val c) (10 * v + digit_val d) ds" by (rule Cons)
  finally show ?case by simp
qed simp

lemma pton4_digits:
  assumes "\<forall>c \<in> set ds. is_digit c" and "foldl (\<lambda>v c. 10 * v + digit_val c) v ds \<le> 255"
  shows "pton4_loop (ds @ r) True k (v # tp) =
     pton4_loop r True k (foldl (\<lambda>v c. 10 * v + digit_val c) v ds # tp)"
  using assms
proof (induction ds arbitrary: v)
  case (Cons d ds)
  then have le: "10 * v + digit_val d \<le> 255"
    using foldl_digits_mono [of "10 * v + digit_val d" ds] by simp
  with Cons show ?case by (simp add: Let_def mult.commute)
qed simp

lemma pton4_octet:
  assumes "a \<le> 255" and "k < 4"
  shows "pton4_loop (show_nat a @ r) False k (0 # tp) = pton4_loop r True (Suc k) (a # tp)"
proof -
  obtain d ds where d: "d < 10" "show_nat a = digit_char d # ds" using show_nat_Cons by blast
  have dig: "\<forall>c \<in> set ds. is_digit c"
    using show_nat_digits [of _ a] d(2) by fastforce
  have v: "foldl (\<lambda>v c. 10 * v + digit_val c) d ds = a"
    using digits_val_show_nat [of a] d by (simp add: digits_val_def)
  then have "d \<le> 255" using d by simp
  then show ?thesis
    using d pton4_digits [of ds d r "Suc k" tp] dig v assms by (simp add: Let_def)
qed

lemma pton4_dot: "k < 4 \<Longrightarrow> pton4_loop (CHR ''.'' # r) True k tp = pton4_loop r False k (0 # tp)"
  by (simp add: is_digit_def)

lemma dotted_no_NUL: "NUL \<notin> set (dotted as)"
  by (induction "as" rule: dotted.induct) (auto simp: show_nat_no_NUL [unfolded NUL_def] NUL_def)

lemma inet_pton4_dotted:
  assumes "a \<le> 255" "b \<le> 255" "c \<le> 255" "d \<le> 255"
  shows "inet_pton4 (dotted [a, b, c, d]) = Some [a, b, c, d]"
proof -
  have e: "dotted [a, b, c, d] = show_nat a @ CHR ''.'' # show_nat b @ CHR ''.'' # show_nat c @ CHR ''.'' # show_nat d @ []"
    by simp
  show ?thesis
    unfolding inet_pton4_def cstr_id [OF dotted_no_NUL] unfolding e
    by (simp only: pton4_octet [OF assms(1)] pton4_octet [OF assms(2)] pton4_octet [OF assms(3)]
        pton4_octet [OF assms(4)] pton4_dot) (simp add: pton4_octet pton4_dot assms)
qed

end
