(* ===== verification/Deal.thy ===== *)
theory Deal
  imports Wall
begin

text \<open>
  What the deal does: from a shuffled wall and empty hands to four sorted hands of sixteen
  playable tiles, with every flower that came up in a flower pile and no tile lost. No access
  leaves an array and the replacement of flowers ends.
\<close>

subsection \<open>A hand in order\<close>

text \<open>The tiles of the capacity are playable and sorted, behind them all is null.\<close>

definition hand_ok :: "player \<Rightarrow> bool" where
  "hand_ok q \<longleftrightarrow> length (decks q) = 20 \<and> 0 \<le> normal_capacity q \<and> normal_capacity q \<le> 16 \<and>
     (\<forall>k < 20. if int k < normal_capacity q then playable (decks q ! k) else is_null (decks q ! k)) \<and>
     sorted_range deck_key 0 (normal_capacity q - 1) (decks q)"

definition good :: "mj \<Rightarrow> bool" where
  "good m \<longleftrightarrow> playable m \<or> is_flower m"

lemma good_not_null: "good m \<Longrightarrow> \<not> is_null m"
  by (auto simp: good_def is_flower_def is_null_def playable_def)

lemma good_kind: "kind m = kind n \<Longrightarrow> good m \<longleftrightarrow> good n"
  by (simp add: good_def kind_def playable_def is_flower_def)

lemma good_flower: "good m \<Longrightarrow> type m = FLOWER \<longleftrightarrow> \<not> playable m"
  by (auto simp: good_def is_flower_def playable_def)

lemma all_kinds_good: "kind m \<in> set all_kinds \<Longrightarrow> good m"
  by (auto simp: all_kinds_def suit_kinds_def good_def playable_def is_flower_def kind_def)

lemma all_kinds_flowers: "size (filter_mset (\<lambda>k. fst k = FLOWER) (mset all_kinds)) = 8"
proof -
  have "length (filter (\<lambda>k. fst k = FLOWER) all_kinds) = 8" by code_simp
  then show ?thesis by (metis mset_filter size_mset)
qed

definition full :: "server \<Rightarrow> bool" where
  "full s \<longleftrightarrow> full_wall (shuffled_mjs s) \<and> table s = mset all_kinds"

lemma full_wall_good: "full_wall w \<Longrightarrow> k < 144 \<Longrightarrow> good (w ! k)"
proof (rule all_kinds_good)
  assume w: "full_wall w" and k: "k < 144"
  then have "w ! k \<in> set w" by (simp add: full_wall_def)
  then have "kind (w ! k) \<in># kinds w" by (simp add: kinds_def)
  then show "kind (w ! k) \<in> set all_kinds" using w by (simp add: full_wall_def)
qed

lemma holdings_table:
  assumes "p \<in> {0..3}"
  shows "holdings (players s p) \<subseteq># table s"
proof -
  have part: "h \<subseteq># t" if "t = h + r" for h t r :: "(int \<times> int) multiset"
    using that by simp
  consider "p = 0" | "p = 1" | "p = 2" | "p = 3" using assms by fastforce
  then show ?thesis
  proof cases
    case 1
    show ?thesis unfolding 1 table_def
      by (rule part [of _ _ "holdings (players s 1) + holdings (players s 2) + holdings (players s 3) + wall_kinds s"])
        (simp add: add_ac)
  next
    case 2
    show ?thesis unfolding 2 table_def
      by (rule part [of _ _ "holdings (players s 0) + holdings (players s 2) + holdings (players s 3) + wall_kinds s"])
        (simp add: add_ac)
  next
    case 3
    show ?thesis unfolding 3 table_def
      by (rule part [of _ _ "holdings (players s 0) + holdings (players s 1) + holdings (players s 3) + wall_kinds s"])
        (simp add: add_ac)
  next
    case 4
    show ?thesis unfolding 4 table_def
      by (rule part [of _ _ "holdings (players s 0) + holdings (players s 1) + holdings (players s 2) + wall_kinds s"])
        (simp add: add_ac)
  qed
qed

lemma deck_good:
  assumes "full s" and "p \<in> {0..3}" and "m \<in> set (decks (players s p))"
  shows "is_null m \<or> good m"
proof (rule disjCI)
  assume "\<not> good m"
  show "is_null m"
  proof (rule ccontr)
    assume n: "\<not> is_null m"
    then have "kind m \<in># real_kinds (decks (players s p))"
      using assms(3) by (auto simp: real_kinds_def is_null_kind)
    then have "kind m \<in># holdings (players s p)" by (simp add: holdings_def)
    then have "kind m \<in># table s" by (rule mset_subset_eqD [OF holdings_table [OF assms(2)]])
    then have "kind m \<in> set all_kinds" using assms(1) by (simp add: full_def)
    then show False using all_kinds_good \<open>\<not> good m\<close> by blast
  qed
qed

subsection \<open>Before the deal\<close>

definition fresh_player :: "player \<Rightarrow> bool" where
  "fresh_player q \<longleftrightarrow> (\<exists>fd. q = \<lparr>player_fd = fd, flower_index = 0, door_index = 0, sea_index = 0,
     normal_capacity = 16, decks = replicate 20 null_mj, flowers = replicate 8 null_mj,
     door = replicate 20 null_mj, sea = replicate 150 null_mj\<rparr>)"

lemma fresh_init: "fresh_player (player_gameinfo_init q)"
  by (cases q) (simp add: fresh_player_def player_gameinfo_init_def)

lemma game_init_run:
  "game_init s = (Inr 0, s\<lparr>winner := -1, take_index := 0, discarded_mj := clear_mj (discarded_mj s),
     players := (players s)(0 := player_gameinfo_init (players s 0), 1 := player_gameinfo_init (players s 1),
       2 := player_gameinfo_init (players s 2), 3 := player_gameinfo_init (players s 3))\<rparr>)"
  by (simp add: game_init_def)

definition ready :: "server \<Rightarrow> bool" where
  "ready s \<longleftrightarrow> take_index s = 0 \<and> (\<forall>p \<in> {0..3}. fresh_player (players s p))"

lemma game_init_ready: "game_init s = (v, t) \<Longrightarrow> ready t \<and> winner t = -1"
  unfolding game_init_run ready_def
proof -
  assume "(Inr 0, s\<lparr>winner := -1, take_index := 0, discarded_mj := clear_mj (discarded_mj s),
     players := (players s)(0 := player_gameinfo_init (players s 0), 1 := player_gameinfo_init (players s 1),
       2 := player_gameinfo_init (players s 2), 3 := player_gameinfo_init (players s 3))\<rparr>) = (v, t)"
  then have "t = s\<lparr>winner := -1, take_index := 0, discarded_mj := clear_mj (discarded_mj s),
     players := (players s)(0 := player_gameinfo_init (players s 0), 1 := player_gameinfo_init (players s 1),
       2 := player_gameinfo_init (players s 2), 3 := player_gameinfo_init (players s 3))\<rparr>" by simp
  moreover have "p = 0 \<or> p = 1 \<or> p = 2 \<or> p = 3" if "p \<in> {0..3}" for p :: int using that by auto
  ultimately show "(take_index t = 0 \<and> (\<forall>p\<in>{0..3}. fresh_player (players t p))) \<and> winner t = -1"
    by (auto simp: fresh_init)
qed

lemma fresh_holdings: "fresh_player q \<Longrightarrow> holdings q = {#}"
  by (auto simp: fresh_player_def holdings_def real_kinds_none)

lemma ready_full:
  assumes "ready s" and "full_wall (shuffled_mjs s)"
  shows "full s"
  using assms by (simp add: full_def table_def wall_kinds_def ready_def fresh_holdings full_wall_def)

subsection \<open>The sixteen tiles\<close>

text \<open>
  The place \<open>k\<close> of player \<open>p\<close> is filled by the grab of this number, counted from 0, when the
  deal starts at player \<open>p0\<close>.
\<close>

definition grab_number :: "int \<Rightarrow> int \<Rightarrow> nat \<Rightarrow> int" where
  "grab_number p0 p k = 16 * (int k div 4) + 4 * ((p - p0) mod 4) + int k mod 4"

definition dealt_to :: "int \<Rightarrow> int \<Rightarrow> server \<Rightarrow> bool" where
  "dealt_to p0 n s \<longleftrightarrow> full s \<and> take_index s = n \<and>
     (\<forall>p \<in> {0..3}. shape (players s p) \<and> normal_capacity (players s p) = 16 \<and>
        flower_index (players s p) = 0 \<and>
        (\<forall>k < 20. is_null (decks (players s p) ! k) \<longleftrightarrow> \<not> (k < 16 \<and> grab_number p0 p k < n)))"

lemma grab_number_inj:
  assumes "p0 \<in> {0..3}" "p \<in> {0..3}" "0 \<le> time" "time < 4" "0 \<le> add" "add < 4" "0 \<le> g" "g < 4"
  shows "grab_number p0 p k = 16 * time + 4 * add + g \<longleftrightarrow>
     p = (p0 + add) mod 4 \<and> int k = time * 4 + g"
proof -
  have digits: "16 * a + 4 * b + c = 16 * time + 4 * add + g \<longleftrightarrow> a = time \<and> b = add \<and> c = g"
    if "0 \<le> b" "b < 4" "0 \<le> c" "c < 4" for a b c :: int
  proof
    assume e: "16 * a + 4 * b + c = 16 * time + 4 * add + g"
    have "\<not> a < time" "\<not> time < a" using e that assms by linarith+
    then have a: "a = time" by simp
    have "\<not> b < add" "\<not> add < b" using e a that assms by linarith+
    then show "a = time \<and> b = add \<and> c = g" using a e by simp
  qed simp
  have k: "int k div 4 = time \<and> int k mod 4 = g \<longleftrightarrow> int k = time * 4 + g"
    using assms(7,8) by auto
  have "p0 = 0 \<or> p0 = 1 \<or> p0 = 2 \<or> p0 = 3" "p = 0 \<or> p = 1 \<or> p = 2 \<or> p = 3"
    "add = 0 \<or> add = 1 \<or> add = 2 \<or> add = 3" using assms by auto
  then have p: "(p - p0) mod 4 = add \<longleftrightarrow> p = (p0 + add) mod 4" by (elim disjE) simp_all
  have "grab_number p0 p k = 16 * time + 4 * add + g \<longleftrightarrow>
      int k div 4 = time \<and> (p - p0) mod 4 = add \<and> int k mod 4 = g"
    unfolding grab_number_def by (rule digits) simp_all
  with k p show ?thesis by blast
qed

lemma grab_step:
  assumes "p0 \<in> {0..3}" "0 \<le> time" "time < 4" "0 \<le> add" "add < 4" "0 \<le> g" "g < 4"
  shows "triple (dealt_to p0 (16 * time + 4 * add + g))
     (bindp take_tile (\<lambda>m. update_player ((p0 + add) mod 4) (put_deck (time * 4 + g) m)))
     (\<lambda>_. dealt_to p0 (16 * time + 4 * add + (g + 1))) (\<lambda>_ _. False)"
proof -
  let ?n = "16 * time + 4 * add + g" and ?p = "(p0 + add) mod 4" and ?k = "time * 4 + g"
  have run: "\<exists>t. bindp take_tile (\<lambda>m. update_player ?p (put_deck ?k m)) s = (Inr (), t) \<and>
      dealt_to p0 (16 * time + 4 * add + (g + 1)) t" if D: "dealt_to p0 ?n s" for s
  proof -
    have p: "?p \<in> {0..3}" by simp
    have n: "0 \<le> ?n" "?n < 64" using assms by auto
    have w: "full_wall (shuffled_mjs s)" "take_index s = ?n" using D by (auto simp: dealt_to_def full_def)
    let ?m = "shuffled_mjs s ! nat ?n" and ?u = "s\<lparr>take_index := take_index s + 1\<rparr>"
    have tk: "take_tile s = (Inr ?m, ?u)"
      using w n by (simp add: take_tile_run full_wall_def at_eq)
    let ?q = "players s ?p"
    have q: "shape ?q" using D p by (simp add: dealt_to_def)
    have k: "0 \<le> ?k" "?k < 16" using assms by auto
    define q' where "q' = ?q\<lparr>decks := (decks ?q)[nat ?k := ?m]\<rparr>"
    have put: "put_deck ?k ?m ?q = Some q'"
      using q k by (simp add: put_deck_def set_at_eq shape_def q'_def)
    define t where "t = ?u\<lparr>players := (players s)(?p := q')\<rparr>"
    have runs: "bindp take_tile (\<lambda>m. update_player ?p (put_deck ?k m)) s = (Inr (), t)"
      using tk put by (simp add: update_player_run t_def)
    have good: "good ?m" using full_wall_good [OF w(1), of "nat ?n"] n by simp
    have num: "grab_number p0 p j = ?n \<longleftrightarrow> p = ?p \<and> int j = ?k" if "p \<in> {0..3}" for p j
      by (rule grab_number_inj) (use assms that in auto)
    have "is_null (decks ?q ! nat ?k)"
      using D p k num [OF p, of "nat ?k"] by (auto simp: dealt_to_def)
    then have "holdings q' = add_mset (kind ?m) (holdings ?q)"
      using put_deck_holdings [OF put] good good_not_null by simp
    moreover have "table t + holdings ?q = table ?u + holdings q'"
      unfolding t_def using table_update [OF p, of ?u q'] by simp
    ultimately have "table t = add_mset (kind ?m) (table ?u)" by simp
    also have "\<dots> = table s" using table_take [OF tk] by simp
    finally have "full t" using D by (simp add: full_def dealt_to_def t_def)
    moreover have "take_index t = ?n + 1" using w by (simp add: t_def)
    moreover have "shape (players t p) \<and> normal_capacity (players t p) = 16 \<and>
        flower_index (players t p) = 0 \<and>
        (\<forall>j < 20. is_null (decks (players t p) ! j) \<longleftrightarrow> \<not> (j < 16 \<and> grab_number p0 p j < ?n + 1))"
      if P: "p \<in> {0..3}" for p
    proof -
      have old: "shape (players s p)" "normal_capacity (players s p) = 16" "flower_index (players s p) = 0"
        "\<forall>j < 20. is_null (decks (players s p) ! j) \<longleftrightarrow> \<not> (j < 16 \<and> grab_number p0 p j < ?n)"
        using D P by (auto simp: dealt_to_def)
      have "is_null (decks (players t p) ! j) \<longleftrightarrow> \<not> (j < 16 \<and> grab_number p0 p j < ?n + 1)" if j: "j < 20" for j
      proof (cases "p = ?p \<and> int j = ?k")
        case True
        then have "nat ?k = j" by linarith
        then have "decks (players t p) ! j = ?m" using True q k by (simp add: t_def q'_def shape_def)
        then show ?thesis using True k good good_not_null num [OF P, of j] by auto
      next
        case False
        then have "p \<noteq> ?p \<or> nat ?k \<noteq> j" using k by auto
        then have "decks (players t p) ! j = decks (players s p) ! j"
          by (auto simp: t_def q'_def nth_list_update)
        moreover have "grab_number p0 p j < ?n + 1 \<longleftrightarrow> grab_number p0 p j < ?n"
          using num [OF P, of j] False by linarith
        ultimately show ?thesis using old(4) j by simp
      qed
      then show ?thesis using old by (auto simp: t_def q'_def shape_def)
    qed
    ultimately have "dealt_to p0 (16 * time + 4 * add + (g + 1)) t"
      by (simp add: dealt_to_def algebra_simps)
    with runs show ?thesis by blast
  qed
  show ?thesis by (rule tripleI) (use run in fastforce)+
qed

lemma deal_tiles_dealt:
  assumes "p0 \<in> {0..3}"
  shows "triple (dealt_to p0 0) (deal_tiles p0) (\<lambda>_. dealt_to p0 64) (\<lambda>_ _. False)"
proof -
  have grabs: "triple (dealt_to p0 (16 * time + 4 * add)) (forp [0..3] (\<lambda>g. bindp take_tile (\<lambda>m.
      update_player ((p0 + add) mod 4) (put_deck (time * 4 + g) m))))
      (\<lambda>_. dealt_to p0 (16 * time + 4 * (add + 1))) (\<lambda>_ _. False)"
    if "0 \<le> time" "time < 4" "0 \<le> add" "add < 4" for time add
    using triple_forp_upto [of 0 4 "\<lambda>g. dealt_to p0 (16 * time + 4 * add + g)"] grab_step [OF assms that]
    by (simp add: algebra_simps)
  have players: "triple (dealt_to p0 (16 * time)) (forp [0..3] (\<lambda>add. forp [0..3] (\<lambda>g. bindp take_tile (\<lambda>m.
      update_player ((p0 + add) mod 4) (put_deck (time * 4 + g) m)))))
      (\<lambda>_. dealt_to p0 (16 * (time + 1))) (\<lambda>_ _. False)" if "0 \<le> time" "time < 4" for time
    using triple_forp_upto [of 0 4 "\<lambda>add. dealt_to p0 (16 * time + 4 * add)"] grabs [OF that]
    by (simp add: algebra_simps)
  show ?thesis
    unfolding deal_tiles_def
    using triple_forp_upto [of 0 4 "\<lambda>time. dealt_to p0 (16 * time)"] players by simp
qed

subsection \<open>Flowers\<close>

definition flowers_out :: "server \<Rightarrow> int" where
  "flowers_out s = flower_index (players s 0) + flower_index (players s 1) +
     flower_index (players s 2) + flower_index (players s 3)"

text \<open>All sixteen places are filled; the flower piles hold flowers, one for each tile taken since.\<close>

definition dealing :: "server \<Rightarrow> bool" where
  "dealing s \<longleftrightarrow> full s \<and> take_index s = 64 + flowers_out s \<and>
     (\<forall>p \<in> {0..3}. shape (players s p) \<and> normal_capacity (players s p) = 16 \<and>
        (\<forall>k < 20. is_null (decks (players s p) ! k) \<longleftrightarrow> 16 \<le> k) \<and>
        (\<forall>m \<in> set (take (nat (flower_index (players s p))) (flowers (players s p))). type m = FLOWER))"

lemma dealt_dealing:
  assumes "dealt_to p0 64 s"
  shows "dealing s"
proof -
  have "grab_number p0 p k < 64" if "k < 16" for p k
  proof -
    have "int k div 4 \<le> 3" "(p - p0) mod 4 \<le> 3" "int k mod 4 \<le> 3"
      using that pos_mod_bound [of 4 "p - p0"] by (simp_all, linarith?)
    then show ?thesis unfolding grab_number_def by linarith
  qed
  with assms show ?thesis by (auto simp: dealt_to_def dealing_def flowers_out_def)
qed

definition flower_count :: "(int \<times> int) multiset \<Rightarrow> nat" where
  "flower_count k = size (filter_mset (\<lambda>k. fst k = FLOWER) k)"

lemma flower_count_simps [simp]:
  "flower_count {#} = 0" "flower_count (a + b) = flower_count a + flower_count b"
  "flower_count (add_mset k a) = (if fst k = FLOWER then 1 else 0) + flower_count a"
  by (simp_all add: flower_count_def)

lemma flower_count_kinds: "\<forall>m \<in> set xs. type m = FLOWER \<Longrightarrow> flower_count (kinds xs) = length xs"
  by (induction xs) (auto simp: kind_def)

lemma flower_count_pos:
  assumes "k < length xs" and "type (xs ! k) = FLOWER"
  shows "1 \<le> flower_count (real_kinds xs)"
proof -
  have "xs ! k \<in> set xs" using assms(1) by simp
  moreover have "\<not> is_null (xs ! k)" using assms(2) by (simp add: is_null_def)
  ultimately have "kind (xs ! k) \<in># real_kinds xs" by (auto simp: real_kinds_def is_null_kind)
  then obtain r where "real_kinds xs = add_mset (kind (xs ! k)) r" by (metis insert_DiffM)
  then show ?thesis using assms(2) by (simp add: kind_def)
qed

lemma flowers_counted:
  assumes D: "dealing s"
  shows "flowers_out s + int (flower_count (real_kinds (decks (players s 0))) +
     flower_count (real_kinds (decks (players s 1))) + flower_count (real_kinds (decks (players s 2))) +
     flower_count (real_kinds (decks (players s 3)))) \<le> 8"
proof -
  let ?f = "\<lambda>p. flower_count (holdings (players s p))"
  have low: "flower_index (players s r) + int (flower_count (real_kinds (decks (players s r)))) \<le> int (?f r)"
    if "r \<in> {0..3}" for r
  proof -
    let ?q = "players s r"
    have q: "shape ?q" "\<forall>m \<in> set (take (nat (flower_index ?q)) (flowers ?q)). type m = FLOWER"
      using D that by (auto simp: dealing_def)
    then have "flower_count (kinds (take (nat (flower_index ?q)) (flowers ?q))) = nat (flower_index ?q)"
      by (auto simp: flower_count_kinds shape_def min_def)
    then show ?thesis using q(1) by (simp add: holdings_def shape_def)
  qed
  have "?f 0 + ?f 1 + ?f 2 + ?f 3 \<le> flower_count (table s)" by (simp add: table_def)
  also have "\<dots> = 8" using D all_kinds_flowers by (simp add: dealing_def full_def flower_count_def)
  finally have "?f 0 + ?f 1 + ?f 2 + ?f 3 \<le> 8" .
  then have "int (?f 0) + int (?f 1) + int (?f 2) + int (?f 3) \<le> 8" by linarith
  moreover note low [of 0] low [of 1] low [of 2] low [of 3]
  ultimately show ?thesis unfolding flowers_out_def of_nat_add by fastforce
qed

lemma flowers_room:
  assumes D: "dealing s" and p: "p \<in> {0..3}" and "k < 20" and "type (decks (players s p) ! k) = FLOWER"
  shows "flowers_out s < 8"
proof -
  have "1 \<le> flower_count (real_kinds (decks (players s p)))"
    using D p assms(3,4) by (intro flower_count_pos [of k]) (auto simp: dealing_def shape_def)
  moreover have "p = 0 \<or> p = 1 \<or> p = 2 \<or> p = 3" using p by auto
  ultimately show ?thesis using flowers_counted [OF D] by (elim disjE) simp_all
qed

lemma flower_index_room:
  assumes "dealing s" and "p \<in> {0..3}"
  shows "0 \<le> flower_index (players s p)" "flower_index (players s p) \<le> flowers_out s"
proof -
  have nn: "0 \<le> flower_index (players s r)" if "r \<in> {0..3}" for r
    using assms(1) that by (auto simp: dealing_def shape_def)
  have "p = 0 \<or> p = 1 \<or> p = 2 \<or> p = 3" using assms(2) by auto
  with nn [of 0] nn [of 1] nn [of 2] nn [of 3]
  show "0 \<le> flower_index (players s p)" "flower_index (players s p) \<le> flowers_out s"
    by (auto simp: flowers_out_def)
qed

text \<open>A flower goes to the pile and the next tile of the wall into its place.\<close>

lemma flower_step:
  assumes D: "dealing s" and p: "p \<in> {0..3}" and k: "k < 20" and m: "m = decks (players s p) ! k"
    and "type m = FLOWER"
  shows "\<exists>t. thenp (update_player p (push_flower m)) (bindp take_tile (\<lambda>n.
           thenp (update_player p (put_deck (int k) n)) (ret c))) s = (Inr c, t) \<and>
         dealing t \<and> flowers_out t = flowers_out s + 1 \<and>
         (\<forall>r. r \<noteq> p \<longrightarrow> decks (players t r) = decks (players s r))"
proof -
  let ?q = "players s p"
  have q: "shape ?q" "normal_capacity ?q = 16" "\<forall>j < 20. is_null (decks ?q ! j) \<longleftrightarrow> 16 \<le> j"
    "\<forall>m \<in> set (take (nat (flower_index ?q)) (flowers ?q)). type m = FLOWER"
    using D p by (auto simp: dealing_def)
  have room: "flowers_out s < 8" using flowers_room [OF D p k] assms(5) m by simp
  note fi = flower_index_room [OF D p]
  have k16: "k < 16"
    using q(3) k assms(5) m by (metis is_null_def FLOWER_def not_le zero_neq_numeral)
  define q1 where "q1 = ?q\<lparr>flowers := (flowers ?q)[nat (flower_index ?q) := m], flower_index := flower_index ?q + 1\<rparr>"
  have push: "push_flower m ?q = Some q1"
    using q(1) fi room by (simp add: push_flower_def set_at_eq shape_def q1_def)
  define s1 where "s1 = s\<lparr>players := (players s)(p := q1)\<rparr>"
  have w: "full_wall (shuffled_mjs s)" "take_index s = 64 + flowers_out s"
    using D by (auto simp: dealing_def full_def)
  have nn: "0 \<le> flowers_out s" using fi by simp
  let ?n = "shuffled_mjs s ! nat (take_index s)"
  define s2 where "s2 = s1\<lparr>take_index := take_index s + 1\<rparr>"
  have tk: "take_tile s1 = (Inr ?n, s2)"
    using w room nn by (simp add: take_tile_run full_wall_def at_eq s1_def s2_def)
  define q2 where "q2 = q1\<lparr>decks := (decks ?q)[k := ?n]\<rparr>"
  have put: "put_deck (int k) ?n q1 = Some q2"
    using q(1) k by (simp add: put_deck_def set_at_eq shape_def q1_def q2_def)
  define t where "t = s2\<lparr>players := (players s2)(p := q2)\<rparr>"
  have run: "thenp (update_player p (push_flower m)) (bindp take_tile (\<lambda>n.
      thenp (update_player p (put_deck (int k) n)) (ret c))) s = (Inr c, t)"
    using push tk put by (simp add: update_player_run s1_def s2_def t_def)
  have goodn: "good ?n" using full_wall_good [OF w(1), of "nat (take_index s)"] w room nn by simp
  have "table t = table s"
  proof -
    have h1: "holdings q1 = add_mset (kind m) (holdings ?q)" by (rule push_flower_holdings [OF push])
    have mm: "\<not> is_null m" using assms(5) by (simp add: is_null_def)
    have "holdings q2 + real_kinds [decks q1 ! k] = holdings q1 + real_kinds [?n]"
      using put_deck_holdings [OF put] by simp
    then have h2: "holdings q2 + {#kind m#} = holdings q1 + {#kind ?n#}"
      using m mm goodn good_not_null by (simp add: q1_def)
    have "table s1 + holdings ?q = table s + holdings q1"
      unfolding s1_def by (rule table_update [OF p])
    then have t1: "table s1 = add_mset (kind m) (table s)" using h1 by simp
    have t2: "table s1 = add_mset (kind ?n) (table s2)" by (rule table_take [OF tk])
    have "table t + holdings q1 = table s2 + holdings q2"
      using table_update [OF p, of s2 q2] by (simp add: t_def s1_def s2_def)
    then have "table t + holdings q1 + {#kind m#} = table s2 + holdings q1 + {#kind ?n#}"
      using h2 by (simp add: add_ac)
    then have "add_mset (kind m) (table t) = add_mset (kind ?n) (table s2)" by simp
    with t1 t2 have "add_mset (kind m) (table t) = add_mset (kind m) (table s)" by simp
    then show ?thesis by simp
  qed
  then have "full t" using D by (simp add: dealing_def full_def t_def s2_def s1_def)
  moreover have out: "flowers_out t = flowers_out s + 1"
  proof -
    have "p = 0 \<or> p = 1 \<or> p = 2 \<or> p = 3" using p by auto
    then show ?thesis by (elim disjE) (simp_all add: flowers_out_def t_def s2_def s1_def q2_def q1_def)
  qed
  moreover have "take_index t = take_index s + 1" by (simp add: t_def s2_def s1_def)
  moreover have "shape q2 \<and> normal_capacity q2 = 16 \<and> (\<forall>j < 20. is_null (decks q2 ! j) \<longleftrightarrow> 16 \<le> j) \<and>
      (\<forall>m \<in> set (take (nat (flower_index q2)) (flowers q2)). type m = FLOWER)"
  proof (intro conjI)
    show "shape q2" using q(1) fi room by (simp add: shape_def q2_def q1_def)
    show "\<forall>j < 20. is_null (decks q2 ! j) \<longleftrightarrow> 16 \<le> j"
      using q(1,3) k16 goodn good_not_null by (auto simp: shape_def q2_def q1_def nth_list_update)
    have "nat (flower_index ?q) < length (flowers ?q)" using q(1) fi room by (simp add: shape_def)
    then have "take (nat (flower_index q2)) (flowers q2) = take (nat (flower_index ?q)) (flowers ?q) @ [m]"
      using fi by (simp add: q2_def q1_def nat_add_distrib take_snoc_update)
    then show "\<forall>m \<in> set (take (nat (flower_index q2)) (flowers q2)). type m = FLOWER"
      using q(4) assms(5) by auto
  qed (use q(2) in \<open>simp add: q2_def q1_def\<close>)
  moreover have "players t = (players s)(p := q2)" by (simp add: t_def s2_def s1_def)
  ultimately have "dealing t" using D by (simp add: dealing_def)
  with run out show ?thesis by (auto simp: t_def s2_def s1_def q2_def)
qed

definition no_flower :: "server \<Rightarrow> int \<Rightarrow> bool" where
  "no_flower s p \<longleftrightarrow> (\<forall>k < 20. type (decks (players s p) ! k) \<noteq> FLOWER)"

text \<open>
  \<open>has_flower\<close> counts the flowers it moved; when it moved none, the hand has none. The other
  hands stay as they are.
\<close>

lemma has_flower_triple:
  assumes p: "p \<in> {0..3}"
  shows "triple (\<lambda>s. dealing s \<and> flowers_out s = n \<and> (\<forall>r. r \<noteq> p \<longrightarrow> no_flower s r = f r)) (has_flower p)
     (\<lambda>c s. dealing s \<and> 0 \<le> c \<and> flowers_out s = n + c \<and> (\<forall>r. r \<noteq> p \<longrightarrow> no_flower s r = f r) \<and>
        (c = 0 \<longrightarrow> no_flower s p)) (\<lambda>_ _. False)"
proof -
  let ?J = "\<lambda>i c s. dealing s \<and> 0 \<le> c \<and> flowers_out s = n + c \<and> (\<forall>r. r \<noteq> p \<longrightarrow> no_flower s r = f r) \<and>
      (c = 0 \<longrightarrow> (\<forall>k < nat i. type (decks (players s p) ! k) \<noteq> FLOWER))"
  let ?body = "\<lambda>i flowercount. bindp (player_of p) (\<lambda>q. bindp (liftp (at (decks q) i)) (\<lambda>m.
     if type m = FLOWER then
       thenp (update_player p (push_flower m)) (bindp take_tile (\<lambda>n.
       thenp (update_player p (put_deck i n)) (ret (flowercount + 1))))
     else ret flowercount))"
  have step: "triple (?J i c) (?body i c) (?J (i + 1)) (\<lambda>_ _. False)" if i: "0 \<le> i" "i < 20" for i c :: int
  proof -
    have run: "\<exists>d t. ?body i c s = (Inr d, t) \<and> ?J (i + 1) d t" if J: "?J i c s" for s
    proof -
      let ?m = "decks (players s p) ! nat i"
      have at: "at (decks (players s p)) i = Some ?m"
        using J p i by (auto simp: dealing_def shape_def at_eq)
      show ?thesis
      proof (cases "type ?m = FLOWER")
        case True
        have k: "nat i < 20" "int (nat i) = i" using i by simp_all
        from flower_step [OF conjunct1 [OF J] p k(1) refl True, of "c + 1"] obtain t where
          t: "thenp (update_player p (push_flower ?m)) (bindp take_tile (\<lambda>n.
             thenp (update_player p (put_deck i n)) (ret (c + 1)))) s = (Inr (c + 1), t)"
          "dealing t" "flowers_out t = flowers_out s + 1"
          "\<forall>r. r \<noteq> p \<longrightarrow> decks (players t r) = decks (players s r)" unfolding k(2) by blast
        then have "?body i c s = (Inr (c + 1), t)" using at True by (simp add: player_of_def del: at_Some)
        moreover have "?J (i + 1) (c + 1) t" using J t by (auto simp: no_flower_def)
        ultimately show ?thesis by blast
      next
        case False
        then have "?body i c s = (Inr c, s)" using at by (simp add: player_of_def del: at_Some)
        moreover have "k < nat i \<or> k = nat i" if "k < nat (i + 1)" for k using that i by linarith
        then have "?J (i + 1) c s" using J False by auto
        ultimately show ?thesis by blast
      qed
    qed
    show ?thesis by (rule tripleI) (use run in fastforce)+
  qed
  have "triple (?J 0 0) (foldp [0..20 - 1] ?body 0) (?J 20) (\<lambda>_ _. False)"
    by (rule triple_foldp_upto [where J = ?J]) (use step in auto)
  then have "triple (?J 0 0) (has_flower p) (?J 20) (\<lambda>_ _. False)" by (simp add: has_flower_def)
  then show ?thesis by (rule triple_conseq) (auto simp: no_flower_def)
qed

text \<open>
  The replacement ends: a round in which somebody had a flower puts one more of the eight flowers
  out, and four rounds without end the loop.
\<close>

lemma regrab_triple:
  assumes "0 \<le> z" and "z \<le> 4"
  shows "triple (\<lambda>s. dealing s \<and> (\<forall>j. 1 \<le> j \<and> j \<le> z \<longrightarrow> no_flower s ((p0 + add - j) mod 4)) \<and>
       4 * (8 - flowers_out s) + (4 - z) < int fuel)
     (regrab fuel p0 z add) (\<lambda>_ s. dealing s \<and> (\<forall>p \<in> {0..3}. no_flower s p)) (\<lambda>_ _. False)"
  using assms
proof (induction fuel arbitrary: z add)
  case 0
  have "flowers_out s \<le> 8" if "dealing s" for s using flowers_counted [OF that] by simp
  then show ?case using 0 by (force simp: triple_def)
next
  case (Suc fuel)
  let ?p = "(p0 + add) mod 4"
  let ?P = "\<lambda>s. dealing s \<and> (\<forall>j. 1 \<le> j \<and> j \<le> z \<longrightarrow> no_flower s ((p0 + add - j) mod 4)) \<and>
       4 * (8 - flowers_out s) + (4 - z) < int (Suc fuel)"
  let ?Q = "\<lambda>_ s. dealing s \<and> (\<forall>p \<in> {0..3}. no_flower s p)"
  show ?case
  proof (cases "z < 4")
    case False
    then have z: "z = 4" using Suc.prems by simp
    have eq: "regrab (Suc fuel) p0 z add = ret ()" by (rule ext) (simp add: z)
    have "\<exists>j. 1 \<le> j \<and> j \<le> 4 \<and> (p0 + add - j) mod 4 = p" if "p \<in> {0..3}" for p
    proof (intro exI conjI)
      let ?j = "(p0 + add - 1 - p) mod 4 + 1"
      show "1 \<le> ?j" "?j \<le> 4" using pos_mod_bound [of 4 "p0 + add - 1 - p"] by simp_all
      have "p0 + add - ?j = (p0 + add - 1) - (p0 + add - 1 - p) mod 4" by simp
      then have "(p0 + add - ?j) mod 4 = (p0 + add - 1 - (p0 + add - 1 - p)) mod 4"
        by (simp only: mod_diff_right_eq)
      also have "\<dots> = p" using that by simp
      finally show "(p0 + add - ?j) mod 4 = p" .
    qed
    then have "no_flower s p" if "\<forall>j. 1 \<le> j \<and> j \<le> 4 \<longrightarrow> no_flower s ((p0 + add - j) mod 4)" "p \<in> {0..3}" for s p
      using that by metis
    then show ?thesis unfolding eq using z by (intro triple_ret) blast
  next
    case True
    have eq: "regrab (Suc fuel) p0 z add = bindp (has_flower ?p) (\<lambda>c.
        if c > 0 then regrab fuel p0 0 (add + 1) else regrab fuel p0 (z + 1) (add + 1))"
      by (rule ext) (simp add: True)
    show ?thesis
      unfolding eq
    proof (rule triple_ghost [of _ flowers_out], rule triple_ghost [of _ no_flower])
      fix n f
      let ?F = "(\<forall>j. 1 \<le> j \<and> j \<le> z \<longrightarrow> f ((p0 + add - j) mod 4)) \<and> 4 * (8 - n) + (4 - z) < int (Suc fuel)"
      have body: "triple (\<lambda>s. dealing s \<and> flowers_out s = n \<and> (\<forall>r. r \<noteq> ?p \<longrightarrow> no_flower s r = f r))
          (bindp (has_flower ?p) (\<lambda>c. if c > 0 then regrab fuel p0 0 (add + 1)
             else regrab fuel p0 (z + 1) (add + 1))) ?Q (\<lambda>_ _. False)" if F: ?F
      proof (rule triple_bindp [OF has_flower_triple])
        show "?p \<in> {0..3}" by simp
      next
        fix c :: int
        have again: "triple (\<lambda>s. dealing s \<and> 0 \<le> c \<and> flowers_out s = n + c \<and>
            (\<forall>r. r \<noteq> ?p \<longrightarrow> no_flower s r = f r) \<and> (c = 0 \<longrightarrow> no_flower s ?p))
            (regrab fuel p0 0 (add + 1)) ?Q (\<lambda>_ _. False)" if "c > 0"
          by (rule triple_pre [OF Suc.IH]) (use F True that in auto)
        have next_one: "triple (\<lambda>s. dealing s \<and> 0 \<le> c \<and> flowers_out s = n + c \<and>
            (\<forall>r. r \<noteq> ?p \<longrightarrow> no_flower s r = f r) \<and> (c = 0 \<longrightarrow> no_flower s ?p))
            (regrab fuel p0 (z + 1) (add + 1)) ?Q (\<lambda>_ _. False)" if "\<not> c > 0"
        proof (rule triple_pre [OF Suc.IH])
          fix s assume A: "dealing s \<and> 0 \<le> c \<and> flowers_out s = n + c \<and>
            (\<forall>r. r \<noteq> ?p \<longrightarrow> no_flower s r = f r) \<and> (c = 0 \<longrightarrow> no_flower s ?p)"
          then have c: "c = 0" using that by simp
          have "no_flower s ((p0 + (add + 1) - j) mod 4)" if j: "1 \<le> j" "j \<le> z + 1" for j
          proof (cases "(p0 + (add + 1) - j) mod 4 = ?p")
            case True
            then show ?thesis using A c by simp
          next
            case ne: False
            then have "j \<noteq> 1" by auto
            then have "f ((p0 + add - (j - 1)) mod 4)" using F j by simp
            then show ?thesis using A ne by (simp add: algebra_simps)
          qed
          then show "dealing s \<and> (\<forall>j. 1 \<le> j \<and> j \<le> z + 1 \<longrightarrow> no_flower s ((p0 + (add + 1) - j) mod 4)) \<and>
              4 * (8 - flowers_out s) + (4 - (z + 1)) < int fuel"
            using A F c by simp
        qed (use Suc.prems True in auto)
        show "triple (\<lambda>s. dealing s \<and> 0 \<le> c \<and> flowers_out s = n + c \<and>
            (\<forall>r. r \<noteq> ?p \<longrightarrow> no_flower s r = f r) \<and> (c = 0 \<longrightarrow> no_flower s ?p))
            (if c > 0 then regrab fuel p0 0 (add + 1) else regrab fuel p0 (z + 1) (add + 1)) ?Q (\<lambda>_ _. False)"
          by (rule triple_if) (use again next_one in auto)
      qed
      show "triple (\<lambda>s. (?P s \<and> flowers_out s = n) \<and> no_flower s = f)
          (bindp (has_flower ?p) (\<lambda>c. if c > 0 then regrab fuel p0 0 (add + 1)
             else regrab fuel p0 (z + 1) (add + 1))) ?Q (\<lambda>_ _. False)"
      proof (cases ?F)
        case True
        show ?thesis by (rule triple_pre [OF body [OF True]]) auto
      next
        case False
        then show ?thesis by (auto simp: triple_def)
      qed
    qed
  qed
qed

subsection \<open>The hands are sorted and sent\<close>

text \<open>What the deal leaves: full, sorted hands and flowers in the flower piles only.\<close>

definition dealt :: "server \<Rightarrow> bool" where
  "dealt s \<longleftrightarrow> full s \<and> take_index s = 64 + flowers_out s \<and> flowers_out s \<le> 8 \<and>
     (\<forall>p \<in> {0..3}. shape (players s p) \<and> normal_capacity (players s p) = 16 \<and> hand_ok (players s p) \<and>
        (\<forall>m \<in> set (take (nat (flower_index (players s p))) (flowers (players s p))). type m = FLOWER))"

definition sorting :: "int \<Rightarrow> server \<Rightarrow> bool" where
  "sorting n s \<longleftrightarrow> dealing s \<and> (\<forall>p \<in> {0..3}. no_flower s p) \<and>
     (\<forall>p. 0 \<le> p \<and> p < n \<longrightarrow> sorted_range deck_key 0 15 (decks (players s p)))"

lemma sort_hand_step:
  assumes p: "0 \<le> p" "p < 4"
  shows "triple (sorting p) (update_player p (sort_deck 0 15)) (\<lambda>_. sorting (p + 1)) (\<lambda>_ _. False)"
proof -
  have run: "\<exists>t. update_player p (sort_deck 0 15) s = (Inr (), t) \<and> sorting (p + 1) t" if S: "sorting p s" for s
  proof -
    let ?q = "players s p"
    have P: "p \<in> {0..3}" using p by simp
    have D: "dealing s" and nf: "\<forall>r \<in> {0..3}. no_flower s r" using S by (auto simp: sorting_def)
    have q: "shape ?q" "normal_capacity ?q = 16" "\<forall>k < 20. is_null (decks ?q ! k) \<longleftrightarrow> 16 \<le> k"
      using D P by (auto simp: dealing_def)
    have len: "length (decks ?q) = 20" using q(1) by (simp add: shape_def)
    have b: "(0::int) \<le> 0" "(0::int) \<le> 15 + 1" "(15::int) < int (length (decks ?q))" using len by simp_all
    obtain ys where ys: "decks_quick_sort (decks ?q) 0 15 = Some ys" "range_perm 0 15 (decks ?q) ys"
      "sorted_range deck_key 0 15 ys" using deck_sort.sortE [OF b(1,3)] .
    define q' where "q' = ?q\<lparr>decks := ys\<rparr>"
    have sd: "sort_deck 0 15 ?q = Some q'" using ys(1) by (simp add: sort_deck_def q'_def)
    define t where "t = s\<lparr>players := (players s)(p := q')\<rparr>"
    have r: "update_player p (sort_deck 0 15) s = (Inr (), t)" by (simp add: update_player_run sd t_def)
    have "holdings q' = holdings ?q" using sort_deck_holdings [OF sd] len by simp
    then have "table t = table s" using table_update [OF P, of s q'] by (simp add: t_def)
    then have "full t" using D by (simp add: dealing_def full_def t_def)
    have all: "\<forall>i. 0 \<le> i \<and> i \<le> 15 \<longrightarrow> Q (ys ! nat i)" if "\<forall>i. 0 \<le> i \<and> i \<le> 15 \<longrightarrow> Q (decks ?q ! nat i)" for Q
      by (rule deck_sort.sort_keeps_all [OF ys(1) b that])
    have keep: "ys ! k = decks ?q ! k" if "16 \<le> k" for k using range_permD(4) [OF ys(2)] that by simp
    have ln: "length ys = 20" using range_permD(1) [OF ys(2)] len by simp
    have null: "\<forall>k < 20. is_null (ys ! k) \<longleftrightarrow> 16 \<le> k"
    proof -
      have "\<forall>i. 0 \<le> i \<and> i \<le> 15 \<longrightarrow> \<not> is_null (ys ! nat i)" by (rule all) (use q(3) in auto)
      then have "k < 16 \<longrightarrow> \<not> is_null (ys ! k)" for k by (auto dest: spec [of _ "int k"])
      then show ?thesis using keep q(3) by (metis not_le)
    qed
    have flw: "\<forall>k < 20. type (ys ! k) \<noteq> FLOWER"
    proof -
      have "\<forall>i. 0 \<le> i \<and> i \<le> 15 \<longrightarrow> type (ys ! nat i) \<noteq> FLOWER"
        by (rule all) (use nf P in \<open>auto simp: no_flower_def\<close>)
      then have "k < 16 \<longrightarrow> type (ys ! k) \<noteq> FLOWER" for k by (auto dest: spec [of _ "int k"])
      then show ?thesis using keep nf P by (metis no_flower_def not_le)
    qed
    have sh: "shape q'" using q(1) ln by (simp add: shape_def q'_def)
    have out: "flowers_out t = flowers_out s" by (simp add: flowers_out_def t_def q'_def)
    have "dealing t"
      using D \<open>full t\<close> out sh null by (simp add: dealing_def t_def q'_def)
    moreover have "\<forall>r \<in> {0..3}. no_flower t r" using nf flw by (simp add: no_flower_def t_def q'_def)
    moreover have "\<forall>r. 0 \<le> r \<and> r < p + 1 \<longrightarrow> sorted_range deck_key 0 15 (decks (players t r))"
      using S ys(3) by (auto simp: sorting_def t_def q'_def)
    ultimately show ?thesis using r by (auto simp: sorting_def)
  qed
  show ?thesis by (rule tripleI) (use run in fastforce)+
qed

lemma sorting_dealt:
  assumes S: "sorting 4 s"
  shows "dealt s"
proof -
  have D: "dealing s" using S by (simp add: sorting_def)
  have "flowers_out s \<le> 8" using flowers_counted [OF D] by simp
  moreover have "hand_ok (players s p)" if P: "p \<in> {0..3}" for p
  proof -
    let ?q = "players s p"
    have q: "shape ?q" "normal_capacity ?q = 16" "\<forall>k < 20. is_null (decks ?q ! k) \<longleftrightarrow> 16 \<le> k" "no_flower s p"
      using D P S by (auto simp: dealing_def sorting_def)
    have "playable (decks ?q ! k)" if "k < 16" for k
    proof -
      have "decks ?q ! k \<in> set (decks ?q)" using q(1) that by (simp add: shape_def)
      then have "is_null (decks ?q ! k) \<or> good (decks ?q ! k)"
        using D P by (intro deck_good) (auto simp: dealing_def)
      then show ?thesis using q(3,4) that good_flower [of "decks ?q ! k"] by (simp add: no_flower_def)
    qed
    moreover have "sorted_range deck_key 0 15 (decks ?q)" using S P by (simp add: sorting_def)
    ultimately show ?thesis using q by (auto simp: hand_ok_def shape_def)
  qed
  ultimately show ?thesis using D by (simp add: dealt_def dealing_def)
qed

lemma dealt_world: "io.more t = io.more s \<Longrightarrow> dealt s \<Longrightarrow> dealt t"
  by (frule same_game, frule table_world) (simp add: dealt_def full_def flowers_out_def)

lemma tell_dealt: "triple dealt (tell p msg) (\<lambda>_. dealt) (\<lambda>e _. e = Exited 1)"
  unfolding tell_def player_of_def
  by (rule triple_bindp [of _ _ "\<lambda>_. dealt"], rule triple_getp, assumption, rule server_chan.send_triple)
    (blast dest: dealt_world)

text \<open>The sends read the hand and the flower pile inside their arrays.\<close>

lemma transfer_dealt:
  assumes p: "p \<in> {0..3}"
  shows "triple dealt (transfer p) (\<lambda>_. dealt) (\<lambda>e _. e = Exited 1)"
proof -
  have tile: "triple dealt (bindp (player_of p) (\<lambda>q. bindp (liftp (at (decks q) j)) (\<lambda>m.
      thenp (tell p (show_int (type m) @ '' '' @ show_int (number m) @ ''\<newline>'')) (ret ()))))
      (\<lambda>_. dealt) (\<lambda>e _. e = Exited 1)" if "0 \<le> j" "j \<le> 15" for j
  proof (rule triple_bind_player, rule triple_bind_lift)
    fix q :: player and m
    show "triple (\<lambda>s. dealt s \<and> players s p = q)
       (thenp (tell p (show_int (type m) @ '' '' @ show_int (number m) @ ''\<newline>'')) (ret ()))
       (\<lambda>_. dealt) (\<lambda>e _. e = Exited 1)"
      by (rule triple_thenp [OF triple_pre [OF tell_dealt]]) (auto intro: triple_ret)
  next
    fix q :: player assume "at (decks q) j = None"
    then have "\<not> (dealt s \<and> players s p = q)" for s using that p by (auto simp: dealt_def shape_def)
    then show "triple (\<lambda>s. dealt s \<and> players s p = q) (failp Undefined) (\<lambda>_. dealt) (\<lambda>e _. e = Exited 1)"
      by (simp add: triple_def)
  qed
  have flower: "triple dealt (forp [0..n - 1] (\<lambda>j. bindp (player_of p) (\<lambda>q. bindp (liftp (at (flowers q) j)) (\<lambda>m.
      thenp (tell p (show_int (number m) @ ''\<newline>'')) (ret ()))))) (\<lambda>_. dealt) (\<lambda>e _. e = Exited 1)"
    if n: "n \<le> 8" for n
  proof (rule triple_forp)
    fix j assume "j \<in> set [0..n - 1]"
    then have j: "0 \<le> j" "j < 8" using n by auto
    show "triple dealt (bindp (player_of p) (\<lambda>q. bindp (liftp (at (flowers q) j)) (\<lambda>m.
      thenp (tell p (show_int (number m) @ ''\<newline>'')) (ret ())))) (\<lambda>_. dealt) (\<lambda>e _. e = Exited 1)"
    proof (rule triple_bind_player, rule triple_bind_lift)
      fix q :: player and m
      show "triple (\<lambda>s. dealt s \<and> players s p = q) (thenp (tell p (show_int (number m) @ ''\<newline>'')) (ret ()))
         (\<lambda>_. dealt) (\<lambda>e _. e = Exited 1)"
        by (rule triple_thenp [OF triple_pre [OF tell_dealt]]) (auto intro: triple_ret)
    next
      fix q :: player assume "at (flowers q) j = None"
      then have "\<not> (dealt s \<and> players s p = q)" for s using j p by (auto simp: dealt_def shape_def)
      then show "triple (\<lambda>s. dealt s \<and> players s p = q) (failp Undefined) (\<lambda>_. dealt) (\<lambda>e _. e = Exited 1)"
        by (simp add: triple_def)
    qed
  qed
  have piles: "triple dealt (bindp (player_of p) (\<lambda>q. thenp (forp [0..flower_index q - 1] (\<lambda>j.
      bindp (player_of p) (\<lambda>q. bindp (liftp (at (flowers q) j)) (\<lambda>m.
      thenp (tell p (show_int (number m) @ ''\<newline>'')) (ret ()))))) (tell p ''transfer complete\<newline>'')))
      (\<lambda>_. dealt) (\<lambda>e _. e = Exited 1)"
  proof (rule triple_bind_player)
    fix q :: player
    show "triple (\<lambda>s. dealt s \<and> players s p = q) (thenp (forp [0..flower_index q - 1] (\<lambda>j.
      bindp (player_of p) (\<lambda>q. bindp (liftp (at (flowers q) j)) (\<lambda>m.
      thenp (tell p (show_int (number m) @ ''\<newline>'')) (ret ()))))) (tell p ''transfer complete\<newline>''))
      (\<lambda>_. dealt) (\<lambda>e _. e = Exited 1)"
    proof (cases "flower_index q \<le> 8")
      case True
      then show ?thesis by (intro triple_thenp [OF triple_pre [OF flower] tell_dealt]) auto
    next
      case False
      then have "\<not> (dealt s \<and> players s p = q)" for s using p by (auto simp: dealt_def shape_def)
      then show ?thesis by (rule triple_vacuous)
    qed
  qed
  show ?thesis
    unfolding transfer_def
    by (rule triple_thenp [OF triple_forp piles]) (rule tile, auto)
qed

text \<open>The steps of the deal before the sends have no fault at all.\<close>

lemma deal_tiles_dealing:
  assumes "p0 \<in> {0..3}"
  shows "triple (dealt_to p0 0) (deal_tiles p0) (\<lambda>_. dealing) (\<lambda>_ _. False)"
  by (rule triple_post [OF deal_tiles_dealt [OF assms] dealt_dealing])

lemma regrab_sorting: "triple dealing (regrab regrab_fuel p0 0 0) (\<lambda>_. sorting 0) (\<lambda>_ _. False)"
proof (rule triple_conseq [OF regrab_triple [of 0 p0 0 regrab_fuel]])
  fix s assume D: "dealing s"
  then have "0 \<le> flowers_out s" using flower_index_room [OF D, of 0] by simp
  then show "dealing s \<and> (\<forall>j. 1 \<le> j \<and> j \<le> 0 \<longrightarrow> no_flower s ((p0 + 0 - j) mod 4)) \<and>
      4 * (8 - flowers_out s) + (4 - 0) < int regrab_fuel"
    using D by (auto simp: regrab_fuel_def)
qed (auto simp: sorting_def)

lemma sorts_dealt:
  "triple (sorting 0) (forp [0, 1, 2, 3] (\<lambda>i. update_player i (sort_deck 0 15))) (\<lambda>_. dealt) (\<lambda>_ _. False)"
proof -
  have "triple (sorting 0) (forp [0..4 - 1] (\<lambda>i. update_player i (sort_deck 0 15))) (\<lambda>_. sorting 4) (\<lambda>_ _. False)"
    by (rule triple_forp_upto [where J = sorting]) (use sort_hand_step in auto)
  moreover have "[0..4 - 1] = [0, 1, 2, 3 :: int]" by (simp add: upto_rec1)
  ultimately show ?thesis by (metis (no_types, lifting) sorting_dealt triple_post)
qed

lemma deal_dealt:
  assumes p0: "p0 \<in> {0..3}"
  shows "triple (dealt_to p0 0) (deal p0) (\<lambda>v s. v = 0 \<and> dealt s) (\<lambda>e _. e = Exited 1)"
proof -
  have safe: "triple P m (\<lambda>_. Q) (\<lambda>e _. e = Exited 1)" if "triple P m (\<lambda>_. Q) (\<lambda>_ _. False)" for P Q m
    using that by (rule triple_conseq) auto
  have sends: "triple dealt (forp [0..3] (\<lambda>i. thenp (transfer i) (ret ()))) (\<lambda>_. dealt) (\<lambda>e _. e = Exited 1)"
    by (rule triple_forp, rule triple_thenp [OF transfer_dealt]) (auto intro: triple_ret)
  show ?thesis
    unfolding deal_def
    by (intro triple_thenp [OF safe [OF deal_tiles_dealing [OF p0]]] triple_thenp [OF safe [OF regrab_sorting]]
        triple_thenp [OF safe [OF sorts_dealt]] triple_thenp [OF sends] triple_ret) simp
qed

lemma shuffle_returns: "triple P shuffle (\<lambda>_ _. True) (\<lambda>_ _. False)"
proof (rule tripleI)
  fix s e t assume "shuffle s = (Inl e, t)"
  with shuffle_correct [of s] show False by auto
qed simp

lemma shuffle_dealt: "triple ready shuffle (\<lambda>_. dealt_to p0 0) (\<lambda>e _. e = Exited 1)"
proof (rule tripleI)
  fix s a t assume R: "ready s" and run: "shuffle s = (Inr a, t)"
  from shuffle_correct [of s] obtain w r
    where w: "shuffle s = (Inr 0, s\<lparr>shuffled_mjs := w, rand_pos := r\<rparr>)" "full_wall w" by blast
  then have t: "t = s\<lparr>shuffled_mjs := w, rand_pos := r\<rparr>" using run by simp
  have rt: "ready t" using R by (simp add: ready_def t)
  moreover have "full t" using rt w by (intro ready_full) (simp_all add: t)
  moreover have "\<not> grab_number p0 p k < 0" for p k
    using pos_mod_sign [of 4 "p - p0"] by (simp add: grab_number_def not_less)
  ultimately show "dealt_to p0 0 t"
    by (auto simp: dealt_to_def ready_def fresh_player_def shape_def nth_Cons' numeral_nat)
next
  fix s e t assume "shuffle s = (Inl e, t)"
  with shuffle_correct [of s] show "e = Exited 1" by auto
qed

lemma shuffle_n_deal_dealt:
  assumes "p0 \<in> {0..3}"
  shows "triple ready (shuffle_n_deal p0) (\<lambda>v s. v = 0 \<and> dealt s) (\<lambda>e _. e = Exited 1)"
  unfolding shuffle_n_deal_def
  by (rule triple_thenp [OF shuffle_dealt [of p0]],
      rule triple_thenp [OF triple_post [OF deal_dealt [OF assms], where Q = "\<lambda>_. dealt"]])
    (auto intro: triple_ret)

end
