(* ===== verification/Melds.thy ===== *)
theory Melds
  imports Deal Reaction
begin

text \<open>
  What a discard and the three claims do to a hand in order: which tiles leave it, where they go,
  and that the hand is in order again. Also when the claims are offered.
\<close>

subsection \<open>A hand with one tile too many\<close>

text \<open>The tiles of the capacity and the one behind them, which is drawn or waits to be discarded.\<close>

definition hand_drawn :: "player \<Rightarrow> bool" where
  "hand_drawn q \<longleftrightarrow> length (decks q) = 20 \<and> 0 \<le> normal_capacity q \<and> normal_capacity q \<le> 16 \<and>
     (\<forall>k < 20. if int k \<le> normal_capacity q then playable (decks q ! k) else is_null (decks q ! k))"

definition hand :: "player \<Rightarrow> mj list" where
  "hand q = take (nat (normal_capacity q)) (decks q)"

lemma sort_deck_run:
  assumes "length (decks q) = 20" and "-1 \<le> h" and "h \<le> 16"
  obtains ys where "sort_deck 0 h q = Some (q\<lparr>decks := ys\<rparr>)" and "length ys = 20"
    and "mset ys = mset (decks q)" and "sorted_range deck_key 0 h ys"
    and "\<And>k. h < int k \<Longrightarrow> ys ! k = decks q ! k"
    and "\<And>P k. (\<And>k. int k \<le> h \<Longrightarrow> P (decks q ! k)) \<Longrightarrow> int k \<le> h \<Longrightarrow> P (ys ! k)"
proof -
  have b: "(0::int) \<le> 0" "(0::int) \<le> h + 1" "h < int (length (decks q))" using assms by simp_all
  obtain ys where ys: "decks_quick_sort (decks q) 0 h = Some ys" "range_perm 0 h (decks q) ys"
    "sorted_range deck_key 0 h ys" using deck_sort.sortE [OF b(1,3)] .
  have keep: "P (ys ! k)" if "\<And>k. int k \<le> h \<Longrightarrow> P (decks q ! k)" "int k \<le> h" for P k
  proof -
    have "\<forall>i. 0 \<le> i \<and> i \<le> h \<longrightarrow> P (ys ! nat i)"
      by (rule deck_sort.sort_keeps_all [OF ys(1) b]) (use that(1) in auto)
    then show ?thesis using that(2) by (auto dest: spec [of _ "int k"])
  qed
  show thesis
    by (rule that [of ys]) (use ys range_permD [OF ys(2)] assms keep in \<open>auto simp: sort_deck_def\<close>)
qed

lemma sorted_hand:
  assumes "length (decks q) = 20" "0 \<le> normal_capacity q" "normal_capacity q \<le> 16"
    and "\<forall>k < 20. if int k < normal_capacity q then playable (decks q ! k) else is_null (decks q ! k)"
  obtains q' where "sort_deck 0 (normal_capacity q - 1) q = Some q'" and "hand_ok q'"
    and "holdings q' = holdings q" and "q' = q\<lparr>decks := decks q'\<rparr>"
proof -
  obtain ys where ys: "sort_deck 0 (normal_capacity q - 1) q = Some (q\<lparr>decks := ys\<rparr>)" "length ys = 20"
    "mset ys = mset (decks q)" "sorted_range deck_key 0 (normal_capacity q - 1) ys"
    "\<And>k. normal_capacity q - 1 < int k \<Longrightarrow> ys ! k = decks q ! k"
    "\<And>P k. (\<And>k. int k \<le> normal_capacity q - 1 \<Longrightarrow> P (decks q ! k)) \<Longrightarrow>
       int k \<le> normal_capacity q - 1 \<Longrightarrow> P (ys ! k)"
    using sort_deck_run [of q "normal_capacity q - 1"] assms(1-3) by auto
  have "playable (ys ! k)" if "int k < normal_capacity q" for k
    by (rule ys(6)) (use that assms(3,4) in auto)
  moreover have "is_null (ys ! k)" if "k < 20" "\<not> int k < normal_capacity q" for k
    using ys(5) [of k] assms(4) that by auto
  ultimately have "hand_ok (q\<lparr>decks := ys\<rparr>)" using ys(2,4) assms(2,3) by (auto simp: hand_ok_def)
  then show thesis using ys(1) holdings_decks [OF ys(3)] by (intro that [of "q\<lparr>decks := ys\<rparr>"]) auto
qed

lemma sorted_drawn:
  assumes "hand_drawn q"
  obtains q' where "sort_deck 0 (normal_capacity q) q = Some q'" and "hand_drawn q'"
    and "holdings q' = holdings q" and "q' = q\<lparr>decks := decks q'\<rparr>"
proof -
  have h: "length (decks q) = 20" "0 \<le> normal_capacity q" "normal_capacity q \<le> 16" using assms by (auto simp: hand_drawn_def)
  obtain ys where ys: "sort_deck 0 (normal_capacity q) q = Some (q\<lparr>decks := ys\<rparr>)" "length ys = 20"
    "mset ys = mset (decks q)" "sorted_range deck_key 0 (normal_capacity q) ys"
    "\<And>k. normal_capacity q < int k \<Longrightarrow> ys ! k = decks q ! k"
    "\<And>P k. (\<And>k. int k \<le> normal_capacity q \<Longrightarrow> P (decks q ! k)) \<Longrightarrow> int k \<le> normal_capacity q \<Longrightarrow> P (ys ! k)"
    using sort_deck_run [of q "normal_capacity q"] h by auto
  have "playable (ys ! k)" if "int k \<le> normal_capacity q" for k
    by (rule ys(6)) (use that assms in \<open>auto simp: hand_drawn_def\<close>)
  moreover have "is_null (ys ! k)" if "k < 20" "\<not> int k \<le> normal_capacity q" for k
    using ys(5) [of k] assms that by (auto simp: hand_drawn_def)
  ultimately have "hand_drawn (q\<lparr>decks := ys\<rparr>)" using ys(2) h by (auto simp: hand_drawn_def)
  then show thesis using ys(1) holdings_decks [OF ys(3)] by (intro that [of "q\<lparr>decks := ys\<rparr>"]) auto
qed

subsection \<open>The discard\<close>

lemma remove_tile_ok:
  assumes D: "hand_drawn q" and i: "0 \<le> i" "i \<le> normal_capacity q"
  obtains q' where "remove_tile i q = Some q'" and "hand_ok q'" and "q' = q\<lparr>decks := decks q'\<rparr>"
    and "holdings q = add_mset (kind (decks q ! nat i)) (holdings q')"
proof -
  let ?n = "nat (normal_capacity q)" and ?i = "nat i"
  have h: "length (decks q) = 20" "0 \<le> normal_capacity q" "normal_capacity q \<le> 16"
    "\<And>k. k < 20 \<Longrightarrow> if int k \<le> normal_capacity q then playable (decks q ! k) else is_null (decks q ! k)"
    using D by (auto simp: hand_drawn_def)
  define q1 where "q1 = q\<lparr>decks := (decks q)[?n := decks q ! ?i, ?i := decks q ! ?n]\<rparr>"
  have s1: "swap_deck (normal_capacity q) i q = Some q1"
    using h i by (simp add: swap_deck_def swap_at_def at_eq set_at_eq q1_def)
  define q2 where "q2 = q1\<lparr>decks := (decks q1)[?n := clear_mj (decks q1 ! ?n)]\<rparr>"
  have s2: "clear_deck (normal_capacity q1) q1 = Some q2"
    using h i by (simp add: clear_deck_def put_deck_def at_eq set_at_eq q1_def q2_def)
  have d1: "decks q1 ! ?n = decks q ! ?i" using h i by (simp add: q1_def nth_list_update)
  have hand2: "\<forall>k < 20. if int k < normal_capacity q2 then playable (decks q2 ! k) else is_null (decks q2 ! k)"
  proof (intro allI impI)
    fix k :: nat assume k: "k < 20"
    have "playable (decks q ! ?n)" "playable (decks q ! ?i)" using h(4) [of ?n] h(4) [of ?i] h i by simp_all
    then show "if int k < normal_capacity q2 then playable (decks q2 ! k) else is_null (decks q2 ! k)"
      using h(4) [OF k] h i k by (auto simp: q2_def q1_def nth_list_update)
  qed
  obtain q' where q': "sort_deck 0 (normal_capacity q2 - 1) q2 = Some q'" "hand_ok q'"
    "holdings q' = holdings q2" "q' = q2\<lparr>decks := decks q'\<rparr>"
    by (rule sorted_hand [OF _ _ _ hand2]) (use h in \<open>auto simp: q2_def q1_def\<close>)
  have "remove_tile i q = Some q'" using s1 s2 q'(1) by (simp add: remove_tile_def)
  moreover have "holdings q = add_mset (kind (decks q ! ?i)) (holdings q')"
  proof -
    have "\<not> is_null (decks q1 ! ?n)" using d1 h(4) [of ?i] h i by auto
    then have "holdings q1 = add_mset (kind (decks q1 ! ?n)) (holdings q2)"
      using clear_deck_holdings [OF s2] by (simp add: q1_def)
    then show ?thesis using swap_deck_holdings [OF s1] d1 q'(3) by simp
  qed
  moreover have "q' = q\<lparr>decks := decks q'\<rparr>" using q'(4) by (simp add: q2_def q1_def)
  ultimately show thesis using q'(2) that by blast
qed

subsection \<open>Matching tiles in a sorted hand\<close>

lemma deck_key_kind:
  assumes "playable a" and "playable b"
  shows "deck_key a = deck_key b \<longleftrightarrow> kind a = kind b"
  using deck_key_index [OF assms] deck_key_index [OF assms(2,1)] mj_index_inj [OF assms]
  by (auto simp: kind_def deck_key_def)

text \<open>The tiles of one kind lie next to each other; \<open>a\<close> is the first of them.\<close>

lemma matches_run:
  assumes H: "hand_ok q" and n: "0 < n" and c: "n \<le> length (filter (\<lambda>m. kind m = kind d) (hand q))"
  obtains a where "a + n \<le> nat (normal_capacity q)" and "\<forall>k < a. kind (decks q ! k) \<noteq> kind d"
    and "\<forall>k. a \<le> k \<and> k < a + n \<longrightarrow> kind (decks q ! k) = kind d"
proof -
  let ?n = "nat (normal_capacity q)"
  have h: "length (decks q) = 20" "?n \<le> 16" "\<And>k. k < ?n \<Longrightarrow> playable (decks q ! k)"
    using H by (auto simp: hand_ok_def split: if_splits)
  have srt: "deck_key (decks q ! i) \<le> deck_key (decks q ! j)" if "i \<le> j" "j < ?n" for i j
  proof -
    have "0 \<le> int i \<and> int i \<le> int j \<and> int j \<le> normal_capacity q - 1" using that by auto
    then show ?thesis using H unfolding hand_ok_def sorted_range_def by (metis nat_int)
  qed
  let ?S = "{k. k < ?n \<and> kind (decks q ! k) = kind d}"
  have "length (filter (\<lambda>m. kind m = kind d) (hand q)) = card {k. k < length (hand q) \<and> kind (hand q ! k) = kind d}"
    by (rule length_filter_conv_card)
  also have "{k. k < length (hand q) \<and> kind (hand q ! k) = kind d} = ?S" using h by (auto simp: hand_def)
  finally have card: "n \<le> card ?S" using c by simp
  have fin: "finite ?S" by simp
  have ne: "?S \<noteq> {}" using card n by (metis card.empty not_le)
  define a where "a = Min ?S"
  define b where "b = Max ?S"
  have a: "a \<in> ?S" and b: "b \<in> ?S" unfolding a_def b_def using Min_in [OF fin ne] Max_in [OF fin ne] by blast+
  have low: "a \<le> k" and high: "k \<le> b" if "k \<in> ?S" for k
    using that fin by (simp_all add: a_def b_def)
  have "?S \<subseteq> {a..b}" using low high by auto
  then have "card ?S \<le> card {a..b}" by (rule card_mono [OF finite_atLeastAtMost])
  then have ab: "a + n \<le> b + 1" using card n by simp
  have same: "kind (decks q ! k) = kind d" if "a \<le> k" "k \<le> b" for k
  proof -
    have key: "deck_key (decks q ! a) = deck_key (decks q ! b)" using a b by (simp add: kind_def deck_key_def)
    have k: "k < ?n" "b < ?n" "a < ?n" using that a b by auto
    have "deck_key (decks q ! a) \<le> deck_key (decks q ! k)" "deck_key (decks q ! k) \<le> deck_key (decks q ! b)"
      using srt that k by auto
    then have "deck_key (decks q ! k) = deck_key (decks q ! a)" using key by simp
    then show ?thesis using deck_key_kind [OF h(3) h(3)] k a by auto
  qed
  show thesis
  proof (rule that [of a])
    show "\<forall>k < a. kind (decks q ! k) \<noteq> kind d"
    proof (intro allI impI notI)
      fix k assume "k < a" "kind (decks q ! k) = kind d"
      then have "k \<in> ?S" using a by simp
      with low [OF this] \<open>k < a\<close> show False by simp
    qed
  qed (use ab b same in auto)
qed

subsection \<open>Moving the tiles of a meld to the door\<close>

lemma claim_loop_skip:
  "\<forall>i \<in> set is. \<exists>m. at (decks q) i = Some m \<and> mj_compare target m \<noteq> 0 \<Longrightarrow>
     claim_loop target (is @ js) need q = claim_loop target js need q"
  by (induction "is") (auto simp del: at_Some mj_compare_0)

lemma claim_loop_take:
  assumes "0 < n" and "a + n \<le> c" and "c \<le> length (decks q)" and "\<not> is_null target"
    and "\<forall>k. a \<le> k \<and> k < a + n \<longrightarrow> kind (decks q ! k) = kind target"
    and "0 \<le> door_index q" and "door_index q + int n \<le> int (length (door q))"
  shows "\<exists>q'. claim_loop target (map int [a..<c]) (int n) q = Some q' \<and> holdings q' = holdings q \<and>
     (\<forall>k. decks q' ! k = (if a \<le> k \<and> k < a + n then clear_mj (decks q ! k) else decks q ! k)) \<and>
     length (decks q') = length (decks q) \<and> length (door q') = length (door q) \<and>
     q' = q\<lparr>decks := decks q', door := door q', door_index := door_index q + int n\<rparr>"
  using assms
proof (induction n arbitrary: a q)
  case 0
  then show ?case by simp
next
  case (Suc n)
  let ?m = "decks q ! a"
  have a: "a < length (decks q)" "a < c" using Suc.prems by simp_all
  have up: "map int [a..<c] = int a # map int [Suc a..<c]" using a by (simp add: upt_conv_Cons)
  have m: "at (decks q) (int a) = Some ?m" "mj_compare target ?m = 0" using a Suc.prems by (simp_all add: at_eq)
  define q1 where "q1 = q\<lparr>door := (door q)[nat (door_index q) := target], door_index := door_index q + 1\<rparr>"
  have p: "push_door target q = Some q1" using Suc.prems by (simp add: push_door_def set_at_eq q1_def)
  define q2 where "q2 = q1\<lparr>decks := (decks q)[a := clear_mj ?m]\<rparr>"
  have c: "clear_deck (int a) q1 = Some q2"
    using a by (simp add: clear_deck_def put_deck_def at_eq set_at_eq q2_def q1_def)
  have d2: "decks q2 ! k = (if k = a then clear_mj ?m else decks q ! k)" for k
    using a by (simp add: q2_def)
  have hold: "holdings q2 = holdings q"
  proof -
    have "kind ?m = kind target" using Suc.prems by simp
    moreover have "\<not> is_null ?m" using calculation Suc.prems(4) by (simp add: is_null_kind)
    ultimately show ?thesis
      using clear_deck_holdings [OF c] push_door_holdings [OF p] by (simp add: q1_def)
  qed
  show ?case
  proof (cases "n = 0")
    case True
    have "claim_loop target (map int [a..<c]) (int (Suc n)) q = Some q2"
      unfolding up using m p c True by (simp del: at_Some mj_compare_0)
    then show ?thesis using hold d2 True by (auto simp: q2_def q1_def)
  next
    case False
    have "\<exists>q'. claim_loop target (map int [Suc a..<c]) (int n) q2 = Some q' \<and> holdings q' = holdings q2 \<and>
      (\<forall>k. decks q' ! k = (if Suc a \<le> k \<and> k < Suc a + n then clear_mj (decks q2 ! k) else decks q2 ! k)) \<and>
      length (decks q') = length (decks q2) \<and> length (door q') = length (door q2) \<and>
      q' = q2\<lparr>decks := decks q', door := door q', door_index := door_index q2 + int n\<rparr>"
      by (rule Suc.IH) (use False Suc.prems d2 in \<open>auto simp: q2_def q1_def\<close>)
    then obtain q' where q': "claim_loop target (map int [Suc a..<c]) (int n) q2 = Some q'" "holdings q' = holdings q2"
      "\<forall>k. decks q' ! k = (if Suc a \<le> k \<and> k < Suc a + n then clear_mj (decks q2 ! k) else decks q2 ! k)"
      "length (decks q') = length (decks q2)" "length (door q') = length (door q2)"
      "q' = q2\<lparr>decks := decks q', door := door q', door_index := door_index q2 + int n\<rparr>" by blast
    have "claim_loop target (map int [a..<c]) (int (Suc n)) q = Some q'"
      unfolding up using m p c q'(1) False by (simp del: at_Some mj_compare_0)
    moreover have "\<forall>k. decks q' ! k = (if a \<le> k \<and> k < a + Suc n then clear_mj (decks q ! k) else decks q ! k)"
      using q'(3) d2 by (auto simp: le_Suc_eq Suc_le_eq)
    moreover have "q' = q\<lparr>decks := decks q', door := door q', door_index := door_index q + int (Suc n)\<rparr>"
      using q'(6) by (simp add: q2_def q1_def algebra_simps)
    ultimately show ?thesis using q' hold by (auto simp: q2_def q1_def)
  qed
qed

lemma upto_map: "[0..int n - 1] = map int [0..<n]"
  by (induction n) (simp_all add: upto_rec2)

subsection \<open>Closing the gap\<close>

lemma compact_loop_skip:
  "\<forall>i \<in> set is. \<exists>m. at (decks q) i = Some m \<and> \<not> is_null m \<Longrightarrow>
     compact_loop base (is @ js) need q = compact_loop base js need q"
  by (induction "is") (auto simp: is_null_def simp del: at_Some)

definition swapped :: "nat \<Rightarrow> nat \<Rightarrow> mj list \<Rightarrow> mj list" where
  "swapped i j xs = xs[i := xs ! j, j := xs ! i]"

lemma swapped_simps [simp]:
  "length (swapped i j xs) = length xs"
  "i < length xs \<Longrightarrow> j < length xs \<Longrightarrow> mset (swapped i j xs) = mset xs"
  by (simp_all add: swapped_def mset_swap)

lemma swapped_nth:
  "i < length xs \<Longrightarrow> j < length xs \<Longrightarrow> swapped i j xs ! k = xs ! (if k = i then j else if k = j then i else k)"
  by (auto simp: swapped_def nth_list_update)

text \<open>One turn of the loop at a null place.\<close>

lemma compact_loop_hit:
  assumes "i < length (decks q)" and "is_null (decks q ! i)" and "normal_capacity q - base + need = int j"
    and "j < length (decks q)"
  shows "compact_loop base (int i # is) need q =
     (if need = 1 then Some (q\<lparr>decks := swapped i j (decks q)\<rparr>)
      else compact_loop base is (need - 1) (q\<lparr>decks := swapped i j (decks q)\<rparr>))"
  using assms
  by (simp add: at_eq is_null_def swap_deck_def swap_at_def set_at_eq swapped_def)

text \<open>Two or three null places next to each other end up at the end of the hand.\<close>

lemma compact_two:
  assumes c: "normal_capacity q = int c" "c \<le> length (decks q)" and a: "a + 2 \<le> c"
    and null: "\<forall>k < c. is_null (decks q ! k) \<longleftrightarrow> a \<le> k \<and> k < a + 2"
  shows "\<exists>d. compact_loop 3 [0..normal_capacity q - 1] 2 q = Some (q\<lparr>decks := d\<rparr>) \<and> length d = length (decks q) \<and>
     mset d = mset (decks q) \<and> (\<forall>k < c. is_null (d ! k) \<longleftrightarrow> c \<le> k + 2) \<and> (\<forall>k \<ge> c. d ! k = decks q ! k)"
proof -
  let ?D = "decks q"
  define d1 where "d1 = swapped a (c - 1) ?D"
  define d2 where "d2 = swapped (a + 1) (c - 2) d1"
  have n1: "d1 ! k = ?D ! (if k = a then c - 1 else if k = c - 1 then a else k)" for k
    unfolding d1_def by (rule swapped_nth) (use a c in auto)
  have n2: "d2 ! k = d1 ! (if k = a + 1 then c - 2 else if k = c - 2 then a + 1 else k)" for k
    unfolding d2_def by (rule swapped_nth) (use a c in \<open>auto simp: d1_def\<close>)
  have m1: "mset d1 = mset ?D" unfolding d1_def by (rule swapped_simps(2)) (use a c in auto)
  have m2: "mset d2 = mset d1" unfolding d2_def by (rule swapped_simps(2)) (use a c in \<open>auto simp: d1_def\<close>)
  have up: "[0..normal_capacity q - 1] = map int [0..<a] @ int a # int (a + 1) # map int [a + 2..<c]"
  proof -
    have "[0..<c] = [0..<a] @ a # (a + 1) # [a + 2..<c]"
      using a upt_add_eq_append [of 0 a "c - a"] by (simp add: upt_conv_Cons)
    then show ?thesis using upto_map [of c] c(1) by simp
  qed
  have "compact_loop 3 [0..normal_capacity q - 1] 2 q = compact_loop 3 (int a # int (a + 1) # map int [a + 2..<c]) 2 q"
    unfolding up by (rule compact_loop_skip) (use a c null in \<open>auto simp: at_eq\<close>)
  also have "\<dots> = compact_loop 3 (int (a + 1) # map int [a + 2..<c]) 1 (q\<lparr>decks := d1\<rparr>)"
    by (subst compact_loop_hit [where j = "c - 1"]) (use a c null in \<open>auto simp: d1_def\<close>)
  also have "\<dots> = Some (q\<lparr>decks := d2\<rparr>)"
    by (subst compact_loop_hit [where j = "c - 2"]) (use a c null n1 in \<open>auto simp: d1_def d2_def\<close>)
  finally have run: "compact_loop 3 [0..normal_capacity q - 1] 2 q = Some (q\<lparr>decks := d2\<rparr>)" .
  have nulls: "\<forall>k < c. is_null (d2 ! k) \<longleftrightarrow> c \<le> k + 2"
    using a null unfolding n2 n1 by (auto split: if_splits)
  have "\<forall>k \<ge> c. d2 ! k = ?D ! k" using a unfolding n2 n1 by auto
  then show ?thesis using run nulls m1 m2 by (intro exI [of _ d2]) (simp add: d1_def d2_def)
qed

lemma compact_three:
  assumes c: "normal_capacity q = int c" "c \<le> length (decks q)" and a: "a + 3 \<le> c"
    and null: "\<forall>k < c. is_null (decks q ! k) \<longleftrightarrow> a \<le> k \<and> k < a + 3"
  shows "\<exists>d. compact_loop 4 [0..normal_capacity q - 1] 3 q = Some (q\<lparr>decks := d\<rparr>) \<and> length d = length (decks q) \<and>
     mset d = mset (decks q) \<and> (\<forall>k < c. is_null (d ! k) \<longleftrightarrow> c \<le> k + 3) \<and> (\<forall>k \<ge> c. d ! k = decks q ! k)"
proof -
  let ?D = "decks q"
  define d1 where "d1 = swapped a (c - 1) ?D"
  define d2 where "d2 = swapped (a + 1) (c - 2) d1"
  define d3 where "d3 = swapped (a + 2) (c - 3) d2"
  have n1: "d1 ! k = ?D ! (if k = a then c - 1 else if k = c - 1 then a else k)" for k
    unfolding d1_def by (rule swapped_nth) (use a c in auto)
  have n2: "d2 ! k = d1 ! (if k = a + 1 then c - 2 else if k = c - 2 then a + 1 else k)" for k
    unfolding d2_def by (rule swapped_nth) (use a c in \<open>auto simp: d1_def\<close>)
  have n3: "d3 ! k = d2 ! (if k = a + 2 then c - 3 else if k = c - 3 then a + 2 else k)" for k
    unfolding d3_def by (rule swapped_nth) (use a c in \<open>auto simp: d1_def d2_def\<close>)
  have m1: "mset d1 = mset ?D" unfolding d1_def by (rule swapped_simps(2)) (use a c in auto)
  have m2: "mset d2 = mset d1" unfolding d2_def by (rule swapped_simps(2)) (use a c in \<open>auto simp: d1_def\<close>)
  have m3: "mset d3 = mset d2" unfolding d3_def by (rule swapped_simps(2)) (use a c in \<open>auto simp: d1_def d2_def\<close>)
  have up: "[0..normal_capacity q - 1] =
      map int [0..<a] @ int a # int (a + 1) # int (a + 2) # map int [a + 3..<c]"
  proof -
    have "[0..<c] = [0..<a] @ [a..<c]" using a upt_add_eq_append [of 0 a "c - a"] by simp
    moreover have "[a..<c] = a # (a + 1) # (a + 2) # [a + 3..<c]"
      using a by (simp add: upt_conv_Cons numeral_3_eq_3)
    ultimately have "[0..<c] = [0..<a] @ a # (a + 1) # (a + 2) # [a + 3..<c]" by simp
    then show ?thesis using upto_map [of c] c(1) by simp
  qed
  have null2: "is_null (d1 ! (a + 1))" "is_null (d2 ! (a + 2))"
    using null a unfolding n2 n1 by (auto split: if_splits)
  have "compact_loop 4 [0..normal_capacity q - 1] 3 q =
      compact_loop 4 (int a # int (a + 1) # int (a + 2) # map int [a + 3..<c]) 3 q"
    unfolding up by (rule compact_loop_skip) (use a c null in \<open>auto simp: at_eq\<close>)
  also have "\<dots> = compact_loop 4 (int (a + 1) # int (a + 2) # map int [a + 3..<c]) 2 (q\<lparr>decks := d1\<rparr>)"
    by (subst compact_loop_hit [where j = "c - 1"]) (use a c null in \<open>auto simp: d1_def\<close>)
  also have "\<dots> = compact_loop 4 (int (a + 2) # map int [a + 3..<c]) 1 (q\<lparr>decks := d2\<rparr>)"
    by (subst compact_loop_hit [where j = "c - 2"]) (use a c null2 in \<open>auto simp: d1_def d2_def\<close>)
  also have "\<dots> = Some (q\<lparr>decks := d3\<rparr>)"
    by (subst compact_loop_hit [where j = "c - 3"]) (use a c null2 in \<open>auto simp: d1_def d2_def d3_def\<close>)
  finally have run: "compact_loop 4 [0..normal_capacity q - 1] 3 q = Some (q\<lparr>decks := d3\<rparr>)" .
  obtain e where e: "c = e + 3" using a by (metis add.commute le_add2 le_iff_add le_trans)
  have nulls: "\<forall>k < c. is_null (d3 ! k) \<longleftrightarrow> c \<le> k + 3"
  proof (intro allI impI)
    fix k assume k: "k < c"
    let ?k2 = "if k = a + 2 then e else if k = e then a + 2 else k"
    let ?k1 = "if ?k2 = a + 1 then e + 1 else if ?k2 = e + 1 then a + 1 else ?k2"
    let ?k0 = "if ?k1 = a then e + 2 else if ?k1 = e + 2 then a else ?k1"
    have "d3 ! k = ?D ! ?k0" unfolding n3 n2 n1 by (simp add: e)
    moreover have "?k0 < c" using a k by (simp add: e)
    moreover have "(a \<le> ?k0 \<and> ?k0 < a + 3) = (c \<le> k + 3)" using a k by (simp add: e)
    ultimately show "is_null (d3 ! k) \<longleftrightarrow> c \<le> k + 3" using null by simp
  qed
  have "\<forall>k \<ge> c. d3 ! k = ?D ! k" using a unfolding n3 n2 n1 by auto
  then show ?thesis using run nulls m1 m2 m3 by (intro exI [of _ d3]) (simp add: d1_def d2_def d3_def)
qed

subsection \<open>Gang and pong\<close>

text \<open>When the claims are offered: the hand has three, or two, of the discarded kind.\<close>

lemma hand_playable: "hand_ok q \<Longrightarrow> \<forall>m \<in> set (hand q). playable m"
  by (auto simp: hand_ok_def hand_def in_set_conv_nth split: if_splits)

lemma counted:
  assumes H: "hand_ok q" and d: "playable d"
  shows "count_tiles (decks q) (normal_capacity q) = Some (tile_counts (hand q))"
    and "count_get (tile_counts (hand q)) (mj_index d) =
      Some (int (length (filter (\<lambda>m. kind m = kind d) (hand q))))"
proof -
  let ?n = "nat (normal_capacity q)"
  have n: "int ?n = normal_capacity q" "?n \<le> length (decks q)" using H by (auto simp: hand_ok_def)
  show "count_tiles (decks q) (normal_capacity q) = Some (tile_counts (hand q))"
    using count_tiles_eq [OF n(2)] hand_playable [OF H] n(1) by (simp add: hand_def)
  have "nat (mj_index m) = nat (mj_index d) \<longleftrightarrow> kind m = kind d" if "m \<in> set (hand q)" for m
  proof -
    have m: "playable m" using hand_playable [OF H] that by blast
    show ?thesis
      using mj_index_inj [OF m d] mj_index_range [OF m] mj_index_range [OF d] mj_index_kind [of m d]
      by (auto simp: nat_eq_iff2)
  qed
  then have "filter (\<lambda>m. nat (mj_index m) = nat (mj_index d)) (hand q) = filter (\<lambda>m. kind m = kind d) (hand q)"
    by (intro filter_cong) auto
  then show "count_get (tile_counts (hand q)) (mj_index d) =
      Some (int (length (filter (\<lambda>m. kind m = kind d) (hand q))))"
    using mj_index_range [OF d] by (simp add: count_get_def tile_counts_def)
qed

lemma gang_possible_iff:
  assumes "hand_ok q" and "playable d"
  shows "is_gang_possible (decks q) (normal_capacity q) d =
     Some (if 3 \<le> length (filter (\<lambda>m. kind m = kind d) (hand q)) then 1 else 0)"
  using counted [OF assms] by (simp add: is_gang_possible_def)

lemma pong_possible_iff:
  assumes "hand_ok q" and "playable d"
  shows "is_pong_possible (decks q) (normal_capacity q) d =
     Some (if 2 \<le> length (filter (\<lambda>m. kind m = kind d) (hand q)) then 1 else 0)"
  using counted [OF assms] by (simp add: is_pong_possible_def)

text \<open>
  After the tile is pushed and \<open>n\<close> matching tiles are cleared: the null places are exactly the
  \<open>n\<close> neighbours, and the holdings have grown by the pushed tile.
\<close>

lemma claimed:
  assumes S: "shape q" and H: "hand_ok q" and d: "playable d" and n: "0 < n"
    and c: "n \<le> length (filter (\<lambda>m. kind m = kind d) (hand q))"
    and room: "door_index q + int n + 1 \<le> 20"
  obtains q1 q2 a where "push_door d q = Some q1"
    and "claim_loop d [0..normal_capacity q1 - 1] (int n) q1 = Some q2"
    and "a + n \<le> nat (normal_capacity q)" and "length (decks q2) = 20"
    and "normal_capacity q2 = int (nat (normal_capacity q))" and "nat (normal_capacity q) \<le> 16"
    and "\<forall>k < nat (normal_capacity q). is_null (decks q2 ! k) \<longleftrightarrow> a \<le> k \<and> k < a + n"
    and "\<forall>k < 20. nat (normal_capacity q) \<le> k \<longrightarrow> is_null (decks q2 ! k)"
    and "\<forall>k < 20. is_null (decks q2 ! k) \<or> playable (decks q2 ! k)"
    and "holdings q2 = add_mset (kind d) (holdings q)"
    and "q2 = q\<lparr>decks := decks q2, door := door q2, door_index := door_index q + int n + 1\<rparr>"
    and "length (door q2) = 20"
proof -
  let ?n = "nat (normal_capacity q)"
  have h: "length (decks q) = 20" "0 \<le> normal_capacity q" "normal_capacity q \<le> 16"
    "\<And>k. k < 20 \<Longrightarrow> if int k < normal_capacity q then playable (decks q ! k) else is_null (decks q ! k)"
    using H by (auto simp: hand_ok_def)
  have s: "length (door q) = 20" "0 \<le> door_index q" using S by (auto simp: shape_def)
  obtain a where a: "a + n \<le> ?n" "\<forall>k < a. kind (decks q ! k) \<noteq> kind d"
    "\<forall>k. a \<le> k \<and> k < a + n \<longrightarrow> kind (decks q ! k) = kind d" by (rule matches_run [OF H n c])
  define q1 where "q1 = q\<lparr>door := (door q)[nat (door_index q) := d], door_index := door_index q + 1\<rparr>"
  have p: "push_door d q = Some q1" using s room n by (simp add: push_door_def set_at_eq q1_def)
  have up: "[0..normal_capacity q1 - 1] = map int [0..<a] @ map int [a..<?n]"
    using upto_map [of ?n] h(2) a(1) upt_add_eq_append [of 0 a "?n - a"] by (simp add: q1_def)
  have "claim_loop d [0..normal_capacity q1 - 1] (int n) q1 = claim_loop d (map int [a..<?n]) (int n) q1"
    unfolding up by (rule claim_loop_skip) (use a h in \<open>auto simp: at_eq q1_def\<close>)
  moreover have "\<exists>q'. claim_loop d (map int [a..<?n]) (int n) q1 = Some q' \<and> holdings q' = holdings q1 \<and>
     (\<forall>k. decks q' ! k = (if a \<le> k \<and> k < a + n then clear_mj (decks q1 ! k) else decks q1 ! k)) \<and>
     length (decks q') = length (decks q1) \<and> length (door q') = length (door q1) \<and>
     q' = q1\<lparr>decks := decks q', door := door q', door_index := door_index q1 + int n\<rparr>"
    by (rule claim_loop_take) (use n a h s d room in \<open>auto simp: q1_def\<close>)
  ultimately obtain q2 where q2: "claim_loop d [0..normal_capacity q1 - 1] (int n) q1 = Some q2"
    "holdings q2 = holdings q1"
    "\<forall>k. decks q2 ! k = (if a \<le> k \<and> k < a + n then clear_mj (decks q ! k) else decks q ! k)"
    "length (decks q2) = 20" "length (door q2) = 20"
    "q2 = q1\<lparr>decks := decks q2, door := door q2, door_index := door_index q1 + int n\<rparr>"
    using h s by (auto simp: q1_def)
  show thesis
  proof (rule that [OF p q2(1) a(1) q2(4)])
    have null: "is_null (decks q ! k) \<longleftrightarrow> normal_capacity q \<le> int k" if "k < 20" for k
      using h(4) [OF that] by (auto split: if_splits)
    have "normal_capacity q2 = normal_capacity q" by (subst q2(6)) (simp add: q1_def)
    then show "normal_capacity q2 = int ?n" using h(2) by simp
    show "?n \<le> 16" using h(3) by simp
    show "\<forall>k < ?n. is_null (decks q2 ! k) \<longleftrightarrow> a \<le> k \<and> k < a + n"
    proof (intro allI impI)
      fix k assume "k < ?n"
      then have "\<not> is_null (decks q ! k)" using null [of k] h(3) by simp
      then show "is_null (decks q2 ! k) \<longleftrightarrow> a \<le> k \<and> k < a + n" using q2(3) by simp
    qed
    show "\<forall>k < 20. ?n \<le> k \<longrightarrow> is_null (decks q2 ! k)" using q2(3) null by (simp add: nat_le_iff)
    show "\<forall>k < 20. is_null (decks q2 ! k) \<or> playable (decks q2 ! k)"
    proof (intro allI impI)
      fix k :: nat assume "k < 20"
      then have "is_null (decks q ! k) \<or> playable (decks q ! k)" using h(4) [of k] by (auto split: if_splits)
      then show "is_null (decks q2 ! k) \<or> playable (decks q2 ! k)" using q2(3) by auto
    qed
    show "holdings q2 = add_mset (kind d) (holdings q)" using q2(2) push_door_holdings [OF p] by simp
    show "q2 = q\<lparr>decks := decks q2, door := door q2, door_index := door_index q + int n + 1\<rparr>"
      using q2(6) by (simp add: q1_def algebra_simps)
  qed (rule q2(5))
qed

text \<open>The hand after the gap is closed, with \<open>n\<close> null places at its end.\<close>

lemma closed:
  assumes e: "mset e = mset xs" "length xs = 20" "\<forall>k < c. is_null (e ! k) \<longleftrightarrow> c \<le> k + n"
      "\<forall>k \<ge> c. e ! k = xs ! k"
    and xs: "\<forall>k < 20. is_null (xs ! k) \<or> playable (xs ! k)"
      "\<forall>k < 20. c \<le> k \<longrightarrow> is_null (xs ! k)" and n: "n \<le> c"
  shows "\<forall>k < 20. if int k < int c - int n then playable (e ! k) else is_null (e ! k)"
proof (intro allI impI)
  fix k :: nat assume k: "k < 20"
  have "length e = 20" using e(1,2) mset_eq_length by metis
  then have "e ! k \<in> set xs" using k e(1) mset_eq_setD nth_mem by metis
  then have "is_null (e ! k) \<or> playable (e ! k)" using xs(1) e(2) by (auto simp: in_set_conv_nth)
  moreover have "is_null (e ! k) \<longleftrightarrow> \<not> int k < int c - int n"
  proof (cases "k < c")
    case True
    then show ?thesis using e(3) n by auto
  next
    case False
    then show ?thesis using e(4) xs(2) k by simp
  qed
  ultimately show "if int k < int c - int n then playable (e ! k) else is_null (e ! k)" by auto
qed

lemma gang_tiles_ok:
  assumes S: "shape q" and H: "hand_ok q" and d: "playable d" and door: "door_index q \<le> 16"
    and cnt: "3 \<le> length (filter (\<lambda>m. kind m = kind d) (hand q))"
  shows "\<exists>q'. gang_tiles d q = Some q' \<and> shape q' \<and> hand_ok q' \<and> normal_capacity q' = normal_capacity q - 3 \<and>
     door_index q' = door_index q + 4 \<and> holdings q' = add_mset (kind d) (holdings q)"
proof -
  let ?n = "nat (normal_capacity q)"
  obtain q1 q2 a where q: "push_door d q = Some q1"
    "claim_loop d [0..normal_capacity q1 - 1] (int 3) q1 = Some q2" "a + 3 \<le> ?n" "length (decks q2) = 20"
    "normal_capacity q2 = int ?n" "?n \<le> 16" "\<forall>k < ?n. is_null (decks q2 ! k) \<longleftrightarrow> a \<le> k \<and> k < a + 3"
    "\<forall>k < 20. ?n \<le> k \<longrightarrow> is_null (decks q2 ! k)" "\<forall>k < 20. is_null (decks q2 ! k) \<or> playable (decks q2 ! k)"
    "holdings q2 = add_mset (kind d) (holdings q)"
    "q2 = q\<lparr>decks := decks q2, door := door q2, door_index := door_index q + int 3 + 1\<rparr>"
    "length (door q2) = 20"
    by (rule claimed [OF S H d _ cnt]) (use door in auto)
  obtain e where e: "compact_loop 4 [0..normal_capacity q2 - 1] 3 q2 = Some (q2\<lparr>decks := e\<rparr>)"
    "length e = length (decks q2)" "mset e = mset (decks q2)" "\<forall>k < ?n. is_null (e ! k) \<longleftrightarrow> ?n \<le> k + 3"
    "\<forall>k \<ge> ?n. e ! k = decks q2 ! k"
    using compact_three [OF q(5) _ q(3,7)] q(4,6) by auto
  define q3 where "q3 = q2\<lparr>decks := e, normal_capacity := normal_capacity q2 - 3\<rparr>"
  have "\<forall>k < 20. if int k < int ?n - int 3 then playable (e ! k) else is_null (e ! k)"
    by (rule closed [OF e(3) q(4) e(4,5) q(9,8)]) (use q(3) in simp)
  then have hand3: "\<forall>k < 20. if int k < normal_capacity q3 then playable (decks q3 ! k) else is_null (decks q3 ! k)"
    using q(5) by (simp add: q3_def)
  obtain q' where q': "sort_deck 0 (normal_capacity q3 - 1) q3 = Some q'" "hand_ok q'" "holdings q' = holdings q3"
    "q' = q3\<lparr>decks := decks q'\<rparr>"
    by (rule sorted_hand [OF _ _ _ hand3]) (use e(2) q(3-6) in \<open>auto simp: q3_def\<close>)
  have "gang_tiles d q = Some q'"
    unfolding gang_tiles_def using q(1,2) e(1) q'(1) by (simp add: q3_def Let_def)
  moreover have "holdings q' = add_mset (kind d) (holdings q)"
    using q'(3) q(10) holdings_decks [OF e(3)] by (simp add: q3_def holdings_def)
  moreover have "shape q'" "normal_capacity q' = normal_capacity q - 3" "door_index q' = door_index q + 4"
  proof -
    have len: "length (decks q') = 20" using q'(2) by (simp add: hand_ok_def)
    have eq: "q' = q\<lparr>decks := decks q', door := door q2, door_index := door_index q + 4,
        normal_capacity := normal_capacity q - 3\<rparr>"
      using q'(4) q(5) H by (subst q'(4), unfold q3_def, subst q(11)) (simp add: hand_ok_def)
    show "normal_capacity q' = normal_capacity q - 3" by (subst eq) simp
    show "door_index q' = door_index q + 4" by (subst eq) simp
    show "shape q'" using S len q(12) door by (subst eq) (simp add: shape_def)
  qed
  ultimately show ?thesis using q'(2) by blast
qed

lemma pong_tiles_ok:
  assumes S: "shape q" and H: "hand_ok q" and d: "playable d" and door: "door_index q \<le> 17"
    and cnt: "2 \<le> length (filter (\<lambda>m. kind m = kind d) (hand q))"
    and three: "3 \<le> normal_capacity q"
  shows "\<exists>q'. pong_tiles d q = Some q' \<and> shape q' \<and> hand_drawn q' \<and> normal_capacity q' = normal_capacity q - 3 \<and>
     door_index q' = door_index q + 3 \<and> holdings q' = add_mset (kind d) (holdings q)"
proof -
  let ?n = "nat (normal_capacity q)"
  obtain q1 q2 a where q: "push_door d q = Some q1"
    "claim_loop d [0..normal_capacity q1 - 1] (int 2) q1 = Some q2" "a + 2 \<le> ?n" "length (decks q2) = 20"
    "normal_capacity q2 = int ?n" "?n \<le> 16" "\<forall>k < ?n. is_null (decks q2 ! k) \<longleftrightarrow> a \<le> k \<and> k < a + 2"
    "\<forall>k < 20. ?n \<le> k \<longrightarrow> is_null (decks q2 ! k)" "\<forall>k < 20. is_null (decks q2 ! k) \<or> playable (decks q2 ! k)"
    "holdings q2 = add_mset (kind d) (holdings q)"
    "q2 = q\<lparr>decks := decks q2, door := door q2, door_index := door_index q + int 2 + 1\<rparr>"
    "length (door q2) = 20"
    by (rule claimed [OF S H d _ cnt]) (use door in auto)
  obtain e where e: "compact_loop 3 [0..normal_capacity q2 - 1] 2 q2 = Some (q2\<lparr>decks := e\<rparr>)"
    "length e = length (decks q2)" "mset e = mset (decks q2)" "\<forall>k < ?n. is_null (e ! k) \<longleftrightarrow> ?n \<le> k + 2"
    "\<forall>k \<ge> ?n. e ! k = decks q2 ! k"
    using compact_two [OF q(5) _ q(3,7)] q(4,6) by auto
  define q3 where "q3 = q2\<lparr>decks := e, normal_capacity := normal_capacity q2 - 3\<rparr>"
  have "\<forall>k < 20. if int k < int ?n - int 2 then playable (e ! k) else is_null (e ! k)"
    by (rule closed [OF e(3) q(4) e(4,5) q(9,8)]) (use q(3) in simp)
  then have hand3: "hand_drawn q3"
    using q(3-6) e(2) three by (simp add: q3_def hand_drawn_def)
  obtain q' where q': "sort_deck 0 (normal_capacity q3) q3 = Some q'" "hand_drawn q'" "holdings q' = holdings q3"
    "q' = q3\<lparr>decks := decks q'\<rparr>"
    by (rule sorted_drawn [OF hand3]) 
  have "pong_tiles d q = Some q'"
    unfolding pong_tiles_def using q(1,2) e(1) q'(1) by (simp add: q3_def Let_def)
  moreover have "holdings q' = add_mset (kind d) (holdings q)"
    using q'(3) q(10) holdings_decks [OF e(3)] by (simp add: q3_def holdings_def)
  moreover have "shape q'" "normal_capacity q' = normal_capacity q - 3" "door_index q' = door_index q + 3"
  proof -
    have len: "length (decks q') = 20" using q'(2) by (simp add: hand_drawn_def)
    have eq: "q' = q\<lparr>decks := decks q', door := door q2, door_index := door_index q + 3,
        normal_capacity := normal_capacity q - 3\<rparr>"
      using q'(4) q(5) H by (subst q'(4), unfold q3_def, subst q(11)) (simp add: hand_ok_def)
    show "normal_capacity q' = normal_capacity q - 3" by (subst eq) simp
    show "door_index q' = door_index q + 3" by (subst eq) simp
    show "shape q'" using S len q(12) door by (subst eq) (simp add: shape_def)
  qed
  ultimately show ?thesis using q'(2) by blast
qed

subsection \<open>Eat\<close>

lemma eat_temp_SomeD:
  assumes "eat_temp deck e1 e2 d = Some t"
  shows "0 \<le> e1" "e1 < int (length deck)" "0 \<le> e2" "e2 < int (length deck)" "length t = 3"
    and "mset t = {#deck ! nat e1, deck ! nat e2, d#}"
proof -
  from assms obtain a b where ab: "at deck e1 = Some a" "at deck e2 = Some b"
    "decks_quick_sort [a, b, d] 0 2 = Some t" by (auto simp: eat_temp_def bind_eq_Some_conv)
  have b: "(0::int) \<le> 0" "(2::int) < int (length [a, b, d])" by simp_all
  show "length t = 3" "mset t = {#deck ! nat e1, deck ! nat e2, d#}"
    using deck_sort.sort_SomeD(3,4) [OF ab(3) b] ab(1,2) by (simp_all add: add_mset_commute)
  show "0 \<le> e1" "e1 < int (length deck)" "0 \<le> e2" "e2 < int (length deck)" using ab(1,2) by auto
qed

lemma three_list: "length t = 3 \<Longrightarrow> t = [t ! 0, t ! 1, t ! 2]"
  by (cases t; cases "tl t"; cases "tl (tl t)") auto

text \<open>Two tiles that fit are different places of the hand, and none of them is empty.\<close>

lemma eatable_places:
  assumes H: "hand_ok q" and d: "playable d" and t: "eat_temp (decks q) e1 e2 d = Some t" and e: "eatable t"
  shows "e1 \<noteq> e2" "e1 < normal_capacity q" "e2 < normal_capacity q"
    and "kinds t = {#kind (decks q ! nat e1), kind (decks q ! nat e2), kind d#}"
proof -
  note T = eat_temp_SomeD [OF t]
  let ?a = "decks q ! nat e1" and ?b = "decks q ! nat e2"
  have ms: "{#t ! 0, t ! 1, t ! 2#} = {#?a, ?b, d#}"
    using T(5,6) three_list [OF T(5)] by (metis mset.simps add_mset_commute)
  have nums: "{#number (t ! 0), number (t ! 1), number (t ! 2)#} = {#number ?a, number ?b, number d#}"
    using arg_cong [OF ms, of "image_mset number"] by simp
  have types: "type m = type d" if "m \<in># {#?a, ?b, d#}" for m
  proof -
    have m: "m \<in># {#t ! 0, t ! 1, t ! 2#}" unfolding ms by (rule that)
    have "d \<in># {#t ! 0, t ! 1, t ! 2#}" unfolding ms by simp
    with m e show ?thesis by (auto simp: eatable_def)
  qed
  show "e1 \<noteq> e2"
  proof
    assume "e1 = e2"
    then have two: "{#number (t ! 0), number (t ! 1), number (t ! 2)#} = {#number ?a, number ?a, number d#}"
      using nums by simp
    have "2 \<le> count {#number ?a, number ?a, number d#} (number ?a)" by simp
    moreover have "count {#number (t ! 0), number (t ! 1), number (t ! 2)#} (number ?a) \<le> 1"
      using e by (auto simp: eatable_def)
    ultimately show False unfolding two by linarith
  qed
  have place: "i < normal_capacity q" if "0 \<le> i" "i < 20" "type (decks q ! nat i) = type d" for i
  proof (rule ccontr)
    assume "\<not> i < normal_capacity q"
    then have "is_null (decks q ! nat i)" using H that by (auto simp: hand_ok_def)
    then show False using that(3) d by (auto simp: is_null_def playable_def)
  qed
  have len: "length (decks q) = 20" using H by (simp add: hand_ok_def)
  show "e1 < normal_capacity q" "e2 < normal_capacity q" using T len types by (auto intro!: place)
  show "kinds t = {#kind ?a, kind ?b, kind d#}" using T(6) by (simp add: kinds_def)
qed

text \<open>The moves of \<open>eat_tiles\<close>: the hand is the old one with two places cleared and swapped.\<close>

definition eaten :: "nat \<Rightarrow> nat \<Rightarrow> nat \<Rightarrow> mj list \<Rightarrow> mj list" where
  "eaten c i j xs = swapped j (c - 2) (swapped i (c - 1)
     (xs[i := clear_mj (xs ! i), j := clear_mj (xs ! j)]))"

lemma eat_tiles_run:
  assumes S: "shape q" and H: "hand_ok q" and d: "playable d"
    and t: "eat_temp (decks q) e1 e2 d = Some t" and e: "eatable t" and door: "door_index q \<le> 17"
    and c: "normal_capacity q = int c" "2 \<le> c"
  obtains w where "eat_tiles e1 e2 t q = Some (q\<lparr>decks := eaten c (nat e1) (nat e2) (decks q),
       door := w, door_index := door_index q + 3\<rparr>)"
    and "length w = 20"
    and "holdings (q\<lparr>decks := eaten c (nat e1) (nat e2) (decks q), door := w, door_index := door_index q + 3\<rparr>) =
      add_mset (kind d) (holdings q)"
proof -
  note T = eat_temp_SomeD [OF t] and P = eatable_places [OF H d t e]
  let ?i = "nat e1" and ?j = "nat e2"
  have len: "length (decks q) = 20" "c \<le> 16" using H c by (auto simp: hand_ok_def)
  have s: "length (door q) = 20" "0 \<le> door_index q" using S by (auto simp: shape_def)
  have ij: "?i \<noteq> ?j" "?i < c" "?j < c" using P T c by auto
  define w where "w = (door q)[nat (door_index q) := t ! 0, nat (door_index q + 1) := t ! 1, nat (door_index q + 2) := t ! 2]"
  obtain q1 where q1: "push_door (t ! 0) q = Some q1" using s door by (simp add: push_door_def set_at_eq)
  note D1 = push_door_SomeD [OF q1]
  obtain q2 where q2: "push_door (t ! 1) q1 = Some q2" using s door by (simp add: push_door_def set_at_eq D1)
  note D2 = push_door_SomeD [OF q2]
  obtain q3 where q3: "push_door (t ! 2) q2 = Some q3" using s door by (simp add: push_door_def set_at_eq D1 D2)
  note D3 = push_door_SomeD [OF q3]
  have e3: "q3 = q\<lparr>door := w, door_index := door_index q + 3\<rparr>" by (simp add: D1 D2 D3 w_def add.commute)
  define q4 where "q4 = q3\<lparr>decks := (decks q)[?i := clear_mj (decks q ! ?i)]\<rparr>"
  have c4: "clear_deck e1 q3 = Some q4"
    using T(1,2) len by (simp add: clear_deck_def put_deck_def at_eq set_at_eq e3 q4_def)
  define q5 where "q5 = q4\<lparr>decks := (decks q4)[?j := clear_mj (decks q ! ?j)]\<rparr>"
  have c5: "clear_deck e2 q4 = Some q5"
    using T(3,4) len ij by (simp add: clear_deck_def put_deck_def at_eq set_at_eq q4_def q5_def e3)
  define q6 where "q6 = q5\<lparr>decks := swapped ?i (c - 1) (decks q5)\<rparr>"
  have c6: "swap_deck e1 (normal_capacity q5 - 1) q5 = Some q6"
    using T(1,2) len c by (simp add: swap_deck_def swap_at_def at_eq set_at_eq q4_def q5_def q6_def e3 swapped_def nat_diff_distrib)
  define q7 where "q7 = q6\<lparr>decks := swapped ?j (c - 2) (decks q6)\<rparr>"
  have c7: "swap_deck e2 (normal_capacity q6 - 2) q6 = Some q7"
    using T(3,4) len c by (simp add: swap_deck_def swap_at_def at_eq set_at_eq q4_def q5_def q6_def q7_def e3 swapped_def nat_diff_distrib)
  have e7: "q7 = q\<lparr>decks := eaten c ?i ?j (decks q), door := w, door_index := door_index q + 3\<rparr>"
    by (simp add: q7_def q6_def q5_def q4_def e3 eaten_def)
  have run: "eat_tiles e1 e2 t q = Some q7"
    unfolding eat_tiles_def using q1 q2 q3 c4 c5 c6 c7 by simp
  have live: "\<not> is_null (decks q ! ?i)" "\<not> is_null (decks q ! ?j)"
  proof -
    have "playable (decks q ! k)" if "k < c" for k
    proof -
      have "k < 20" "int k < normal_capacity q" using that c len by auto
      then show ?thesis using H by (auto simp: hand_ok_def)
    qed
    then show "\<not> is_null (decks q ! ?i)" "\<not> is_null (decks q ! ?j)" using ij by simp_all
  qed
  have "holdings q7 = holdings q5" using swap_deck_holdings [OF c6] swap_deck_holdings [OF c7] by simp
  moreover have "add_mset (kind (decks q ! ?j)) (holdings q5) = holdings q4"
    using clear_deck_holdings [OF c5] live ij by (simp add: q4_def)
  moreover have "add_mset (kind (decks q ! ?i)) (holdings q4) = holdings q3"
    using clear_deck_holdings [OF c4] live by (simp add: e3)
  moreover have "holdings q3 = kinds t + holdings q"
    using push_door_holdings [OF q1] push_door_holdings [OF q2] push_door_holdings [OF q3]
    by (subst three_list [OF T(5)]) simp
  ultimately have "add_mset (kind (decks q ! ?i)) (add_mset (kind (decks q ! ?j)) (holdings q7)) =
      kinds t + holdings q" by simp
  then have "holdings q7 = add_mset (kind d) (holdings q)" unfolding P(4) by simp
  then show thesis using that run s unfolding e7 by (simp add: w_def)
qed

text \<open>Where the tiles are after the swaps; \<open>e2\<close> at the end of the hand is the bad case.\<close>

lemma eaten_nth:
  assumes "length xs = 20" and "i < c" "j < c" "i \<noteq> j" "c \<le> 16" "2 \<le> c"
  shows "eaten c i j xs ! k =
    (let m = (if k = j then c - 2 else if k = c - 2 then j else k);
         l = (if m = i then c - 1 else if m = c - 1 then i else m)
     in if l = i \<or> l = j then clear_mj (xs ! l) else xs ! l)"
proof -
  have "swapped i (c - 1) ys ! k = ys ! (if k = i then c - 1 else if k = c - 1 then i else k)"
    if "length ys = 20" for ys k by (rule swapped_nth) (use that assms in auto)
  moreover have "swapped j (c - 2) ys ! k = ys ! (if k = j then c - 2 else if k = c - 2 then j else k)"
    if "length ys = 20" for ys k by (rule swapped_nth) (use that assms in auto)
  ultimately show ?thesis using assms unfolding eaten_def Let_def
    by (simp add: nth_list_update)
qed

text \<open>One swap moves an empty place to the end.\<close>

lemma null_swapped:
  assumes "length xs = 20" "c \<le> 16" "i < c" "j < c" "i \<noteq> j" "e < c"
    and "\<forall>k < 20. is_null (xs ! k) \<longleftrightarrow> c \<le> k \<or> k = i \<or> k = j"
    and "k < 20"
  shows "is_null (swapped i e xs ! k) \<longleftrightarrow> c \<le> k \<or> k = e \<or> k = (if j = e then i else j)"
proof -
  have "swapped i e xs ! k = xs ! (if k = i then e else if k = e then i else k)"
    by (rule swapped_nth) (use assms in auto)
  then show ?thesis using assms by (cases "k = i"; cases "k = e") auto
qed

lemma eaten_nulls:
  assumes x: "length xs = 20" "\<forall>k < 20. is_null (xs ! k) \<longleftrightarrow> c \<le> k" and c: "c \<le> 16" "2 \<le> c"
    and ij: "i < c" "j < c" "i \<noteq> j" "j \<noteq> c - 1 \<or> i = c - 2" and k: "k < 20"
  shows "is_null (eaten c i j xs ! k) \<longleftrightarrow> c \<le> k + 2"
proof -
  let ?C = "xs[i := clear_mj (xs ! i), j := clear_mj (xs ! j)]"
  have C: "\<forall>k < 20. is_null (?C ! k) \<longleftrightarrow> c \<le> k \<or> k = i \<or> k = j"
    using x ij c by (auto simp: nth_list_update)
  let ?j = "if j = c - 1 then i else j"
  have one: "\<forall>k < 20. is_null (swapped i (c - 1) ?C ! k) \<longleftrightarrow> c \<le> k \<or> k = c - 1 \<or> k = ?j"
    by (intro allI impI null_swapped [OF _ c(1) ij(1-3) _ C]) (use x c in auto)
  show ?thesis
  proof (cases "j = c - 1")
    case True
    then have "\<forall>k < 20. is_null (swapped i (c - 1) ?C ! k) \<longleftrightarrow> c \<le> k \<or> k = j \<or> k = i" using one by simp
    from null_swapped [OF _ c(1) ij(2,1) ij(3) [symmetric] _ this, of "c - 2" k] x(1) c k ij True
    show ?thesis by (auto simp: eaten_def)
  next
    case False
    then have "\<forall>k < 20. is_null (swapped i (c - 1) ?C ! k) \<longleftrightarrow> c \<le> k \<or> k = j \<or> k = c - 1" using one by auto
    from null_swapped [OF _ c(1) ij(2) _ _ _ this, of "c - 2" k] x(1) c k ij False
    show ?thesis by (auto simp: eaten_def)
  qed
qed

text \<open>
  When it is not the second choice that is last in the hand (or the first is next to it), the eater has a
  hand in order again and one tile to discard.
\<close>

lemma eat_ok:
  assumes S: "shape q" and H: "hand_ok q" and d: "playable d"
    and t: "eat_temp (decks q) e1 e2 d = Some t" and e: "eatable t" and door: "door_index q \<le> 17"
    and three: "3 \<le> normal_capacity q"
    and last: "e2 \<noteq> normal_capacity q - 1 \<or> e1 = normal_capacity q - 2"
  shows "\<exists>q1 q'. eat_tiles e1 e2 t q = Some q1 \<and> leave_three q1 = Some q' \<and> hand_drawn q' \<and>
     normal_capacity q' = normal_capacity q - 3 \<and> door_index q' = door_index q + 3 \<and>
     holdings q' = add_mset (kind d) (holdings q)"
proof -
  define c where "c = nat (normal_capacity q)"
  have c: "normal_capacity q = int c" "3 \<le> c" using three by (simp_all add: c_def)
  have len: "length (decks q) = 20" "c \<le> 16" using H c by (auto simp: hand_ok_def)
  note T = eat_temp_SomeD [OF t] and P = eatable_places [OF H d t e]
  let ?i = "nat e1" and ?j = "nat e2"
  have ij: "?i < c" "?j < c" "?i \<noteq> ?j" "?j \<noteq> c - 1 \<or> ?i = c - 2" using P T c last by auto
  obtain w where w: "eat_tiles e1 e2 t q = Some (q\<lparr>decks := eaten c ?i ?j (decks q), door := w, door_index := door_index q + 3\<rparr>)"
    "holdings (q\<lparr>decks := eaten c ?i ?j (decks q), door := w, door_index := door_index q + 3\<rparr>) =
      add_mset (kind d) (holdings q)"
    by (rule eat_tiles_run [OF S H d t e door c(1)]) (use c(2) in auto)
  let ?q1 = "q\<lparr>decks := eaten c ?i ?j (decks q), door := w, door_index := door_index q + 3\<rparr>"
  let ?q2 = "?q1\<lparr>normal_capacity := normal_capacity ?q1 - 3\<rparr>"
  have "hand_drawn ?q2"
  proof -
    let ?C = "(decks q)[?i := clear_mj (decks q ! ?i), ?j := clear_mj (decks q ! ?j)]"
    let ?e = "eaten c ?i ?j (decks q)"
    have old: "if k < c then playable (decks q ! k) else is_null (decks q ! k)" if "k < 20" for k
      using H that c(1) by (auto simp: hand_ok_def split: if_splits)
    have nulls: "\<forall>k < 20. is_null (decks q ! k) \<longleftrightarrow> c \<le> k"
    proof (intro allI impI)
      fix k :: nat assume "k < 20"
      then show "is_null (decks q ! k) \<longleftrightarrow> c \<le> k" using old [of k] by (auto split: if_splits)
    qed
    have e: "is_null (?e ! k) \<longleftrightarrow> c \<le> k + 2" if "k < 20" for k
      by (rule eaten_nulls [OF len(1) nulls len(2) _ ij that]) (use c in simp)
    have ms: "mset ?e = mset ?C" unfolding eaten_def using ij len c by simp
    have "\<forall>k < 20. if int k < int c - int 2 then playable (?e ! k) else is_null (?e ! k)"
    proof (rule closed [OF ms])
      show "\<forall>k \<ge> c. ?e ! k = ?C ! k"
        using ij c by (auto simp: eaten_def swapped_def nth_list_update)
      show "\<forall>k < 20. is_null (?C ! k) \<or> playable (?C ! k)"
      proof (intro allI impI)
        fix k :: nat assume "k < 20"
        then show "is_null (?C ! k) \<or> playable (?C ! k)" using old [of k] len ij by (auto simp: nth_list_update split: if_splits)
      qed
      show "\<forall>k < 20. c \<le> k \<longrightarrow> is_null (?C ! k)" using nulls ij by (auto simp: nth_list_update)
      show "\<forall>k < c. is_null (?e ! k) \<longleftrightarrow> c \<le> k + 2" using e len by auto
    qed (use len c in auto)
    moreover have "int k < int c - int 2 \<longleftrightarrow> int k \<le> int c - 3" for k :: nat by auto
    moreover have "length ?e = 20" using len by (simp add: eaten_def)
    ultimately show ?thesis using len c by (simp add: hand_drawn_def)
  qed
  then obtain q' where q': "sort_deck 0 (normal_capacity ?q2) ?q2 = Some q'" "hand_drawn q'"
    "holdings q' = holdings ?q2" "q' = ?q2\<lparr>decks := decks q'\<rparr>" by (rule sorted_drawn)
  have "leave_three ?q1 = Some q'" using q'(1) by (simp add: leave_three_def Let_def)
  moreover have "holdings q' = add_mset (kind d) (holdings q)" using q'(3) w(2) by (simp add: holdings_def)
  moreover have "normal_capacity q' = normal_capacity q - 3" "door_index q' = door_index q + 3"
    by (subst q'(4), simp)+
  ultimately show ?thesis using w(1) q'(2) by blast
qed

text \<open>
  In the other case the tile before the last of the hand ends behind the hand, where the discard
  does not look, and an empty place is left inside.
\<close>

lemma eat_loses:
  assumes S: "shape q" and H: "hand_ok q" and d: "playable d"
    and t: "eat_temp (decks q) e1 e2 d = Some t" and e: "eatable t" and door: "door_index q \<le> 17"
    and three: "3 \<le> normal_capacity q"
    and last: "e2 = normal_capacity q - 1" "e1 \<noteq> normal_capacity q - 2"
  shows "\<exists>q1. eat_tiles e1 e2 t q = Some q1 \<and> is_null (decks q1 ! nat e1) \<and> e1 \<le> normal_capacity q1 - 3 \<and>
     decks q1 ! nat (normal_capacity q1 - 1) = decks q ! nat (normal_capacity q - 2)"
proof -
  define c where "c = nat (normal_capacity q)"
  have c: "normal_capacity q = int c" "3 \<le> c" using three by (simp_all add: c_def)
  have len: "length (decks q) = 20" "c \<le> 16" using H c by (auto simp: hand_ok_def)
  note T = eat_temp_SomeD [OF t] and P = eatable_places [OF H d t e]
  let ?i = "nat e1" and ?j = "nat e2"
  have ij: "?i < c" "?j < c" "?i \<noteq> ?j" "?j = c - 1" "?i \<noteq> c - 2" using P T c last by auto
  obtain w where w: "eat_tiles e1 e2 t q = Some (q\<lparr>decks := eaten c ?i ?j (decks q), door := w, door_index := door_index q + 3\<rparr>)"
    by (rule eat_tiles_run [OF S H d t e door c(1)]) (use c(2) in auto)
  note nth = eaten_nth [OF len(1) ij(1,2,3) len(2)]
  have "is_null (eaten c ?i ?j (decks q) ! ?i)" using ij c(2) by (subst nth) (auto simp: Let_def)
  moreover have "eaten c ?i ?j (decks q) ! (c - 1) = decks q ! (c - 2)" using ij c(2) by (subst nth) (auto simp: Let_def)
  moreover have "e1 \<le> normal_capacity q - 3" using P T last c by linarith
  moreover have "nat (int c - 1) = c - 1" "nat (int c - 2) = c - 2" using c(2) by simp_all
  ultimately show ?thesis using w c(1) by simp
qed

subsection \<open>When an eat is offered\<close>

text \<open>In a suit, the index and its quotient by nine say which tile it is.\<close>

lemma index_div:
  assumes "playable m"
  shows "mj_index m div 9 = type m - 1"
proof -
  have "mj_index m = (type m - 1) * 9 + (number m - 1)" by (simp add: mj_index_def)
  moreover have "0 \<le> number m - 1" "number m - 1 < 9" using assms by (auto simp: playable_def)
  ultimately show ?thesis by simp
qed

lemma suit_index:
  assumes "playable m" and "playable d"
  shows "mj_index m = mj_index d + i \<and> (mj_index d + i) div 9 = mj_index d div 9 \<longleftrightarrow>
     kind m = (type d, number d + i)"
proof
  assume "mj_index m = mj_index d + i \<and> (mj_index d + i) div 9 = mj_index d div 9"
  then have e: "mj_index m = mj_index d + i" "mj_index m div 9 = mj_index d div 9" by simp_all
  then have "type m = type d" using index_div [OF assms(1)] index_div [OF assms(2)] by simp
  with e(1) show "kind m = (type d, number d + i)" by (simp add: kind_def mj_index_def)
next
  assume "kind m = (type d, number d + i)"
  then have k: "type m = type d" "number m = number d + i" by (simp_all add: kind_def)
  then have e: "mj_index m = mj_index d + i" by (simp add: mj_index_def)
  moreover have "mj_index m div 9 = mj_index d div 9" using index_div [OF assms(1)] index_div [OF assms(2)] k by simp
  ultimately show "mj_index m = mj_index d + i \<and> (mj_index d + i) div 9 = mj_index d div 9" by simp
qed

lemma sdiv_nonneg: "0 \<le> k \<Longrightarrow> (k :: int) sdiv 9 = k div 9"
  by (cases "k = 0") (simp_all add: signed_divide_int_def)

text \<open>The hand has a tile of the discarded tile's suit, \<open>i\<close> away from it.\<close>

definition has_near :: "player \<Rightarrow> mj \<Rightarrow> int \<Rightarrow> bool" where
  "has_near q d i \<longleftrightarrow> (\<exists>m \<in> set (hand q). kind m = (type d, number d + i))"

lemma near_counted:
  assumes H: "hand_ok q" and d: "playable d" and r: "0 \<le> mj_index d + i" "mj_index d + i < 34"
  shows "\<exists>c. count_get (tile_counts (hand q)) (mj_index d + i) = Some c \<and>
     (1 \<le> c \<and> (mj_index d + i) div 9 = mj_index d div 9 \<longleftrightarrow> has_near q d i)"
proof -
  let ?k = "mj_index d + i"
  have c: "1 \<le> tile_counts (hand q) (nat ?k) \<longleftrightarrow> (\<exists>m \<in> set (hand q). mj_index m = ?k)"
  proof -
    have "1 \<le> tile_counts (hand q) (nat ?k) \<longleftrightarrow> filter (\<lambda>m. nat (mj_index m) = nat ?k) (hand q) \<noteq> []"
      by (cases "filter (\<lambda>m. nat (mj_index m) = nat ?k) (hand q)") (simp_all add: tile_counts_def)
    also have "\<dots> \<longleftrightarrow> (\<exists>m \<in> set (hand q). nat (mj_index m) = nat ?k)" by (simp add: filter_empty_conv)
    also have "\<dots> \<longleftrightarrow> (\<exists>m \<in> set (hand q). mj_index m = ?k)"
    proof (rule bex_cong [OF refl])
      fix m assume "m \<in> set (hand q)"
      then have "0 \<le> mj_index m" using mj_index_range hand_playable [OF H] by blast
      with r(1) show "nat (mj_index m) = nat ?k \<longleftrightarrow> mj_index m = ?k" by (metis eq_nat_nat_iff)
    qed
    finally show ?thesis .
  qed
  have "(\<exists>m \<in> set (hand q). mj_index m = ?k) \<and> ?k div 9 = mj_index d div 9 \<longleftrightarrow> has_near q d i"
    unfolding has_near_def using suit_index [OF _ d, of _ i] hand_playable [OF H] by blast
  with c r show ?thesis by (simp add: count_get_def)
qed

lemma eat_with_iff:
  assumes H: "hand_ok q" and d: "playable d" and ij: "i \<noteq> 0" "j \<noteq> 0"
  shows "eat_with (tile_counts (hand q)) (mj_index d) (mj_index d + i) (mj_index d + j) =
     Some (has_near q d i \<and> has_near q d j)"
proof -
  let ?t = "mj_index d"
  have t: "0 \<le> ?t" "?t < 34" using mj_index_range [OF d] by simp_all
  have guard: "guard_ok ?t (?t + k) \<longleftrightarrow> 0 \<le> ?t + k \<and> ?t + k < 34" if "k \<noteq> 0" for k
    using that t by (auto simp: guard_ok_def)
  have out: "\<not> has_near q d k" if "\<not> (0 \<le> ?t + k \<and> ?t + k < 34)" for k
  proof
    assume "has_near q d k"
    then obtain m where m: "m \<in> set (hand q)" "kind m = (type d, number d + k)" by (auto simp: has_near_def)
    have "playable m" using m(1) hand_playable [OF H] by blast
    then have "mj_index m = ?t + k" "0 \<le> mj_index m \<and> mj_index m < 34"
      using suit_index [OF _ d, of m k] m(2) mj_index_range by blast+
    then show False using that by simp
  qed
  have sd: "?t sdiv 9 = (?t + k) sdiv 9 \<longleftrightarrow> (?t + k) div 9 = ?t div 9" if "0 \<le> ?t + k" for k
    using that t by (auto simp: sdiv_nonneg)
  show ?thesis
  proof (cases "0 \<le> ?t + i \<and> ?t + i < 34")
    case False
    then have "\<not> guard_ok ?t (?t + i)" using guard [OF ij(1)] by simp
    then show ?thesis using out [OF False] by (simp add: eat_with_def)
  next
    case True
    then obtain c where c: "count_get (tile_counts (hand q)) (?t + i) = Some c"
      "1 \<le> c \<and> (?t + i) div 9 = ?t div 9 \<longleftrightarrow> has_near q d i" using near_counted [OF H d] by blast
    show ?thesis
    proof (cases "0 \<le> ?t + j \<and> ?t + j < 34")
      case False
      then have "\<not> guard_ok ?t (?t + j)" using guard [OF ij(2)] by simp
      then show ?thesis using True out [OF False] guard [OF ij(1)] c(1) by (simp add: eat_with_def)
    next
      case J: True
      then obtain e where e: "count_get (tile_counts (hand q)) (?t + j) = Some e"
        "1 \<le> e \<and> (?t + j) div 9 = ?t div 9 \<longleftrightarrow> has_near q d j" using near_counted [OF H d] by blast
      have "eat_with (tile_counts (hand q)) ?t (?t + i) (?t + j) =
          Some (c \<ge> 1 \<and> e \<ge> 1 \<and> ?t sdiv 9 = (?t + i) sdiv 9 \<and> ?t sdiv 9 = (?t + j) sdiv 9)"
        using True J guard [OF ij(1)] guard [OF ij(2)] c(1) e(1) by (simp add: eat_with_def)
      then show ?thesis using c(2) e(2) sd True J by auto
    qed
  qed
qed

lemma eat_possible_iff:
  assumes "hand_ok q" and "playable d"
  shows "is_eat_possible (decks q) (normal_capacity q) d =
     Some (if type d \<noteq> DAZI \<and> (has_near q d 1 \<and> has_near q d 2 \<or> has_near q d 1 \<and> has_near q d (-1) \<or>
       has_near q d (-2) \<and> has_near q d (-1)) then 1 else 0)"
  using counted(1) [OF assms] eat_with_iff [OF assms, of 1 2] eat_with_iff [OF assms, of 1 "-1"]
    eat_with_iff [OF assms, of "-2" "-1"]
  by (auto simp: is_eat_possible_def Let_def)

subsection \<open>Properties\<close>

text \<open>A form of \<open>hand_ok\<close> that computes.\<close>

lemma hand_ok_list:
  assumes "length (decks q) = 20" and "0 \<le> normal_capacity q" and "normal_capacity q \<le> 16"
    and "\<forall>m \<in> set (hand q). playable m" and "\<forall>m \<in> set (drop (nat (normal_capacity q)) (decks q)). is_null m"
    and "sorted (map deck_key (hand q))"
  shows "hand_ok q"
proof -
  let ?n = "nat (normal_capacity q)"
  have len: "length (hand q) = ?n" using assms(1-3) by (simp add: hand_def)
  have nth: "hand q ! k = decks q ! k" if "k < ?n" for k using that by (simp add: hand_def)
  have "if int k < normal_capacity q then playable (decks q ! k) else is_null (decks q ! k)" if "k < 20" for k
  proof (cases "k < ?n")
    case True
    then have "decks q ! k \<in> set (hand q)" using nth [OF True] len by (metis nth_mem)
    then show ?thesis using assms(4) True by auto
  next
    case False
    then have "drop ?n (decks q) ! (k - ?n) = decks q ! k" "k - ?n < length (drop ?n (decks q))"
      using assms(1) that by auto
    then have "decks q ! k \<in> set (drop ?n (decks q))" by (metis nth_mem)
    then show ?thesis using assms(5) False by auto
  qed
  moreover have "sorted_range deck_key 0 (normal_capacity q - 1) (decks q)"
    unfolding sorted_range_def
  proof (intro allI impI)
    fix i j assume "0 \<le> i \<and> i \<le> j \<and> j \<le> normal_capacity q - 1"
    then have ij: "nat i \<le> nat j" "nat j < ?n" "nat i < ?n" by auto
    have "map deck_key (hand q) ! nat i \<le> map deck_key (hand q) ! nat j"
      by (rule sorted_nth_mono [OF assms(6) ij(1)]) (use ij len in simp)
    then show "deck_key (decks q ! nat i) \<le> deck_key (decks q ! nat j)" using ij len nth by simp
  qed
  ultimately show ?thesis using assms(1-3) by (simp add: hand_ok_def)
qed

text \<open>
  Property C13: the discard takes exactly the chosen tile out of the hand. From a hand with a drawn
  tile behind it, for every index up to that tile, the swap, the clearing and the sort stay inside
  the array and leave the rest of the hand sorted, with nothing lost.
\<close>

theorem discard_removes_tile:
  assumes "hand_drawn q" and "0 \<le> i" and "i \<le> normal_capacity q"
  shows "\<exists>q'. remove_tile i q = Some q' \<and> hand_ok q' \<and> normal_capacity q' = normal_capacity q \<and>
     holdings q = add_mset (kind (decks q ! nat i)) (holdings q') \<and> q' = q\<lparr>decks := decks q'\<rparr>"
proof -
  obtain q' where q': "remove_tile i q = Some q'" "hand_ok q'" "q' = q\<lparr>decks := decks q'\<rparr>"
    "holdings q = add_mset (kind (decks q ! nat i)) (holdings q')" by (rule remove_tile_ok [OF assms])
  moreover have "normal_capacity q' = normal_capacity q" by (subst q'(3)) simp
  ultimately show ?thesis by blast
qed

definition tile :: "int \<Rightarrow> int \<Rightarrow> mj" where
  "tile t n = \<lparr>type = t, number = n, priority = 0\<rparr>"

definition seat :: "int \<Rightarrow> mj list \<Rightarrow> player" where
  "seat nc ts = \<lparr>player_fd = 5, flower_index = 0, door_index = 0, sea_index = 0, normal_capacity = nc,
     decks = ts @ replicate (20 - length ts) null_mj, flowers = replicate 8 null_mj,
     door = replicate 20 null_mj, sea = replicate 150 null_mj\<rparr>"

lemma seat_drawn: "hand_drawn (seat 2 [tile 1 3, tile 4 7, tile 2 5])"
proof -
  have "\<forall>k \<in> set [0..<20]. if int k \<le> 2 then playable (decks (seat 2 [tile 1 3, tile 4 7, tile 2 5]) ! k)
      else is_null (decks (seat 2 [tile 1 3, tile 4 7, tile 2 5]) ! k)" by code_simp
  moreover have "length (decks (seat 2 [tile 1 3, tile 4 7, tile 2 5])) = 20" by code_simp
  moreover have "normal_capacity (seat 2 [tile 1 3, tile 4 7, tile 2 5]) = 2" by (simp add: seat_def)
  ultimately show ?thesis unfolding hand_drawn_def by auto
qed

theorem discard_removes_tile_witness:
  "\<exists>q'. remove_tile 0 (seat 2 [tile 1 3, tile 4 7, tile 2 5]) = Some q' \<and> hand_ok q'"
  using discard_removes_tile [OF seat_drawn, of 0] by (auto simp: seat_def)

text \<open>
  Property C8: the claims are offered exactly when they can be made. For a hand in order and a
  playable tile the counting predicates stay inside their array of 34 counts; gang needs three
  tiles of the kind in the hand, pong two, and eat two tiles of the same suit that complete a run
  with it.
\<close>

theorem claims_offered:
  assumes "hand_ok q" and "playable d"
  shows "is_gang_possible (decks q) (normal_capacity q) d =
       Some (if 3 \<le> length (filter (\<lambda>m. kind m = kind d) (hand q)) then 1 else 0) \<and>
     is_pong_possible (decks q) (normal_capacity q) d =
       Some (if 2 \<le> length (filter (\<lambda>m. kind m = kind d) (hand q)) then 1 else 0) \<and>
     is_eat_possible (decks q) (normal_capacity q) d =
       Some (if type d \<noteq> DAZI \<and> (has_near q d 1 \<and> has_near q d 2 \<or> has_near q d 1 \<and> has_near q d (-1) \<or>
         has_near q d (-2) \<and> has_near q d (-1)) then 1 else 0)"
  using gang_possible_iff [OF assms] pong_possible_iff [OF assms] eat_possible_iff [OF assms] by simp

definition runs_hand :: player where
  "runs_hand = seat 6 [tile 1 3, tile 1 4, tile 3 9, tile 4 2, tile 4 2, tile 4 2]"

lemma runs_hand_ok: "hand_ok runs_hand"
proof (rule hand_ok_list)
  show "\<forall>m \<in> set (hand runs_hand). playable m" by code_simp
  show "\<forall>m \<in> set (drop (nat (normal_capacity runs_hand)) (decks runs_hand)). is_null m" by code_simp
  show "sorted (map deck_key (hand runs_hand))" by code_simp
qed (simp_all add: runs_hand_def seat_def)

theorem claims_offered_witness:
  "is_gang_possible (decks runs_hand) (normal_capacity runs_hand) (tile 4 2) = Some 1 \<and>
   is_eat_possible (decks runs_hand) (normal_capacity runs_hand) (tile 1 5) = Some 1"
proof -
  have p: "playable (tile 4 2)" "playable (tile 1 5)" by (simp_all add: playable_def tile_def)
  have "3 \<le> length (filter (\<lambda>m. kind m = kind (tile 4 2)) (hand runs_hand))" by code_simp
  moreover have "has_near runs_hand (tile 1 5) (-1)" "has_near runs_hand (tile 1 5) (-2)"
    unfolding has_near_def by code_simp+
  moreover have "type (tile 1 5) \<noteq> DAZI" by (simp add: tile_def)
  ultimately show ?thesis
    using claims_offered [OF runs_hand_ok p(1)] claims_offered [OF runs_hand_ok p(2)] by simp
qed

text \<open>
  Property C9: a gang that is offered can be made. The discarded tile and the three that match go
  to the door, the gap in the hand is closed, the hand is sorted and three tiles shorter, and the
  player holds exactly one tile more.
\<close>

theorem gang_moves_meld:
  assumes "shape q" and "hand_ok q" and "playable d" and "door_index q \<le> 16"
    and "is_gang_possible (decks q) (normal_capacity q) d = Some 1"
  shows "\<exists>q'. gang_tiles d q = Some q' \<and> shape q' \<and> hand_ok q' \<and> normal_capacity q' = normal_capacity q - 3 \<and>
     door_index q' = door_index q + 4 \<and> holdings q' = add_mset (kind d) (holdings q)"
  using assms gang_possible_iff [OF assms(2,3)] by (intro gang_tiles_ok) (auto split: if_splits)

lemma runs_hand_shape: "shape runs_hand" "door_index runs_hand = 0" "normal_capacity runs_hand = 6"
  by (simp_all add: runs_hand_def seat_def shape_def)

theorem gang_moves_meld_witness:
  "\<exists>q'. gang_tiles (tile 4 2) runs_hand = Some q' \<and> normal_capacity q' = 3 \<and> hand_ok q'"
proof -
  have "is_gang_possible (decks runs_hand) (normal_capacity runs_hand) (tile 4 2) = Some 1" by code_simp
  from gang_moves_meld [OF runs_hand_shape(1) runs_hand_ok _ _ this] runs_hand_shape
  show ?thesis by (auto simp: playable_def tile_def)
qed

text \<open>
  Property C10: a pong that is offered can be made. The discarded tile and two that match go to the
  door; what stays is a hand three shorter with one tile more to discard.
\<close>

theorem pong_moves_meld:
  assumes "shape q" and "hand_ok q" and "playable d" and "door_index q \<le> 17" and "3 \<le> normal_capacity q"
    and "is_pong_possible (decks q) (normal_capacity q) d = Some 1"
  shows "\<exists>q'. pong_tiles d q = Some q' \<and> shape q' \<and> hand_drawn q' \<and> normal_capacity q' = normal_capacity q - 3 \<and>
     door_index q' = door_index q + 3 \<and> holdings q' = add_mset (kind d) (holdings q)"
  using assms pong_possible_iff [OF assms(2,3)] by (intro pong_tiles_ok) (auto split: if_splits)

theorem pong_moves_meld_witness:
  "\<exists>q'. pong_tiles (tile 4 2) runs_hand = Some q' \<and> normal_capacity q' = 3 \<and> hand_drawn q'"
proof -
  have "is_pong_possible (decks runs_hand) (normal_capacity runs_hand) (tile 4 2) = Some 1" by code_simp
  from pong_moves_meld [OF runs_hand_shape(1) runs_hand_ok _ _ _ this] runs_hand_shape
  show ?thesis by (auto simp: playable_def tile_def)
qed

text \<open>
  Property C11: an eat with two tiles that fit can be made, whatever indices the client sent, when
  the second index is not the last of the hand or the first is the one before it. The run goes to
  the door and the hand, three shorter, has one tile more to discard.
\<close>

theorem eat_moves_meld:
  assumes "shape q" and "hand_ok q" and "playable d" and "door_index q \<le> 17" and "3 \<le> normal_capacity q"
    and "eat_temp (decks q) e1 e2 d = Some t" and "eatable t"
    and "e2 \<noteq> normal_capacity q - 1 \<or> e1 = normal_capacity q - 2"
  shows "\<exists>q1 q'. eat_tiles e1 e2 t q = Some q1 \<and> leave_three q1 = Some q' \<and> hand_drawn q' \<and>
     normal_capacity q' = normal_capacity q - 3 \<and> door_index q' = door_index q + 3 \<and>
     holdings q' = add_mset (kind d) (holdings q)"
  by (rule eat_ok) (use assms in auto)

lemma runs_hand_eat:
  "eat_temp (decks runs_hand) 0 1 (tile 1 5) = Some [tile 1 3, tile 1 4, tile 1 5]"
  "eatable [tile 1 3, tile 1 4, tile 1 5]" "playable (tile 1 5)"
  by (code_simp, simp_all add: eatable_def tile_def playable_def)

theorem eat_moves_meld_witness:
  "\<exists>q1 q'. eat_tiles 0 1 [tile 1 3, tile 1 4, tile 1 5] runs_hand = Some q1 \<and> leave_three q1 = Some q' \<and> hand_drawn q'"
  using eat_moves_meld [OF runs_hand_shape(1) runs_hand_ok runs_hand_eat(3) _ _ runs_hand_eat(1,2)] runs_hand_shape
  by auto

text \<open>
  Property C12: in the remaining case the eat loses a tile. When the second index is the last of the
  hand and the first is not the one before it, an empty place stays inside the shortened hand and
  the tile before the last ends behind it, where no later step looks for it.
\<close>

theorem eat_loses_tile:
  assumes "shape q" and "hand_ok q" and "playable d" and "door_index q \<le> 17" and "3 \<le> normal_capacity q"
    and "eat_temp (decks q) e1 e2 d = Some t" and "eatable t"
    and "e2 = normal_capacity q - 1" and "e1 \<noteq> normal_capacity q - 2"
  shows "\<exists>q1. eat_tiles e1 e2 t q = Some q1 \<and> is_null (decks q1 ! nat e1) \<and> e1 \<le> normal_capacity q1 - 3 \<and>
     decks q1 ! nat (normal_capacity q1 - 1) = decks q ! nat (normal_capacity q - 2)"
  by (rule eat_loses) (use assms in auto)

definition late_run :: player where
  "late_run = seat 4 [tile 3 3, tile 3 4, tile 3 4, tile 3 5]"

theorem eat_loses_tile_witness:
  "\<exists>q1. eat_tiles 1 3 [tile 3 4, tile 3 5, tile 3 6] late_run = Some q1 \<and> is_null (decks q1 ! 1) \<and>
     decks q1 ! 3 = tile 3 4"
proof -
  have H: "hand_ok late_run"
  proof (rule hand_ok_list)
    show "\<forall>m \<in> set (hand late_run). playable m" by code_simp
    show "\<forall>m \<in> set (drop (nat (normal_capacity late_run)) (decks late_run)). is_null m" by code_simp
    show "sorted (map deck_key (hand late_run))" by code_simp
  qed (simp_all add: late_run_def seat_def)
  have t: "eat_temp (decks late_run) 1 3 (tile 3 6) = Some [tile 3 4, tile 3 5, tile 3 6]" by code_simp
  have S: "shape late_run" "door_index late_run = 0" "normal_capacity late_run = 4"
    "decks late_run ! 2 = tile 3 4"
    by (simp_all add: late_run_def seat_def shape_def)
  have e: "eatable [tile 3 4, tile 3 5, tile 3 6]" "playable (tile 3 6)"
    by (simp_all add: eatable_def tile_def playable_def)
  have "\<exists>q1. eat_tiles 1 3 [tile 3 4, tile 3 5, tile 3 6] late_run = Some q1 \<and> is_null (decks q1 ! nat 1) \<and>
      1 \<le> normal_capacity q1 - 3 \<and>
      decks q1 ! nat (normal_capacity q1 - 1) = decks late_run ! nat (normal_capacity late_run - 2)"
    by (rule eat_loses_tile [OF S(1) H e(2) _ _ t e(1)]) (simp_all add: S(2,3))
  then obtain q1 where q1: "eat_tiles 1 3 [tile 3 4, tile 3 5, tile 3 6] late_run = Some q1"
    "is_null (decks q1 ! 1)" "decks q1 ! nat (normal_capacity q1 - 1) = tile 3 4"
    using S(3,4) by auto
  have "normal_capacity q1 = 4" using same_capacityD [OF eat_tiles_capacity q1(1)] S(3) by simp
  then have "decks q1 ! 3 = tile 3 4" using q1(3) by simp
  with q1(1,2) show ?thesis by blast
qed

end
