(* ===== verification/Answers.thy ===== *)
theory Answers
  imports Deal
begin

text \<open>
  Liveness of the deal: when every player acknowledges every message, it returns. What a player
  still sends is a number of acknowledgements, each the result of one \<open>read\<close>, and the shared
  buffer is empty between two messages.
\<close>

definition acks :: "(int \<Rightarrow> nat) \<Rightarrow> server \<Rightarrow> bool" where
  "acks f s \<longleftrightarrow> read_cnt s \<le> 0 \<and> inj_on (\<lambda>p. player_fd (players s p)) {0..3} \<and>
     (\<forall>p \<in> {0..3}. \<exists>es. net s (player_fd (players s p)) = replicate (f p) (Bytes ack_line) @ es)"

lemma acksD:
  assumes "acks f s"
  shows "read_cnt s \<le> 0" "inj_on (\<lambda>p. player_fd (players s p)) {0..3}"
    and "p \<in> {0..3} \<Longrightarrow> \<exists>es. net s (player_fd (players s p)) = replicate (f p) (Bytes ack_line) @ es"
  using assms unfolding acks_def by blast+

lemma acks_mono:
  assumes "acks f s" and "\<And>p. p \<in> {0..3} \<Longrightarrow> g p \<le> f p"
  shows "acks g s"
proof -
  have "\<exists>es. net s (player_fd (players s p)) = replicate (g p) (Bytes ack_line) @ es" if "p \<in> {0..3}" for p
  proof -
    from acksD(3) [OF assms(1) that] obtain es
      where "net s (player_fd (players s p)) = replicate (f p) (Bytes ack_line) @ es" ..
    moreover have "f p = g p + (f p - g p)" using assms(2) [OF that] by simp
    ultimately show ?thesis by (metis append.assoc replicate_add)
  qed
  then show ?thesis using assms(1) by (simp add: acks_def)
qed

lemma tell_acks:
  assumes p: "p \<in> {0..3}"
  shows "triple (\<lambda>s. dealt s \<and> acks (f(p := Suc k)) s) (tell p msg) (\<lambda>_ s. dealt s \<and> acks (f(p := k)) s) (\<lambda>_ _. False)"
proof -
  have run: "\<exists>t. tell p msg s = (Inr 0, t) \<and> dealt t \<and> acks (f(p := k)) t"
    if D: "dealt s" and A: "acks (f(p := Suc k)) s" for s
  proof -
    let ?fd = "player_fd (players s p)"
    from acksD(1) [OF A] acksD(3) [OF A p] obtain es
      where es: "read_cnt s \<le> 0" "net s ?fd = Bytes ack_line # replicate k (Bytes ack_line) @ es" by auto
    from send_chunk [OF es, of msg] obtain t where t: "write_message_wait_ack ?fd msg s = (Inr 0, t)"
      "net t = (net s)(?fd := replicate k (Bytes ack_line) @ es)" "read_cnt t = 0" by blast
    have like: "io.more t = io.more s" by (rule server_chan.send_more [OF t(1)])
    note same = same_game [OF like]
    have "acks (f(p := k)) t" unfolding acks_def
    proof (intro conjI ballI)
      show "inj_on (\<lambda>p. player_fd (players t p)) {0..3}" using A same by (simp add: acks_def)
      fix r :: int assume r: "r \<in> {0..3}"
      show "\<exists>es. net t (player_fd (players t r)) = replicate ((f(p := k)) r) (Bytes ack_line) @ es"
      proof (cases "r = p")
        case True
        then show ?thesis using t(2) same by simp
      next
        case False
        then have "player_fd (players s r) \<noteq> ?fd" using A r p by (auto simp: acks_def inj_on_def)
        moreover obtain es' where "net s (player_fd (players s r)) = replicate (f r) (Bytes ack_line) @ es'"
          using acksD(3) [OF A r] False by auto
        ultimately show ?thesis using t(2) same False by simp
      qed
    qed (use t(3) in simp)
    then show ?thesis using t(1) dealt_world [OF like D] by (simp add: tell_def player_of_def)
  qed
  show ?thesis by (rule tripleI) (use run in fastforce)+
qed

text \<open>What does not read and leaves the descriptors alone leaves the acknowledgements.\<close>

named_theorems quiet "programs that leave the acknowledgements to come"

lemma acks_take [quiet]: "keeps (acks f) take_tile"
  by (rule keepsI) (auto simp: take_tile_run acks_def split: option.splits)

lemma acks_update:
  assumes "\<And>q q'. g q = Some q' \<Longrightarrow> player_fd q' = player_fd q"
  shows "keeps (acks f) (update_player p g)"
proof (rule keeps_update_player)
  fix s q assume A: "acks f s" and q: "g (players s p) = Some q"
  have "player_fd (((players s)(p := q)) r) = player_fd (players s r)" for r using assms [OF q] by simp
  then show "acks f (s\<lparr>players := (players s)(p := q)\<rparr>)" using A by (simp add: acks_def)
qed

lemma acks_updates [quiet]:
  "keeps (acks f) (update_player p (put_deck i m))" "keeps (acks f) (update_player p (push_flower m))"
  "keeps (acks f) (update_player p (sort_deck lo hi))"
  by (rule acks_update, auto simp: put_deck_def push_flower_def sort_deck_def bind_eq_Some_conv)+

lemma acks_player_of [quiet]: "keeps (acks f) (player_of p)"
  by (rule keeps_player_of)

lemma acks_deal_tiles: "keeps (acks f) (deal_tiles p0)"
  unfolding deal_tiles_def by (intro keeps_intros quiet)

lemma acks_has_flower: "keeps (acks f) (has_flower p)"
  unfolding has_flower_def by (intro keeps_intros quiet)

lemma acks_regrab: "keeps (acks f) (regrab fuel p0 z add)"
proof (induction fuel arbitrary: z add)
  case 0
  then show ?case by (simp add: triple_def)
next
  case (Suc fuel)
  have eq: "regrab (Suc fuel) p0 z add = (if z < 4 then bindp (has_flower ((p0 + add) mod 4)) (\<lambda>c.
      if c > 0 then regrab fuel p0 0 (add + 1) else regrab fuel p0 (z + 1) (add + 1)) else ret ())"
    by (rule ext) simp
  show ?case unfolding eq by (intro keeps_intros acks_has_flower Suc.IH)
qed

lemma acks_shuffle: "keeps (acks f) shuffle"
proof (rule keepsI)
  fix s r t assume A: "acks f s" and "shuffle s = (r, t)"
  with shuffle_correct [of s] obtain w k where "t = s\<lparr>shuffled_mjs := w, rand_pos := k\<rparr>" by auto
  then show "acks f t" using A by (simp add: acks_def)
qed

lemma acks_game_init: "keeps (acks f) game_init"
proof (rule keepsI)
  fix s r t assume A: "acks f s" and run: "game_init s = (r, t)"
  have "player_fd (players t p) = player_fd (players s p)" "net t = net s" "read_cnt t = read_cnt s" for p
    using run by (auto simp: game_init_run player_gameinfo_init_def)
  then show "acks f t" using A by (simp add: acks_def)
qed

subsection \<open>The sends\<close>

text \<open>A part of the hand or the pile is read inside its array and sent.\<close>

lemma send_one:
  assumes p: "p \<in> {0..3}" and room: "\<And>q. shape q \<Longrightarrow> i < int (length (sel q))" and i: "0 \<le> i"
  shows "triple (\<lambda>s. dealt s \<and> acks (f(p := Suc k)) s)
     (bindp (player_of p) (\<lambda>q. bindp (liftp (at (sel q) i)) (\<lambda>m. thenp (tell p (line m)) (ret ()))))
     (\<lambda>_ s. dealt s \<and> acks (f(p := k)) s) (\<lambda>_ _. False)"
proof (rule triple_bind_player, rule triple_bind_lift)
  fix q :: player and m
  show "triple (\<lambda>s. (dealt s \<and> acks (f(p := Suc k)) s) \<and> players s p = q) (thenp (tell p (line m)) (ret ()))
     (\<lambda>_ s. dealt s \<and> acks (f(p := k)) s) (\<lambda>_ _. False)"
    by (rule triple_thenp [OF triple_pre [OF tell_acks [OF p]]]) (auto intro: triple_ret)
next
  fix q :: player assume "at (sel q) i = None"
  then have "\<not> ((dealt s \<and> acks (f(p := Suc k)) s) \<and> players s p = q)" for s
    using room [of q] i p by (auto simp: dealt_def)
  then show "triple (\<lambda>s. (dealt s \<and> acks (f(p := Suc k)) s) \<and> players s p = q) (failp Undefined)
     (\<lambda>_ s. dealt s \<and> acks (f(p := k)) s) (\<lambda>_ _. False)"
    by (rule triple_vacuous)
qed

lemma send_many:
  assumes p: "p \<in> {0..3}" and room: "\<And>q i. shape q \<Longrightarrow> i < b \<Longrightarrow> i < int (length (sel q))" and b: "0 \<le> b"
  shows "triple (\<lambda>s. dealt s \<and> acks (f(p := nat b + k)) s)
     (forp [0..b - 1] (\<lambda>i. bindp (player_of p) (\<lambda>q. bindp (liftp (at (sel q) i)) (\<lambda>m.
        thenp (tell p (line m)) (ret ()))))) (\<lambda>_ s. dealt s \<and> acks (f(p := k)) s) (\<lambda>_ _. False)"
proof -
  have "triple ((\<lambda>i s. dealt s \<and> acks (f(p := nat (b - i) + k)) s) 0)
     (forp [0..b - 1] (\<lambda>i. bindp (player_of p) (\<lambda>q. bindp (liftp (at (sel q) i)) (\<lambda>m.
        thenp (tell p (line m)) (ret ())))))
     (\<lambda>_. (\<lambda>i s. dealt s \<and> acks (f(p := nat (b - i) + k)) s) b) (\<lambda>_ _. False)"
  proof (rule triple_forp_upto [where J = "\<lambda>i s. dealt s \<and> acks (f(p := nat (b - i) + k)) s"])
    fix i :: int assume i: "0 \<le> i" "i < b"
    then have "nat (b - i) + k = Suc (nat (b - (i + 1)) + k)" by simp
    then show "triple (\<lambda>s. dealt s \<and> acks (f(p := nat (b - i) + k)) s)
       (bindp (player_of p) (\<lambda>q. bindp (liftp (at (sel q) i)) (\<lambda>m. thenp (tell p (line m)) (ret ()))))
       (\<lambda>_ s. dealt s \<and> acks (f(p := nat (b - (i + 1)) + k)) s) (\<lambda>_ _. False)"
      using send_one [OF p room [OF _ i(2)] i(1)] by simp
  qed (rule b)
  then show ?thesis by simp
qed

lemma transfer_acks:
  assumes p: "p \<in> {0..3}"
  shows "triple (\<lambda>s. dealt s \<and> acks (f(p := 25)) s) (transfer p) (\<lambda>_ s. dealt s \<and> acks (f(p := 0)) s) (\<lambda>_ _. False)"
proof -
  have hand: "triple (\<lambda>s. dealt s \<and> acks (f(p := 25)) s) (forp [0..15] (\<lambda>j. bindp (player_of p) (\<lambda>q.
      bindp (liftp (at (decks q) j)) (\<lambda>m.
      thenp (tell p (show_int (type m) @ '' '' @ show_int (number m) @ ''\<newline>'')) (ret ())))))
      (\<lambda>_ s. dealt s \<and> acks (f(p := 9)) s) (\<lambda>_ _. False)"
    using send_many [OF p, of 16 decks f 9] by (simp add: shape_def)
  have last: "triple (\<lambda>s. dealt s \<and> acks (f(p := 1)) s) (tell p ''transfer complete\<newline>'')
      (\<lambda>_ s. dealt s \<and> acks (f(p := 0)) s) (\<lambda>_ _. False)"
    using tell_acks [OF p, of f 0] by simp
  have piles: "triple (\<lambda>s. dealt s \<and> acks (f(p := 9)) s) (bindp (player_of p) (\<lambda>q.
      thenp (forp [0..flower_index q - 1] (\<lambda>j. bindp (player_of p) (\<lambda>q. bindp (liftp (at (flowers q) j)) (\<lambda>m.
      thenp (tell p (show_int (number m) @ ''\<newline>'')) (ret ()))))) (tell p ''transfer complete\<newline>'')))
      (\<lambda>_ s. dealt s \<and> acks (f(p := 0)) s) (\<lambda>_ _. False)"
  proof (rule triple_bind_player)
    fix q :: player
    let ?body = "thenp (forp [0..flower_index q - 1] (\<lambda>j. bindp (player_of p) (\<lambda>q.
      bindp (liftp (at (flowers q) j)) (\<lambda>m.
      thenp (tell p (show_int (number m) @ ''\<newline>'')) (ret ()))))) (tell p ''transfer complete\<newline>'')"
    show "triple (\<lambda>s. (dealt s \<and> acks (f(p := 9)) s) \<and> players s p = q) ?body
      (\<lambda>_ s. dealt s \<and> acks (f(p := 0)) s) (\<lambda>_ _. False)"
    proof (cases "0 \<le> flower_index q \<and> flower_index q \<le> 8")
      case True
      then have b: "i < int (length (flowers q'))" if "shape q'" "i < flower_index q" for i and q' :: player
        using that by (simp add: shape_def)
      have less: "acks (f(p := nat (flower_index q) + 1)) s" if "acks (f(p := 9)) s" for s
        by (rule acks_mono [OF that]) (use True in auto)
      show ?thesis
        by (rule triple_thenp [OF triple_pre [OF send_many [OF p b, where f = f and k = 1]] last]) (use True less in auto)
    next
      case False
      then have "\<not> ((dealt s \<and> acks (f(p := 9)) s) \<and> players s p = q)" for s
        using p by (auto simp: dealt_def shape_def)
      then show ?thesis by (rule triple_vacuous)
    qed
  qed
  show ?thesis unfolding transfer_def by (rule triple_thenp [OF hand piles])
qed

text \<open>With 25 acknowledgements from every player all four transfers return.\<close>

lemma transfers_acks:
  "triple (\<lambda>s. dealt s \<and> acks (\<lambda>_. 25) s) (forp [0..3] (\<lambda>i. thenp (transfer i) (ret ())))
     (\<lambda>_ s. dealt s) (\<lambda>_ _. False)"
proof -
  let ?J = "\<lambda>i s. dealt s \<and> acks (\<lambda>p. if i \<le> p then 25 else 0) s"
  have "triple (?J 0) (forp [0..4 - 1] (\<lambda>i. thenp (transfer i) (ret ()))) (\<lambda>_. ?J 4) (\<lambda>_ _. False)"
  proof (rule triple_forp_upto [where J = ?J])
    fix i :: int assume i: "0 \<le> i" "i < 4"
    have p: "i \<in> {0..3}" using i by simp
    let ?f = "\<lambda>p. if i \<le> p then 25 else 0 :: nat"
    have f: "?f(i := 25) = ?f" "?f(i := 0) = (\<lambda>p. if i + 1 \<le> p then 25 else 0)" by auto
    have "triple (?J i) (transfer i) (\<lambda>_. ?J (i + 1)) (\<lambda>_ _. False)"
      using transfer_acks [OF p, of ?f] unfolding f .
    then show "triple (?J i) (thenp (transfer i) (ret ())) (\<lambda>_. ?J (i + 1)) (\<lambda>_ _. False)"
      by (rule triple_thenp) (auto intro: triple_ret)
  qed simp
  then have "triple (?J 0) (forp [0..3] (\<lambda>i. thenp (transfer i) (ret ()))) (\<lambda>_. ?J 4) (\<lambda>_ _. False)" by simp
  then show ?thesis by (rule triple_conseq) (auto elim: acks_mono)
qed

lemma deal_acks:
  assumes "p0 \<in> {0..3}"
  shows "triple (\<lambda>s. ready s \<and> acks (\<lambda>_. 25) s) (shuffle_n_deal p0) (\<lambda>v s. v = 0 \<and> dealt s) (\<lambda>_ _. False)"
proof -
  let ?A = "acks (\<lambda>_. 25)"
  have with_acks: "triple (\<lambda>s. P s \<and> ?A s) m (\<lambda>_ s. Q s \<and> ?A s) (\<lambda>_ _. False)"
    if "triple P m (\<lambda>_. Q) (\<lambda>_ _. False)" "keeps ?A m" for P m Q
    using triple_conj [OF that] by simp
  have shuffles: "triple ready shuffle (\<lambda>_. dealt_to p0 0) (\<lambda>_ _. False)"
    using triple_conj [OF shuffle_dealt [of p0] shuffle_returns [of ready]] by simp
  have rest: "triple (\<lambda>s. dealt s \<and> ?A s) (thenp (forp [0..3] (\<lambda>i. thenp (transfer i) (ret ()))) (ret 0))
      (\<lambda>v s. v = 0 \<and> dealt s) (\<lambda>_ _. False)"
    by (rule triple_thenp [OF transfers_acks]) (auto intro: triple_ret)
  have deals: "triple (\<lambda>s. dealt_to p0 0 s \<and> ?A s) (deal p0) (\<lambda>v s. v = 0 \<and> dealt s) (\<lambda>_ _. False)"
    unfolding deal_def
    by (intro triple_thenp [OF with_acks [OF deal_tiles_dealing [OF assms] acks_deal_tiles]]
        triple_thenp [OF with_acks [OF regrab_sorting acks_regrab]]
        triple_thenp [OF with_acks [OF sorts_dealt keeps_forp [OF acks_updates(3)]]] rest)
  have deal0: "triple (\<lambda>s. dealt_to p0 0 s \<and> ?A s) (thenp (deal p0) (ret 0)) (\<lambda>v s. v = 0 \<and> dealt s) (\<lambda>_ _. False)"
    by (rule triple_thenp [OF triple_post [OF deals, where Q = "\<lambda>_. dealt"]]) (auto intro: triple_ret)
  show ?thesis
    unfolding shuffle_n_deal_def by (rule triple_thenp [OF with_acks [OF shuffles acks_shuffle] deal0])
qed

lemma game_init_returns:
  obtains u where "game_init s = (Inr 0, u)" and "ready u" and "acks f s \<Longrightarrow> acks f u"
proof -
  obtain u where u: "game_init s = (Inr 0, u)" using game_init_run by blast
  then show thesis using that game_init_ready [OF u] keepsD [OF acks_game_init _ u] by blast
qed

lemma round_runs:
  assumes "p0 \<in> {0..3}" and "acks (\<lambda>_. 25) s"
  shows "\<exists>t. thenp game_init (shuffle_n_deal p0) s = (Inr 0, t) \<and> dealt t"
proof -
  obtain u where u: "game_init s = (Inr 0, u)" "ready u" "acks (\<lambda>_. 25) u"
    using game_init_returns [of s "\<lambda>_. 25"] assms(2) by blast
  with triple_returns [OF deal_acks [OF assms(1)], of u] show ?thesis by auto
qed

subsection \<open>Properties\<close>

text \<open>
  Property C1: a new round is dealt right. From every state, and whatever the clients answer,
  \<open>game_init\<close> and \<open>shuffle_n_deal\<close> return or end in \<open>exit(1)\<close>: no array is left and the
  replacement of flowers ends. When they return, the wall holds each of the 34 kinds four times and the eight
  flowers, no tile is lost or doubled between the wall and the players, every hand is sixteen
  sorted tiles that are no flowers, and the tiles taken are those in the hands and the flower piles.
\<close>

theorem round_dealt:
  assumes "p0 \<in> {0..3}"
  shows "triple (\<lambda>_. True) (thenp game_init (shuffle_n_deal p0))
     (\<lambda>v s. v = 0 \<and> kinds (shuffled_mjs s) = mset all_kinds \<and> table s = mset all_kinds \<and>
        take_index s = 64 + flowers_out s \<and> flowers_out s \<le> 8 \<and>
        (\<forall>p \<in> {0..3}. normal_capacity (players s p) = 16 \<and> hand_ok (players s p) \<and>
           (\<forall>m \<in> set (take (nat (flower_index (players s p))) (flowers (players s p))). type m = FLOWER)))
     (\<lambda>e _. e = Exited 1)"
proof (rule triple_post)
  have "triple (\<lambda>_. True) game_init (\<lambda>_. ready) (\<lambda>e _. e = Exited 1)"
  proof (rule tripleI)
    show "ready t" if "game_init s = (Inr a, t)" for s a t using game_init_ready [OF that] by simp
    show "e = Exited 1" if "game_init s = (Inl e, t)" for s e t using that by (simp add: game_init_run)
  qed
  then show "triple (\<lambda>_. True) (thenp game_init (shuffle_n_deal p0)) (\<lambda>v s. v = 0 \<and> dealt s) (\<lambda>e _. e = Exited 1)"
    by (rule triple_thenp [OF _ shuffle_n_deal_dealt [OF assms]])
qed (auto simp: dealt_def full_def full_wall_def)

text \<open>
  Property C28: the deal is live. If each player sends 25 acknowledgements, one per \<open>read\<close>, the
  descriptors are distinct and nothing is left in the buffer of \<open>readline\<close>, then the deal returns and the
  four hands are dealt.
\<close>

theorem round_returns:
  assumes "p0 \<in> {0..3}" and "read_cnt s \<le> 0" and "inj_on (\<lambda>p. player_fd (players s p)) {0..3}"
    and "\<forall>p \<in> {0..3}. net s (player_fd (players s p)) = replicate 25 (Bytes ack_line)"
  shows "\<exists>t. thenp game_init (shuffle_n_deal p0) s = (Inr 0, t) \<and> (\<forall>p \<in> {0..3}. hand_ok (players t p))"
proof -
  have "acks (\<lambda>_. 25) s" using assms(2-4) by (simp add: acks_def)
  from round_runs [OF assms(1) this] show ?thesis by (auto simp: dealt_def)
qed

definition first_round :: server where
  "first_round = \<lparr>net = (\<lambda>_. replicate 25 (Bytes ack_line)), read_cnt = 0, read_ptr = [], sent = [], console = [],
     recvline = [], players = (\<lambda>p. \<lparr>player_fd = p + 5, flower_index = 0, door_index = 0, sea_index = 0,
       normal_capacity = 16, decks = [], flowers = [], door = [], sea = []\<rparr>),
     shuffled_mjs = [], discarded_mj = null_mj, take_index = 0, winner = -1, rand_seq = int,
     rand_pos = 0, rset = {}, selects = []\<rparr>"

theorem round_returns_witness:
  "\<exists>t. thenp game_init (shuffle_n_deal 2) first_round = (Inr 0, t) \<and> (\<forall>p \<in> {0..3}. hand_ok (players t p))"
  by (rule round_returns) (simp_all add: first_round_def inj_on_def)

theorem round_dealt_witness:
  "\<exists>t. thenp game_init (shuffle_n_deal 1) first_round = (Inr 0, t) \<and> table t = mset all_kinds"
proof -
  have "acks (\<lambda>_. 25) first_round" by (simp add: acks_def first_round_def inj_on_def)
  then obtain t where run: "thenp game_init (shuffle_n_deal 1) first_round = (Inr 0, t)"
    using round_runs [of 1] by auto
  have "table t = mset all_kinds"
    using triple_Inr [OF round_dealt [of 1] TrueI run] by simp
  with run show ?thesis by blast
qed

end
