(* ===== verification/ClientState.thy ===== *)
theory ClientState
  imports Messages Display ServerState
begin

text \<open>
  The client's state and what its handlers share: its own tiles in the same record as the
  server's players (the globals \<open>decks\<close>, \<open>flowers\<close>, \<open>door\<close>, \<open>sea\<close> and their indices, with the
  socket as \<open>player_fd\<close>), the copies of the sort and the comparison, the two ways it reads the
  terminal (\<open>readline\<close> on descriptor 0, which shares the static buffer with the socket, and
  the stdio calls, which have a buffer of their own), and the question loop.
\<close>

record client = io +
  me :: player
  board :: mj
  message :: string
  id_num :: int
  client_rset :: "int set"
  client_selects :: "int list list"
  stdin_buf :: string
  closed_fds :: "int list"
  server_addr :: "nat list"

subsection \<open>The client's copies\<close>

definition client_swap :: "mj list \<Rightarrow> int \<Rightarrow> int \<Rightarrow> mj list option" where
  "client_swap xs i j = do {
     a \<leftarrow> at xs i;
     b \<leftarrow> at xs j;
     ys \<leftarrow> set_at xs i b;
     set_at ys j a
   }"

definition client_decks_quick_sort :: "mj list \<Rightarrow> int \<Rightarrow> int \<Rightarrow> mj list option" where
  "client_decks_quick_sort = quick_sort (\<lambda>m. type m * 10 + number m)"

definition client_mj_compare :: "mj \<Rightarrow> mj \<Rightarrow> int" where
  "client_mj_compare a b =
     (if type a = type b \<and> number a = number b then 0
      else if type a > type b \<or> (type a = type b \<and> number a > number b) then -1
      else 1)"

lemma client_copies [simp]:
  "client_swap = swap_at" "client_decks_quick_sort = decks_quick_sort"
  "client_mj_compare = mj_compare"
proof -
  have key: "deck_key = (\<lambda>m. type m * 10 + number m)" by (rule ext) (simp add: deck_key_def)
  show "client_decks_quick_sort = decks_quick_sort"
    unfolding client_decks_quick_sort_def decks_quick_sort_def key ..
  show "client_swap = swap_at" "client_mj_compare = mj_compare"
    by (intro ext; simp add: client_swap_def swap_at_def client_mj_compare_def mj_compare_def)+
qed

subsection \<open>Access to the state\<close>

definition my :: "(client, player) prog" where
  "my = getp me"

definition update_me :: "(player \<Rightarrow> player option) \<Rightarrow> (client, unit) prog" where
  "update_me f = bindp my (\<lambda>q. bindp (liftp (f q)) (\<lambda>q'. modp (\<lambda>s. s\<lparr>me := q'\<rparr>)))"

definition say :: "string \<Rightarrow> (client, int) prog" where
  "say msg = bindp my (\<lambda>q. client_write_message_wait_ack (player_fd q) msg)"

definition listen_server :: "(client, int) prog" where
  "listen_server = bindp my (\<lambda>q. client_read_and_ack (player_fd q))"

definition recv_is :: "string \<Rightarrow> nat \<Rightarrow> (client, bool) prog" where
  "recv_is l n = getp (\<lambda>s. strncmp_eq (recvline s) l n)"

definition clear_board :: "(client, unit) prog" where
  "clear_board = modp (\<lambda>s. s\<lparr>board := clear_mj (board s)\<rparr>)"

definition show_hand :: "bool \<Rightarrow> bool \<Rightarrow> (client, unit) prog" where
  "show_hand separate show_index =
     bindp (getp (\<lambda>s. s)) (\<lambda>s.
     bindp (liftp (client_print_deck (message s) (decks (me s)) (door (me s)) (board s) separate show_index)) printf)"

text \<open>The end after Ctrl-D: \<open>close(fd); exit(n)\<close>.\<close>

definition leave :: "string \<Rightarrow> int \<Rightarrow> (client, 'a) prog" where
  "leave msg n =
     thenp (printf msg) (
     bindp my (\<lambda>q.
     thenp (modp (\<lambda>s. s\<lparr>closed_fds := closed_fds s @ [player_fd q]\<rparr>)) (
     failp (Exited n))))"

definition pressed_ctrl_d :: "(client, 'a) prog" where
  "pressed_ctrl_d = leave ''YOU HAVE PRESSED Ctrl-D. Exiting...\<newline>'' 1"

text \<open>\<open>readline(STDIN_FILENO, answer, n)\<close> into a local buffer.\<close>

definition readline_stdin :: "nat \<Rightarrow> (client, int \<times> string) prog" where
  "readline_stdin n s = (case readline 0 n s of (r, t) \<Rightarrow> (Inr r, t))"

subsection \<open>The question loop\<close>

text \<open>
  Print the question and read an answer until it is yes (\<open>Y\<close> or an empty line) or no. A failed
  \<open>read\<close> returns a negative number, which the code takes for an answer: what is compared then
  is the buffer, which is only defined (\<open>zeroed\<close>) when it was initialised or used before.
\<close>

fun question_loop :: "nat \<Rightarrow> bool \<Rightarrow> string \<Rightarrow> (client, bool) prog" where
  "question_loop 0 zeroed prompt s = failp Diverges s"
| "question_loop (Suc fuel) zeroed prompt s =
     thenp (printf prompt) (
     bindp (readline_stdin 64) (\<lambda>(n, answer).
       if n = 0 then pressed_ctrl_d
       else if n < 0 \<and> \<not> zeroed then failp Undefined
       else if strncmp_eq answer ''Y\<newline>'' 2 \<or> strncmp_eq answer ''\<newline>'' 1 then ret True
       else if strncmp_eq answer ''n\<newline>'' 2 then ret False
       else question_loop fuel True prompt)) s"

definition question :: "bool \<Rightarrow> string \<Rightarrow> (client, bool) prog" where
  "question zeroed prompt = bindp (getp (unread 0)) (\<lambda>k. question_loop (Suc k) zeroed prompt)"

subsection \<open>The terminal through stdio\<close>

text \<open>
  The buffer of \<open>stdin\<close> holds the rest of the last \<open>read\<close>; an empty result of \<open>fill_stdin\<close> is
  end of file (or an error, which the callers do not tell apart).
\<close>

fun fill_stdin :: "string \<Rightarrow> read_event list \<Rightarrow> string \<times> read_event list" where
  "fill_stdin (c # b) es = (c # b, es)"
| "fill_stdin [] [] = ([], [])"
| "fill_stdin [] (Bytes b # es) = (b, es)"
| "fill_stdin [] (Interrupted # es) = ([], es)"
| "fill_stdin [] (Failed # es) = ([], es)"

definition stdin_size :: "string \<Rightarrow> read_event list \<Rightarrow> nat" where
  "stdin_size b es = length b + sum_list (map event_size es)"

lemma fill_stdin_size: "fill_stdin b es = (b', es') \<Longrightarrow> stdin_size b' es' \<le> stdin_size b es"
  by (induction b es rule: fill_stdin.induct) (auto simp: stdin_size_def)

text \<open>The longest run of characters with \<open>P\<close>.\<close>

function grab_chars :: "(char \<Rightarrow> bool) \<Rightarrow> string \<Rightarrow> string \<Rightarrow> read_event list \<Rightarrow> string \<times> string \<times> read_event list" where
  "grab_chars P acc b es =
     (case fill_stdin b es of
        ([], es') \<Rightarrow> (acc, [], es')
      | (c # b', es') \<Rightarrow> if P c then grab_chars P (acc @ [c]) b' es' else (acc, c # b', es'))"
  by pat_completeness auto
termination
  by (relation "measure (\<lambda>(P, acc, b, es). stdin_size b es)")
    (auto dest!: fill_stdin_size [OF sym] simp: stdin_size_def)

declare grab_chars.simps [simp del]

datatype scanned = ScanEof | ScanNone | ScanOverflow | ScanValue int

text \<open>\<open>scanf("%d", ...)\<close>: white space, an optional sign, digits.\<close>

definition scan_sign :: "string \<Rightarrow> int \<times> string" where
  "scan_sign b =
     (case b of [] \<Rightarrow> (1, [])
      | c # r \<Rightarrow> if c = CHR ''-'' then (-1, r) else if c = CHR ''+'' then (1, r) else (1, c # r))"

definition scanf_d :: "string \<Rightarrow> read_event list \<Rightarrow> scanned \<times> string \<times> read_event list" where
  "scanf_d b es =
     (case grab_chars is_space [] b es of (_, b1, es1) \<Rightarrow>
      case fill_stdin b1 es1 of (b2, es2) \<Rightarrow>
        if b2 = [] then (ScanEof, [], es2)
        else
          (case scan_sign b2 of (sg, b3) \<Rightarrow>
           case grab_chars is_digit [] b3 es2 of (ds, b4, es4) \<Rightarrow>
             let v = sg * int (digits_val ds) in
             (if ds = [] then ScanNone else if int_range v then ScanValue v else ScanOverflow,
              b4, es4)))"

definition scanf_stdin :: "(client, scanned) prog" where
  "scanf_stdin s =
     (case scanf_d (stdin_buf s) (net s 0) of (r, b, es) \<Rightarrow>
        (Inr r, s\<lparr>stdin_buf := b, net := (net s)(0 := es)\<rparr>))"

text \<open>\<open>fgets(recvline, MAXLINE, stdin)\<close>; the value says whether there was a line.\<close>

function grab_line :: "nat \<Rightarrow> string \<Rightarrow> string \<Rightarrow> read_event list \<Rightarrow> string \<times> string \<times> read_event list" where
  "grab_line n acc b es =
     (if n = 0 then (acc, b, es)
      else
        (case fill_stdin b es of
           ([], es') \<Rightarrow> (acc, [], es')
         | (c # b', es') \<Rightarrow>
             if c = newline then (acc @ [c], b', es') else grab_line (n - 1) (acc @ [c]) b' es'))"
  by pat_completeness auto
termination
  by (relation "measure (\<lambda>(n, acc, b, es). n)") auto

declare grab_line.simps [simp del]

definition fgets_stdin :: "(client, bool) prog" where
  "fgets_stdin s =
     (case grab_line (MAXLINE - 1) [] (stdin_buf s) (net s 0) of (l, b, es) \<Rightarrow>
        (Inr (l \<noteq> []),
         s\<lparr>stdin_buf := b, net := (net s)(0 := es), recvline := (if l = [] then recvline s else l)\<rparr>))"

end
