(* ===== verification/ClientTurn.thy ===== *)
theory ClientTurn
  imports ClientState Reaction
begin

text \<open>
  The client's handlers for its own turn and for its claims: the deal (\<open>get_decks\<close>), drawing,
  the answer to an offered win, the choice of a discard, the quiet gang, and what the branches of
  \<open>game\<close> for pong, gang and eat do. The client repeats on its own tiles what the server does on
  its copy of them.
\<close>

subsection \<open>The deal\<close>

text \<open>
  \<open>sscanf\<close> leaves a variable alone that it has no number for; \<open>None\<close> is a variable that was
  never assigned.
\<close>

definition scan_local :: "int option \<Rightarrow> string \<Rightarrow> (int option \<times> string option) option" where
  "scan_local v l =
     (case sscanf_d l of
        Value i r \<Rightarrow> Some (Some i, Some r)
      | NoMatch \<Rightarrow> Some (v, None)
      | Overflow \<Rightarrow> None)"

definition scan_two_locals :: "int option \<times> int option \<Rightarrow> string \<Rightarrow> (int option \<times> int option) option" where
  "scan_two_locals = (\<lambda>(t, n) l. do {
     (t', r) \<leftarrow> scan_local t l;
     case r of None \<Rightarrow> Some (t', n)
     | Some l' \<Rightarrow> do { (n', _) \<leftarrow> scan_local n l'; Some (t', n') }
   })"

definition get_one :: "int \<Rightarrow> int option \<times> int option \<Rightarrow> (client, int option \<times> int option) prog" where
  "get_one i = (\<lambda>tn.
     thenp listen_server (
     thenp (printf (''got mj, i = '' @ show_int i @ ''.\<newline>'')) (
     bindp (getp recvline) (\<lambda>l.
     bindp (liftp (scan_two_locals tn l)) (\<lambda>(t, n).
     bindp (liftp t) (\<lambda>t'.
     bindp (liftp n) (\<lambda>n'.
     thenp (update_me (\<lambda>q. do {
       m \<leftarrow> at (decks q) i;
       put_deck i (m\<lparr>type := t', number := n'\<rparr>) q
     })) (
     thenp clear_recvline (
     ret (t, n))))))))))"

text \<open>The flowers, until the line that ends the transfer; with fuel.\<close>

definition push_flower_number :: "int \<Rightarrow> player \<Rightarrow> player option" where
  "push_flower_number n q = do {
     m \<leftarrow> at (flowers q) (flower_index q);
     push_flower (m\<lparr>type := FLOWER, number := n\<rparr>) q
   }"

fun get_flowers :: "nat \<Rightarrow> int option \<Rightarrow> (client, unit) prog" where
  "get_flowers 0 n s = failp Diverges s"
| "get_flowers (Suc fuel) n s =
     thenp listen_server (
     bindp (recv_is ''transfer complete\<newline>'' 18) (\<lambda>done.
     if done then clear_recvline
     else
       bindp (getp recvline) (\<lambda>l.
       bindp (liftp (scan_local n l)) (\<lambda>(n', _).
       bindp (liftp n') (\<lambda>v.
       thenp (update_me (push_flower_number v)) (
       thenp clear_recvline (
       get_flowers fuel n'))))))) s"

definition socket_unread :: "(client, nat) prog" where
  "socket_unread = getp (\<lambda>s. unread (player_fd (me s)) s)"

text \<open>The loops that read the terminal too are bounded by what both can still deliver.\<close>

definition both_unread :: "(client, nat) prog" where
  "both_unread = getp (\<lambda>s. unread (player_fd (me s)) s + unread 0 s)"

definition get_decks :: "(client, int) prog" where
  "get_decks =
     bindp (foldp [0..15] get_one (None, None)) (\<lambda>(_, n).
     bindp socket_unread (\<lambda>k.
     thenp (get_flowers (Suc k) n) (
     ret 0)))"

subsection \<open>Drawing\<close>

text \<open>\<open>sscanf(recvline, "%d %d", &m.type, &m.number)\<close>\<close>

definition scan_tile :: "string \<Rightarrow> mj \<Rightarrow> mj option" where
  "scan_tile l m =
     (case sscanf_d l of
        NoMatch \<Rightarrow> Some m
      | Overflow \<Rightarrow> None
      | Value i r \<Rightarrow>
          (case sscanf_d r of
             NoMatch \<Rightarrow> Some (m\<lparr>type := i\<rparr>)
           | Overflow \<Rightarrow> None
           | Value j _ \<Rightarrow> Some (m\<lparr>type := i, number := j\<rparr>)))"

definition receive_tile :: "(client, unit) prog" where
  "receive_tile =
     thenp listen_server (
     bindp (getp recvline) (\<lambda>l.
     thenp (update_me (\<lambda>q. do {
       m \<leftarrow> at (decks q) (normal_capacity q);
       m' \<leftarrow> scan_tile l m;
       put_deck (normal_capacity q) m' q
     })) clear_recvline))"

fun client_draw_loop :: "nat \<Rightarrow> (client, int) prog" where
  "client_draw_loop 0 s = failp Diverges s"
| "client_draw_loop (Suc fuel) s =
     bindp my (\<lambda>q.
     bindp (liftp (at (decks q) (normal_capacity q))) (\<lambda>m.
     if type m = FLOWER then
       thenp (update_me (push_flower m)) (
       thenp receive_tile (
       client_draw_loop fuel))
     else ret 0)) s"

definition client_draw :: "(client, int) prog" where
  "client_draw = thenp receive_tile (bindp socket_unread (\<lambda>k. client_draw_loop (Suc k)))"

definition client_is_hu :: "(client, int) prog" where
  "client_is_hu =
     thenp listen_server (
     bindp (recv_is ''can hu\<newline>'' 7) (\<lambda>can.
     if can then
       bindp (question True ''You already suffice the conditions to win, proceed? [Y/n]\<newline>'') (\<lambda>y.
       if y then thenp (say ''YES!\<newline>'') (thenp clear_recvline (ret 1))
       else thenp (say ''NO!\<newline>'') (thenp clear_recvline (ret 0)))
     else thenp clear_recvline (ret 0)))"

subsection \<open>Discarding\<close>

text \<open>
  The choice of an index. Input that is no number stays in the buffer of \<open>stdin\<close>, so the loop
  reads it again for ever: when a turn reads nothing, all that follow read nothing.
\<close>

fun choose_loop :: "nat \<Rightarrow> (client, int) prog" where
  "choose_loop 0 s = failp Diverges s"
| "choose_loop (Suc fuel) s =
     thenp (printf ''Choose a mj and discard it...!\<newline>'') (
     bindp scanf_stdin (\<lambda>r.
     bindp my (\<lambda>q.
     case r of
       ScanEof \<Rightarrow> pressed_ctrl_d
     | ScanOverflow \<Rightarrow> failp Undefined
     | ScanNone \<Rightarrow> thenp (printf ''Invalid index, please choose again.\<newline>'') (choose_loop fuel)
     | ScanValue index \<Rightarrow>
         if 0 \<le> index \<and> index < normal_capacity q + 1 then ret index
         else thenp (printf ''Invalid index, please choose again.\<newline>'') (choose_loop fuel)))) s"

definition choose_index :: "(client, int) prog" where
  "choose_index = bindp (getp (\<lambda>s. stdin_size (stdin_buf s) (net s 0))) (\<lambda>k. choose_loop (Suc k))"

definition chosen_text :: "mj \<Rightarrow> string option" where
  "chosen_text m =
     (let pre = ''You chose to discard '' in
      if type m = TONG then Some (pre @ show_int (number m) @ '' TONG.\<newline>'')
      else if type m = TIAO then Some (pre @ show_int (number m) @ '' TIAO.\<newline>'')
      else if type m = WAN then Some (pre @ show_int (number m) @ '' WAN.\<newline>'')
      else if type m = DAZI then
        (if number m = 1 then Some (pre @ ''EAST.\<newline>'')
         else if number m = 2 then Some (pre @ ''SOUTH.\<newline>'')
         else if number m = 3 then Some (pre @ ''WEST.\<newline>'')
         else if number m = 4 then Some (pre @ ''NORTH.\<newline>'')
         else if number m = 5 then Some (pre @ ''ZHONG.\<newline>'')
         else if number m = 6 then Some (pre @ ''FA.\<newline>'')
         else if number m = 7 then Some (pre @ ''BAI.\<newline>'')
         else None)
      else None)"

definition client_remove_tile :: "int \<Rightarrow> player \<Rightarrow> player option" where
  "client_remove_tile i q = do {
     d \<leftarrow> client_swap (decks q) (normal_capacity q) i;
     q \<leftarrow> clear_deck (normal_capacity q) (q\<lparr>decks := d\<rparr>);
     d \<leftarrow> client_decks_quick_sort (decks q) 0 (normal_capacity q - 1);
     Some (q\<lparr>decks := d\<rparr>)
   }"

definition client_discard :: "(client, int) prog" where
  "client_discard =
     thenp (show_hand True True) (
     bindp choose_index (\<lambda>index.
     bindp my (\<lambda>q.
     bindp (liftp (at (decks q) index)) (\<lambda>m.
     thenp (modp (\<lambda>s. s\<lparr>board := (board s)\<lparr>type := type m, number := number m\<rparr>,
       message := (case chosen_text m of None \<Rightarrow> message s | Some t \<Rightarrow> t)\<rparr>)) (
     thenp (say (show_int index @ ''\<newline>'')) (
     thenp (update_me (client_remove_tile index)) (
     ret 0)))))))"

subsection \<open>Melds\<close>

text \<open>The loop that clears matching tiles; the door is filled before it.\<close>

fun clear_loop :: "mj \<Rightarrow> int list \<Rightarrow> int \<Rightarrow> player \<Rightarrow> player option" where
  "clear_loop target [] need q = Some q"
| "clear_loop target (i # is) need q = do {
     m \<leftarrow> at (decks q) i;
     if client_mj_compare target m = 0 then do {
       q \<leftarrow> clear_deck i q;
       if need - 1 = 0 then Some q else clear_loop target is (need - 1) q
     }
     else clear_loop target is need q
   }"

text \<open>\<open>door[door_index++] = m\<close>, \<open>k\<close> times.\<close>

fun push_door_times :: "nat \<Rightarrow> mj \<Rightarrow> player \<Rightarrow> player option" where
  "push_door_times 0 m q = Some q"
| "push_door_times (Suc k) m q = do { q \<leftarrow> push_door m q; push_door_times k m q }"

definition client_gang_tiles :: "mj \<Rightarrow> player \<Rightarrow> player option" where
  "client_gang_tiles target q = do {
     q \<leftarrow> push_door_times 4 target q;
     q \<leftarrow> clear_loop target [0..normal_capacity q - 1] 3 q;
     q \<leftarrow> compact_loop 4 [0..normal_capacity q - 1] 3 q;
     let q = q\<lparr>normal_capacity := normal_capacity q - 3\<rparr>;
     d \<leftarrow> client_decks_quick_sort (decks q) 0 (normal_capacity q - 1);
     Some (q\<lparr>decks := d\<rparr>)
   }"

definition client_pong_tiles :: "mj \<Rightarrow> player \<Rightarrow> player option" where
  "client_pong_tiles target q = do {
     q \<leftarrow> push_door_times 3 target q;
     q \<leftarrow> clear_loop target [0..normal_capacity q - 1] 2 q;
     q \<leftarrow> compact_loop 3 [0..normal_capacity q - 1] 2 q;
     let q = q\<lparr>normal_capacity := normal_capacity q - 3\<rparr>;
     d \<leftarrow> client_decks_quick_sort (decks q) 0 (normal_capacity q);
     Some (q\<lparr>decks := d\<rparr>)
   }"

definition client_quiet_gang :: "(client, int) prog" where
  "client_quiet_gang =
     thenp listen_server (
     bindp (recv_is ''You can quietly-gang.\<newline>'' 22) (\<lambda>can.
     if can then
       thenp clear_recvline (
       bindp (question False ''You can quietly-gang, proceed? [Y/n]\<newline>'') (\<lambda>y.
       if y then
         thenp (say ''YES!\<newline>'') (
         thenp (update_me (\<lambda>q. do { m \<leftarrow> at (decks q) (normal_capacity q); client_gang_tiles m q })) (
         thenp clear_board (
         ret 1)))
       else thenp (say ''NO!\<newline>'') (ret 0)))
     else thenp clear_recvline (ret 0)))"

text \<open>After a claim: the answer to an offered win, or a discard.\<close>

definition hu_or_discard :: "(client, unit) prog" where
  "hu_or_discard = bindp client_is_hu (\<lambda>h. if h = 1 then ret () else thenp client_discard (ret ()))"

definition client_pong :: "(client, unit) prog" where
  "client_pong =
     thenp clear_recvline (
     bindp (question False ''You can pong, proceed? [Y/n]\<newline>'') (\<lambda>y.
     if y then
       thenp (say ''YES!\<newline>'') (
       bindp (getp board) (\<lambda>d.
       thenp (update_me (client_pong_tiles d)) (
       thenp clear_board (
       hu_or_discard))))
     else thenp (say ''NO!\<newline>'') (ret ())))"

definition client_gang :: "(client, unit) prog" where
  "client_gang =
     thenp clear_recvline (
     bindp (question False ''You can gang, proceed? [Y/n]\<newline>'') (\<lambda>y.
     if y then
       thenp (say ''YES!\<newline>'') (
       bindp (getp board) (\<lambda>d.
       thenp (update_me (client_gang_tiles d)) (
       thenp clear_board (
       thenp client_draw (
       hu_or_discard)))))
     else thenp (say ''NO!\<newline>'') (ret ())))"

subsection \<open>Eating\<close>

text \<open>
  The answer is passed to \<open>write_message_wait_ack\<close> as its format: a conversion in it reads
  arguments that are not there.
\<close>

fun format_only :: "string \<Rightarrow> string option" where
  "format_only [] = Some []"
| "format_only (c # r) =
     (if c = CHR ''%'' then
        (case r of
           d # r' \<Rightarrow> if d = CHR ''%'' then map_option (\<lambda>t. d # t) (format_only r') else None
         | [] \<Rightarrow> None)
      else map_option (\<lambda>t. c # t) (format_only r))"

text \<open>\<open>sscanf(answer, "%d %d\n", &eatindex1, &eatindex2)\<close>\<close>

definition scan_indices :: "string \<Rightarrow> int \<times> int \<Rightarrow> (int \<times> int) option" where
  "scan_indices l = (\<lambda>(e1, e2).
     (case sscanf_d l of
        NoMatch \<Rightarrow> Some (e1, e2)
      | Overflow \<Rightarrow> None
      | Value i r \<Rightarrow>
          (case sscanf_d r of
             NoMatch \<Rightarrow> Some (i, e2) | Overflow \<Rightarrow> None | Value j _ \<Rightarrow> Some (i, j))))"

definition client_eat_tiles :: "int \<Rightarrow> int \<Rightarrow> mj \<Rightarrow> player \<Rightarrow> player option" where
  "client_eat_tiles e1 e2 d q = do {
     a \<leftarrow> at (decks q) e1;
     b \<leftarrow> at (decks q) e2;
     t \<leftarrow> client_decks_quick_sort [a, b, d] 0 2;
     q \<leftarrow> push_door (t ! 0) q;
     q \<leftarrow> push_door (t ! 1) q;
     q \<leftarrow> push_door (t ! 2) q;
     q \<leftarrow> clear_deck e1 q;
     q \<leftarrow> clear_deck e2 q;
     x \<leftarrow> client_swap (decks q) e1 (normal_capacity q - 1);
     y \<leftarrow> client_swap x e2 (normal_capacity q - 2);
     Some (q\<lparr>decks := y\<rparr>)
   }"

text \<open>\<open>answer\<close> is the buffer: a failed \<open>read\<close> leaves the end of its old content.\<close>

fun client_eat_loop :: "nat \<Rightarrow> string \<Rightarrow> int \<times> int \<Rightarrow> (client, unit) prog" where
  "client_eat_loop 0 answer e s = failp Diverges s"
| "client_eat_loop (Suc fuel) answer e s =
     thenp listen_server (
     bindp (recv_is ''Type which 2 of the mjs you want to eat with: \<newline>'' 47) (\<lambda>asked.
     if asked then
       bindp (getp recvline) (\<lambda>l.
       thenp (printf (cstr l)) (
       thenp clear_recvline (
       bindp (readline_stdin 64) (\<lambda>(n, a).
       if n = 0 then pressed_ctrl_d
       else
         let answer = (if n < 0 then a @ drop (length a) answer else a) in
         bindp (liftp (scan_indices answer e)) (\<lambda>e.
         bindp (liftp (format_only (cstr answer))) (\<lambda>msg.
         thenp (say msg) (
         thenp listen_server (
         bindp (recv_is ''eatable.\<newline>'' 10) (\<lambda>ok.
         bindp (getp board) (\<lambda>d.
         if ok then update_me (client_eat_tiles (fst e) (snd e) d)
         else
           bindp (getp recvline) (\<lambda>l.
           thenp (printf (cstr l)) (
           thenp clear_recvline (
           client_eat_loop fuel answer e)))))))))))))
     else client_eat_loop fuel answer e)) s"

definition client_leave_three :: "player \<Rightarrow> player option" where
  "client_leave_three q =
     (let q = q\<lparr>normal_capacity := normal_capacity q - 3\<rparr> in do {
        d \<leftarrow> client_decks_quick_sort (decks q) 0 (normal_capacity q);
        Some (q\<lparr>decks := d\<rparr>)
      })"

definition client_eat :: "(client, unit) prog" where
  "client_eat =
     thenp clear_recvline (
     bindp (question True ''You can eat, proceed? [Y/n]\<newline>'') (\<lambda>y.
     if y then
       thenp (say ''YES!\<newline>'') (
       thenp (show_hand False True) (
       bindp both_unread (\<lambda>k.
       thenp (client_eat_loop (Suc k) [] (-1, -1)) (
       thenp (update_me client_leave_three) (
       hu_or_discard)))))
     else thenp (say ''NO!\<newline>'') (ret ())))"

end
