(* ===== verification/ClientGame.thy ===== *)
theory ClientGame
  imports ClientTurn UnpIO
begin

text \<open>
  The client's game: the dispatch over the server's messages, the rounds, the connection and
  \<open>main\<close> (\<open>client_game_set\<close>, \<open>receive_id\<close>, \<open>client_game_init\<close>, \<open>game\<close>, \<open>connection_establish\<close>).
  \<open>system("clear")\<close> and \<open>sleep\<close> have no effect on the model's state.
\<close>

subsection \<open>Messages from the server\<close>

text \<open>What the loop over the messages does after one: go on, end the round, or return from \<open>game\<close>.\<close>

datatype outcome = Continue | RoundOver | Leave int

definition set_message :: "string \<Rightarrow> (client, unit) prog" where
  "set_message m = modp (\<lambda>s. s\<lparr>message := m\<rparr>)"

text \<open>
  \<open>sprintf(message, "%sIt's your turn!\n", message)\<close> copies the string onto itself and goes on
  behind it. A message that no longer fits leaves the buffer.
\<close>

definition append_message :: "string \<Rightarrow> (client, unit) prog" where
  "append_message m =
     bindp (getp (\<lambda>s. message s @ m)) (\<lambda>l. if length l < MAXLINE then set_message l else failp Undefined)"

fun client_quiet_loop :: "nat \<Rightarrow> (client, outcome) prog" where
  "client_quiet_loop 0 s = failp Diverges s"
| "client_quiet_loop (Suc fuel) s =
     bindp client_quiet_gang (\<lambda>g.
     if g = 1 then
       thenp client_draw (
       bindp client_is_hu (\<lambda>h. if h = 1 then ret (Leave 1) else client_quiet_loop fuel))
     else thenp client_discard (ret Continue)) s"

definition on_your_turn :: "(client, outcome) prog" where
  "on_your_turn =
     thenp (append_message ''It's your turn!\<newline>'') (
     thenp clear_recvline (
     thenp client_draw (
     thenp (show_hand True True) (
     bindp client_is_hu (\<lambda>h.
     if h = 1 then ret Continue
     else bindp both_unread (\<lambda>k. client_quiet_loop (Suc k)))))))"

text \<open>A \<open>char\<close> as an \<open>int\<close>, where it is signed.\<close>

definition char_int :: "char \<Rightarrow> int" where
  "char_int c = (let n = int (of_char c :: nat) in if n < 128 then n else n - 256)"

text \<open>The discarded tile, read off fixed places of the server's line.\<close>

definition honour_number :: "char \<Rightarrow> int \<Rightarrow> int" where
  "honour_number c old =
     (if c = CHR ''E'' then 1 else if c = CHR ''S'' then 2 else if c = CHR ''W'' then 3
      else if c = CHR ''N'' then 4 else if c = CHR ''Z'' then 5 else if c = CHR ''F'' then 6
      else if c = CHR ''B'' then 7 else old)"

definition parse_discard :: "string \<Rightarrow> mj \<Rightarrow> mj" where
  "parse_discard l d =
     (let c = char_at l 29 in
      if char_int (CHR ''A'') \<le> char_int c \<and> char_int c \<le> char_int (CHR ''Z'')
      then d\<lparr>type := DAZI, number := honour_number c (number d)\<rparr>
      else
        d\<lparr>number := char_int c - char_int (CHR ''0''),
          type := (if char_at l 31 = CHR ''W'' then WAN
                   else if char_at l 32 = CHR ''O'' then TONG else TIAO)\<rparr>)"

definition on_discard :: "(client, outcome) prog" where
  "on_discard =
     bindp (getp recvline) (\<lambda>l.
     thenp (set_message (cstr l)) (
     thenp (modp (\<lambda>s. s\<lparr>board := parse_discard l (board s)\<rparr>)) (
     thenp clear_recvline (
     ret Continue))))"

definition on_announce :: "(client, outcome) prog" where
  "on_announce =
     bindp (getp recvline) (\<lambda>l.
     thenp (set_message (cstr l)) (
     thenp clear_recvline (
     ret Continue)))"

definition on_nobody :: "(client, outcome) prog" where
  "on_nobody =
     thenp clear_recvline (
     bindp (getp board) (\<lambda>d.
     thenp (update_me (push_sea d)) (
     ret Continue)))"

definition on_hu :: "(client, outcome) prog" where
  "on_hu =
     thenp clear_recvline (
     bindp (question False ''You actually can hu already, proceed? [Y/n]\<newline>'') (\<lambda>y.
     thenp (say (if y then ''YES!\<newline>'' else ''NO!\<newline>'')) (
     ret Continue)))"

definition on_other :: "(client, outcome) prog" where
  "on_other =
     bindp (getp recvline) (\<lambda>l.
     thenp (printf (''received this, please debug: '' @ cstr l)) (
     thenp clear_recvline (
     ret Continue)))"

definition dispatch :: "(client, outcome) prog" where
  "dispatch =
     bindp (getp recvline) (\<lambda>l.
     if strncmp_eq l ''your turn\<newline>'' 10 then on_your_turn
     else if strncmp_eq l ''(Discard) '' 6 then on_discard
     else if strncmp_eq l ''(Announce) '' 11 then on_announce
     else if strncmp_eq l ''You can pong.\<newline>'' 15 then thenp client_pong (ret Continue)
     else if strncmp_eq l ''You can gang.\<newline>'' 15 then thenp client_gang (ret Continue)
     else if strncmp_eq l ''You can eat.\<newline>'' 13 then thenp client_eat (ret Continue)
     else if strncmp_eq l ''no one wants it.\<newline>'' 17 then on_nobody
     else if strncmp_eq l ''(Game) '' 7 then ret RoundOver
     else if strncmp_eq l ''(Hu) '' 5 then on_hu
     else if strncmp_eq l ''(End) '' 6 then ret RoundOver
     else on_other)"

subsection \<open>The loop over the messages\<close>

definition client_select :: "(client, int set) prog" where
  "client_select s =
     (case client_selects s of [] \<Rightarrow> (Inl Diverges, s)
      | r # rs \<Rightarrow> (Inr (set r \<inter> client_rset s), s\<lparr>client_selects := rs\<rparr>))"

text \<open>One turn: what is typed meanwhile is dropped, a message is handled.\<close>

definition client_step :: "(client, outcome) prog" where
  "client_step =
     thenp (show_hand False False) (
     bindp client_select (\<lambda>testset.
     thenp (if 0 \<in> testset then thenp (readline_stdin MAXLINE) (ret ()) else ret ()) (
     bindp my (\<lambda>q.
     if player_fd q \<in> testset then
       bindp listen_server (\<lambda>r.
       if r \<noteq> 0 then
         thenp (printf ''Server terminated prematurely!? Exiting...\<newline>'') (failp (Exited 1))
       else dispatch)
     else ret Continue))))"

fun message_loop :: "nat \<Rightarrow> (client, outcome) prog" where
  "message_loop 0 s = failp Diverges s"
| "message_loop (Suc fuel) s =
     bindp client_step (\<lambda>r. if r = Continue then message_loop fuel else ret r) s"

subsection \<open>The rounds\<close>

text \<open>The answer to the question for another round has no prompt of its own.\<close>

fun again_loop :: "nat \<Rightarrow> bool \<Rightarrow> (client, unit) prog" where
  "again_loop 0 zeroed s = failp Diverges s"
| "again_loop (Suc fuel) zeroed s =
     bindp (readline_stdin 64) (\<lambda>(n, answer).
       if n = 0 then pressed_ctrl_d
       else if n < 0 \<and> \<not> zeroed then failp Undefined
       else if strncmp_eq answer ''Y\<newline>'' 2 \<or> strncmp_eq answer ''\<newline>'' 1 then
         thenp (say ''YES!\<newline>'') (printf ''GOT SERVER APPROVAL, WAIT FOR OTHERS...\<newline>'')
       else if strncmp_eq answer ''n\<newline>'' 2 then
         thenp (say ''NO!\<newline>'') (printf ''GOT SERVER APPROVAL, WAIT FOR OTHERS...\<newline>'')
       else again_loop fuel True) s"

definition client_game_set :: "(client, int) prog" where
  "client_game_set =
     bindp (getp recvline) (\<lambda>l.
     thenp (printf (cstr l)) (
     thenp clear_recvline (
     bindp (getp (unread 0)) (\<lambda>k.
     thenp (again_loop (Suc k) False) (
     thenp listen_server (
     bindp (recv_is ''start!\<newline>'' 8) (\<lambda>start.
     if start then thenp clear_recvline (ret 1)
     else
       bindp (recv_is ''Some players don't want to play, no more game!\<newline>'' 47) (\<lambda>stop.
       if stop then
         bindp (getp recvline) (\<lambda>l.
         thenp (printf (cstr l)) (
         thenp clear_recvline (ret 0)))
       else ret 0))))))))"

definition receive_id :: "(client, int) prog" where
  "receive_id =
     thenp listen_server (
     thenp (modp (\<lambda>s. s\<lparr>id_num := char_int (char_at (recvline s) 0) - char_int (CHR ''0'')\<rparr>)) (
     thenp clear_recvline (
     thenp (forp [2, 1, 0] (\<lambda>t.
       bindp (getp id_num) (\<lambda>i.
       printf (''This is your id: '' @ show_int i @ replicate (3 - t) (CHR ''.'') @ ''\<newline>'')))) (
     ret 0))))"

definition client_game_init :: "(client, int) prog" where
  "client_game_init =
     thenp (modp (\<lambda>s. s\<lparr>
       me := (me s)\<lparr>decks := replicate 20 null_mj, flowers := replicate 8 null_mj,
         door := replicate 20 null_mj, sea := replicate 150 null_mj,
         flower_index := 0, door_index := 0, sea_index := 0, normal_capacity := 16\<rparr>,
       board := clear_mj (board s)\<rparr>)) (
     ret 0)"

text \<open>After a round: the next one, or the end of the game.\<close>

definition after_round :: "(client, int) prog \<Rightarrow> (client, int) prog" where
  "after_round next_round =
     bindp client_game_set (\<lambda>g.
     if g = 1 then next_round
     else
       thenp (printf ''Oh no! Some player don't want to play anymore! Exiting...\<newline>'') (
       ret 0))"

fun client_rounds :: "int list \<Rightarrow> (client, int) prog" where
  "client_rounds [] s =
     thenp (printf ''4 Games has finished, exiting...\<newline>'') (ret 0) s"
| "client_rounds (startplayer # rest) s =
     thenp client_game_init (
     thenp get_decks (
     bindp (getp (\<lambda>s. length (client_selects s))) (\<lambda>k.
     bindp (message_loop (Suc k)) (\<lambda>r.
     case r of
       Leave v \<Rightarrow> ret v
     | _ \<Rightarrow> after_round (client_rounds rest))))) s"

definition client_run :: "(client, int) prog" where
  "client_run = thenp receive_id (client_rounds [0..3])"

subsection \<open>The connection\<close>

definition waiting_line :: "int \<Rightarrow> (client, bool) prog" where
  "waiting_line fd =
     bindp (readline_recv fd) (\<lambda>n.
     if n \<le> 0 then
       thenp (printf ''Server terminated prematurely!? Exiting...\<newline>'') (failp (Exited 1))
     else
       bindp (getp recvline) (\<lambda>l.
       if strncmp_eq l ''(join) '' 7 then
         thenp (printf (cstr l)) (thenp clear_recvline (ret False))
       else if strncmp_eq l ''wait...\<newline>'' 8 then thenp clear_recvline (ret False)
       else if strncmp_eq l ''start!\<newline>'' 7 then thenp clear_recvline (ret True)
       else ret False))"

definition waiting_input :: "(client, unit) prog" where
  "waiting_input =
     bindp fgets_stdin (\<lambda>ok.
     if \<not> ok then leave ''You pressed Ctrl+D, leaving...\<newline>'' 0 else clear_recvline)"

fun wait_loop :: "nat \<Rightarrow> (client, int) prog" where
  "wait_loop 0 s = failp Diverges s"
| "wait_loop (Suc fuel) s =
     bindp my (\<lambda>q.
     bindp client_select (\<lambda>testset.
     bindp (if player_fd q \<in> testset then waiting_line (player_fd q) else ret False) (\<lambda>start.
     if start then ret 0
     else
       thenp (if 0 \<in> testset then waiting_input else ret ()) (
       wait_loop fuel)))) s"

text \<open>\<open>FD_SET\<close> of a negative descriptor is undefined; the result of \<open>connect\<close> is dropped.\<close>

definition client_connection_establish :: "(client, int) prog" where
  "client_connection_establish =
     bindp my (\<lambda>q.
     if player_fd q < 0 then failp Undefined
     else
       thenp (modp (\<lambda>s. s\<lparr>client_rset := insert 0 (insert (player_fd q) (client_rset s))\<rparr>)) (
       bindp (getp (\<lambda>s. length (client_selects s))) (\<lambda>k.
       wait_loop (Suc k))))"

text \<open>
  \<open>argv\<close> are the arguments, the name of the program first; \<open>sock\<close> is the result of
  \<open>socket\<close>. Neither it nor the result of \<open>inet_pton\<close> is checked: an address that is none leaves
  the zeroed \<open>sin_addr\<close>.
\<close>

definition client_main :: "string list \<Rightarrow> int \<Rightarrow> (client, int) prog" where
  "client_main argv sock =
     (if length argv \<noteq> 2 then thenp (printf ''Usage: ./Mahjong_client <ServerIP>\<newline>'') (ret 1)
      else
        thenp (modp (\<lambda>s. s\<lparr>me := (me s)\<lparr>player_fd := sock\<rparr>, client_rset := {},
          server_addr := (case inet_pton4 (argv ! 1) of Some a \<Rightarrow> a | None \<Rightarrow> [0, 0, 0, 0])\<rparr>)) (
        bindp client_connection_establish (\<lambda>r.
        if r = 0 then
          thenp client_run (
          thenp (modp (\<lambda>s. s\<lparr>closed_fds := closed_fds s @ [sock]\<rparr>)) (ret 0))
        else ret 0)))"

end
