(* ===== verification/Protocol.thy ===== *)
theory Protocol
  imports Answers ClientGame
begin

text \<open>
  What one program writes and the other reads: the line of a drawn tile, the broadcast of a
  discard, and the whole transfer of a dealt hand with its flowers. The lemmas are round trips
  between the server's formats and the client's parsers.
\<close>

subsection \<open>Lines of numbers\<close>

lemma newline_simps [simp]:
  "CHR 0x0A = newline" "newline \<noteq> NUL" "\<not> is_digit newline" "is_space newline"
  by (simp_all add: newline_def NUL_def is_digit_def is_space_def)

lemma cstr_simps [simp]: "cstr [] = []" "c \<noteq> NUL \<Longrightarrow> cstr (c # s) = c # cstr s"
  by (simp_all add: cstr_def)

lemma space_simps [simp]: "CHR '' '' \<noteq> NUL" "\<not> is_digit (CHR '' '')" "is_space (CHR '' '')"
  by (simp_all add: NUL_def is_digit_def is_space_def)

lemma sscanf_space: "is_space c \<Longrightarrow> c \<noteq> NUL \<Longrightarrow> sscanf_d (c # s) = sscanf_d s"
  by (simp add: sscanf_d_def)

lemma scan_number: "int_range i \<Longrightarrow> sscanf_d (show_int i @ [newline]) = Value i [newline]"
  by (subst sscanf_d_show_int) auto

lemma scan_two_numbers:
  "int_range i \<Longrightarrow> sscanf_d (show_int i @ CHR '' '' # show_int j @ [newline]) = Value i (CHR '' '' # show_int j @ [newline])"
  "int_range j \<Longrightarrow> sscanf_d (CHR '' '' # show_int j @ [newline]) = Value j [newline]"
  by (subst sscanf_d_show_int; simp add: cstr_append) (simp add: sscanf_space scan_number)

lemma tile_line_eq: "tile_line m = show_int (type m) @ CHR '' '' # show_int (number m) @ [newline]"
  by (simp add: tile_line_def)

lemma scan_tile_line:
  assumes "int_range (type m)" and "int_range (number m)"
  shows "scan_tile (tile_line m) x = Some (x\<lparr>type := type m, number := number m\<rparr>)"
  by (simp add: scan_tile_def tile_line_eq scan_two_numbers assms)

lemma scan_locals_line:
  assumes "int_range (type m)" and "int_range (number m)"
  shows "scan_two_locals tn (tile_line m) = Some (Some (type m), Some (number m))"
  by (cases tn) (simp add: scan_two_locals_def scan_local_def tile_line_eq scan_two_numbers assms)

lemma good_range: "good m \<Longrightarrow> int_range (type m) \<and> int_range (number m)"
  by (auto simp: good_def playable_def is_flower_def int_range_def)

lemma show_int_no_newline: "newline \<notin> set (show_int i)"
proof -
  have "newline \<notin> set (show_nat n)" for n
  proof
    assume "newline \<in> set (show_nat n)"
    from show_nat_digits [OF this] obtain d where "d < 10" "newline = digit_char d" by blast
    then show False using digit_char_props(1) newline_simps(3) by metis
  qed
  moreover have "newline \<noteq> CHR ''-''" by (simp add: newline_def del: newline_simps)
  ultimately show ?thesis by (simp add: show_int_def)
qed

subsection \<open>The transfer of a hand\<close>

definition flower_line :: "mj \<Rightarrow> string" where
  "flower_line m = show_int (number m) @ [newline]"

definition last_line :: string where
  "last_line = ''transfer complete\<newline>''"

definition transfer_lines :: "player \<Rightarrow> string list" where
  "transfer_lines q = map tile_line (take 16 (decks q)) @
     map flower_line (take (nat (flower_index q)) (flowers q)) @ [last_line]"

text \<open>What the server writes when the transfer returns.\<close>

definition sent_since :: "server \<Rightarrow> int \<Rightarrow> string list \<Rightarrow> server \<Rightarrow> bool" where
  "sent_since s0 fd ls s \<longleftrightarrow> io.more s = io.more s0 \<and>
     sent s = sent s0 @ map (\<lambda>l. (fd, vsnprintf_line l)) ls"

lemma tell_sends:
  assumes "player_fd (players s0 p) = fd"
  shows "partial (sent_since s0 fd ls) (tell p l) (\<lambda>_. sent_since s0 fd (ls @ [l]))"
proof (rule tripleI)
  fix s v t assume S: "sent_since s0 fd ls s" and run: "tell p l s = (Inr v, t)"
  have "players s p = players s0 p" using S same_game [of s s0] by (simp add: sent_since_def)
  then have w: "write_message_wait_ack fd l s = (Inr v, t)"
    using run assms by (simp add: tell_def player_of_def)
  then show "sent_since s0 fd (ls @ [l]) t"
    using S server_chan.send_more [OF w] server_chan.send_Inr [OF w] by (simp add: sent_since_def)
qed simp

lemma send_lines:
  assumes fd: "player_fd (players s0 p) = fd" and n: "0 \<le> n" "n \<le> int (length (sel (players s0 p)))"
  shows "partial (sent_since s0 fd ls)
     (forp [0..n - 1] (\<lambda>j. bindp (player_of p) (\<lambda>q. bindp (liftp (at (sel q) j)) (\<lambda>m. thenp (tell p (line m)) (ret ())))))
     (\<lambda>_. sent_since s0 fd (ls @ map line (take (nat n) (sel (players s0 p)))))"
proof -
  let ?x = "sel (players s0 p)"
  let ?J = "\<lambda>i. sent_since s0 fd (ls @ map line (take (nat i) ?x))"
  have "partial (?J 0)
     (forp [0..n - 1] (\<lambda>j. bindp (player_of p) (\<lambda>q. bindp (liftp (at (sel q) j)) (\<lambda>m. thenp (tell p (line m)) (ret ())))))
     (\<lambda>_. ?J n)"
  proof (rule triple_forp_upto [where J = ?J])
    fix i :: int assume i: "0 \<le> i" "i < n"
    show "partial (?J i) (bindp (player_of p) (\<lambda>q. bindp (liftp (at (sel q) i)) (\<lambda>m. thenp (tell p (line m)) (ret ()))))
       (\<lambda>_. ?J (i + 1))"
    proof (rule triple_bind_player)
      fix q :: player
      show "partial (\<lambda>s. ?J i s \<and> players s p = q)
         (bindp (liftp (at (sel q) i)) (\<lambda>m. thenp (tell p (line m)) (ret ()))) (\<lambda>_. ?J (i + 1))"
      proof (cases "q = players s0 p")
        case True
        then have at: "at (sel q) i = Some (?x ! nat i)" using i n(2) by (simp add: at_eq)
        have snoc: "take (nat (i + 1)) ?x = take (nat i) ?x @ [?x ! nat i]"
          using i n(2) by (simp add: nat_add_distrib take_Suc_conv_app_nth)
        have step: "partial (?J i) (tell p (line (?x ! nat i))) (\<lambda>_. ?J (i + 1))"
          using tell_sends [OF fd, of "ls @ map line (take (nat i) ?x)" "line (?x ! nat i)"] unfolding snoc by simp
        have "partial (\<lambda>s. ?J i s \<and> players s p = q) (thenp (tell p (line (?x ! nat i))) (ret ())) (\<lambda>_. ?J (i + 1))"
          by (intro triple_thenp [OF triple_pre [OF step]]) (auto intro: triple_ret)
        then show ?thesis unfolding at by (simp add: triple_def)
      next
        case False
        then have "\<not> (?J i s \<and> players s p = q)" for s using same_game [of s s0] by (auto simp: sent_since_def)
        then show ?thesis by (rule triple_vacuous)
      qed
    qed
  qed (rule n(1))
  then show ?thesis by simp
qed

lemma transfer_sends:
  assumes "shape (players s p)"
  shows "partial (\<lambda>t. t = s) (transfer p)
     (\<lambda>_. sent_since s (player_fd (players s p)) (transfer_lines (players s p)))"
proof -
  let ?q = "players s p" and ?fd = "player_fd (players s p)"
  have len: "length (decks ?q) = 20" "length (flowers ?q) = 8" "0 \<le> flower_index ?q" "flower_index ?q \<le> 8"
    using assms by (auto simp: shape_def)
  let ?t = "map tile_line (take 16 (decks ?q))" and ?f = "map flower_line (take (nat (flower_index ?q)) (flowers ?q))"
  have lines: "show_int (type m) @ '' '' @ show_int (number m) @ ''\<newline>'' = tile_line m"
    "show_int (number m) @ ''\<newline>'' = flower_line m" for m
    by (simp_all add: tile_line_def flower_line_def)
  have hand: "partial (\<lambda>t. t = s) (forp [0..15] (\<lambda>j. bindp (player_of p) (\<lambda>q. bindp (liftp (at (decks q) j)) (\<lambda>m.
      thenp (tell p (tile_line m)) (ret ()))))) (\<lambda>_. sent_since s ?fd ?t)"
  proof (rule triple_pre)
    show "partial (sent_since s ?fd []) (forp [0..15] (\<lambda>j. bindp (player_of p) (\<lambda>q. bindp (liftp (at (decks q) j)) (\<lambda>m.
      thenp (tell p (tile_line m)) (ret ()))))) (\<lambda>_. sent_since s ?fd ?t)"
      using send_lines [OF refl, of 16 decks s p "[]" tile_line] len by simp
  qed (simp add: sent_since_def)
  have last: "partial (sent_since s ?fd (?t @ ?f)) (tell p last_line) (\<lambda>_. sent_since s ?fd (transfer_lines ?q))"
    using tell_sends [OF refl, of s p "?t @ ?f" last_line] by (simp add: transfer_lines_def)
  have rest: "partial (sent_since s ?fd ?t) (bindp (player_of p) (\<lambda>q. thenp (forp [0..flower_index q - 1] (\<lambda>j.
      bindp (player_of p) (\<lambda>q. bindp (liftp (at (flowers q) j)) (\<lambda>m. thenp (tell p (flower_line m)) (ret ())))))
      (tell p last_line))) (\<lambda>_. sent_since s ?fd (transfer_lines ?q))"
  proof (rule triple_bind_player)
    fix q :: player
    show "partial (\<lambda>t. sent_since s ?fd ?t t \<and> players t p = q) (thenp (forp [0..flower_index q - 1] (\<lambda>j.
      bindp (player_of p) (\<lambda>q. bindp (liftp (at (flowers q) j)) (\<lambda>m. thenp (tell p (flower_line m)) (ret ())))))
      (tell p last_line)) (\<lambda>_. sent_since s ?fd (transfer_lines ?q))"
    proof (cases "q = ?q")
      case True
      show ?thesis unfolding True
        by (rule triple_thenp [OF triple_pre [OF send_lines [OF refl, of "flower_index ?q" flowers s p ?t flower_line]] last])
          (use len in auto)
    next
      case False
      then have "\<not> (sent_since s ?fd ?t t \<and> players t p = q)" for t
        using same_game [of t s] by (auto simp: sent_since_def)
      then show ?thesis by (rule triple_vacuous)
    qed
  qed
  show ?thesis
    unfolding transfer_def lines(1) unfolding lines(2) last_line_def [symmetric] by (rule triple_thenp [OF hand rest])
qed

subsection \<open>The client reads the transfer\<close>

text \<open>
  While the client reads: the lines still to come, how many tiles of the hand have arrived and how
  many flowers; the rest of its data (\<open>kept\<close>) stays as \<open>client_game_init\<close> left it.
\<close>

definition kept :: "player \<Rightarrow> bool" where
  "kept q \<longleftrightarrow> normal_capacity q = 16 \<and> door_index q = 0 \<and> door q = replicate 20 null_mj \<and>
     (\<forall>k. 16 \<le> k \<and> k < 20 \<longrightarrow> is_null (decks q ! k))"

lemma kept_simps [simp]:
  "i < 16 \<Longrightarrow> kept (q\<lparr>decks := (decks q)[i := x]\<rparr>) \<longleftrightarrow> kept q"
  "kept (q\<lparr>flowers := f\<rparr>) \<longleftrightarrow> kept q" "kept (q\<lparr>flower_index := n\<rparr>) \<longleftrightarrow> kept q"
  "kept (q\<lparr>flowers := f, flower_index := n\<rparr>) \<longleftrightarrow> kept q"
  by (auto simp: kept_def)

definition reading :: "int \<Rightarrow> player \<Rightarrow> string list \<Rightarrow> nat \<Rightarrow> nat \<Rightarrow> client \<Rightarrow> bool" where
  "reading fd q ls n f s \<longleftrightarrow> buffer_ok s \<and> player_fd (me s) = fd \<and> pending fd s = concat ls \<and>
     length (decks (me s)) = 20 \<and> length (flowers (me s)) = 8 \<and> flower_index (me s) = int f \<and> kept (me s) \<and>
     map kind (take n (decks (me s))) = map kind (take n (decks q)) \<and>
     map kind (take f (flowers (me s))) = map kind (take f (flowers q))"

lemma client_more:
  assumes "io.more t = io.more s"
  shows "me t = me s \<and> board t = board s \<and> message t = message s"
  using assms by (cases s, cases t) simp

text \<open>A line without its newline; the lines of the transfer are of this form.\<close>

definition is_line :: "string \<Rightarrow> bool" where
  "is_line l \<longleftrightarrow> (\<exists>b. l = b @ [newline] \<and> newline \<notin> set b \<and> length b + 1 < MAXLINE)"

lemma listen_line:
  assumes "is_line l"
  shows "triple (reading fd q (l # ls) n f) listen_server
     (\<lambda>_ s. reading fd q ls n f s \<and> recvline s = l) (\<lambda>_ _. False)"
proof -
  have run: "\<exists>t. listen_server s = (Inr 0, t) \<and> reading fd q ls n f t \<and> recvline t = l"
    if R: "reading fd q (l # ls) n f s" for s
  proof -
    from assms obtain b where b: "l = b @ [newline]" "newline \<notin> set b" "length b + 1 < MAXLINE" by (auto simp: is_line_def)
    have p: "buffer_ok s" "pending fd s = b @ newline # concat ls" using R b by (simp_all add: reading_def)
    from client_chan.recv_line [OF p b(2,3)] obtain t where t: "client_read_and_ack fd s = (Inr 0, t)"
      "recvline t = l" "buffer_ok t" "pending fd t = concat ls" unfolding b(1) by blast
    have "me t = me s" using client_more [OF client_chan.recv_more [OF t(1)]] by simp
    then have "reading fd q ls n f t" using R t by (simp add: reading_def)
    moreover have "listen_server s = (Inr 0, t)" using R t(1) by (simp add: listen_server_def my_def reading_def)
    ultimately show ?thesis using t(2) by blast
  qed
  show ?thesis by (rule tripleI) (use run in fastforce)+
qed

lemma reading_world:
  assumes "reading fd q ls n f s" and "io.more t = io.more s" and "buffer_ok t = buffer_ok s"
    and "pending fd t = pending fd s"
  shows "reading fd q ls n f t"
  using assms client_more [OF assms(2)] by (simp add: reading_def)

lemma printf_reading: "triple (\<lambda>s. reading fd q ls n f s \<and> recvline s = l) (printf m)
    (\<lambda>_ s. reading fd q ls n f s \<and> recvline s = l) (\<lambda>_ _. False)"
  unfolding printf_def by (rule triple_modp) (auto elim!: reading_world)

lemma clear_reading: "triple (reading fd q ls n f) clear_recvline (\<lambda>_. reading fd q ls n f) (\<lambda>_ _. False)"
  unfolding clear_recvline_def set_recvline_def by (rule triple_modp) (auto elim!: reading_world)

lemma me_world [simp]:
  "buffer_ok (s\<lparr>me := x\<rparr>) = buffer_ok s" "pending fd (s\<lparr>me := x\<rparr>) = pending fd s"
  "unread fd (s\<lparr>me := x\<rparr>) = unread fd s"
  for s :: client
  by (simp_all add: buffer_ok_def pending_def buffered_def unread_def)

lemma update_me_run:
  "update_me f s = (case f (me s) of None \<Rightarrow> (Inl Undefined, s) | Some q \<Rightarrow> (Inr (), s\<lparr>me := q\<rparr>))"
  by (simp add: update_me_def my_def split: option.splits)

lemma tile_line_is_line: "int_range (type m) \<Longrightarrow> int_range (number m) \<Longrightarrow> good m \<Longrightarrow> is_line (tile_line m)"
proof -
  assume g: "good m"
  have "length (show_int (type m)) = 1" "length (show_int (number m)) = 1"
    using g by (auto simp: good_def playable_def is_flower_def show_int_digit)
  then show ?thesis
    unfolding is_line_def tile_line_eq using show_int_no_newline
    by (intro exI [of _ "show_int (type m) @ CHR '' '' # show_int (number m)"]) (simp add: MAXLINE_def newline_def del: newline_simps)
qed

lemma flower_line_is_line: "good m \<Longrightarrow> is_line (flower_line m)"
proof -
  assume g: "good m"
  have "length (show_int (number m)) = 1"
    using g by (auto simp: good_def playable_def is_flower_def show_int_digit)
  then show ?thesis
    unfolding is_line_def flower_line_def using show_int_no_newline
    by (intro exI [of _ "show_int (number m)"]) (simp add: MAXLINE_def)
qed

lemma last_line_is_line: "is_line last_line"
  unfolding is_line_def last_line_def
  by (rule exI [of _ "''transfer complete''"]) (simp add: MAXLINE_def newline_def del: newline_simps)

text \<open>One tile of the hand.\<close>

lemma get_one_reads:
  assumes i: "i < 16" and len: "length (decks q) = 20" and g: "good (decks q ! i)"
  shows "triple (reading fd q (tile_line (decks q ! i) # ls) i f) (get_one (int i) tn)
     (\<lambda>_. reading fd q ls (Suc i) f) (\<lambda>_ _. False)"
proof -
  let ?m = "decks q ! i"
  have r: "int_range (type ?m)" "int_range (number ?m)" using good_range [OF g] by simp_all
  define put where "put = (\<lambda>p. do { m \<leftarrow> at (decks p) (int i); put_deck (int i) (m\<lparr>type := type ?m, number := number ?m\<rparr>) p })"
  have upd: "triple (reading fd q ls i f) (update_me put) (\<lambda>_. reading fd q ls (Suc i) f) (\<lambda>_ _. False)"
  proof (rule tripleI)
    fix s t and u :: unit
    assume R: "reading fd q ls i f s" and run: "update_me put s = (Inr u, t)"
    have l: "i < length (decks (me s))" "i < length (decks q)" using R i len by (auto simp: reading_def)
    have t: "t = s\<lparr>me := (me s)\<lparr>decks := (decks (me s))[i := (decks (me s) ! i)\<lparr>type := type ?m, number := number ?m\<rparr>]\<rparr>\<rparr>"
      using run l by (simp add: update_me_run put_def at_eq put_deck_def set_at_eq split: option.splits)
    have "take (Suc i) (decks q) = take i (decks q) @ [?m]" using l(2) by (simp add: take_Suc_conv_app_nth)
    then show "reading fd q ls (Suc i) f t"
      using R l i unfolding t by (simp add: reading_def take_snoc_update kind_def)
  next
    fix s e t assume R: "reading fd q ls i f s" and run: "update_me put s = (Inl e, t)"
    then show False using i by (simp add: update_me_run put_def at_eq put_deck_def set_at_eq reading_def)
  qed
  have parse: "triple (\<lambda>s. reading fd q ls i f s \<and> recvline s = tile_line ?m) (bindp (getp recvline) (\<lambda>l.
     bindp (liftp (scan_two_locals tn l)) (\<lambda>(t, n). bindp (liftp t) (\<lambda>t'. bindp (liftp n) (\<lambda>n'.
     thenp (update_me (\<lambda>q. do { m \<leftarrow> at (decks q) (int i); put_deck (int i) (m\<lparr>type := t', number := n'\<rparr>) q }))
     (thenp clear_recvline (ret (t, n))))))))
     (\<lambda>_. reading fd q ls (Suc i) f) (\<lambda>_ _. False)"
  proof (rule triple_bind_get)
    fix l
    show "triple (\<lambda>s. (reading fd q ls i f s \<and> recvline s = tile_line ?m) \<and> recvline s = l)
     (bindp (liftp (scan_two_locals tn l)) (\<lambda>(t, n). bindp (liftp t) (\<lambda>t'. bindp (liftp n) (\<lambda>n'.
     thenp (update_me (\<lambda>q. do { m \<leftarrow> at (decks q) (int i); put_deck (int i) (m\<lparr>type := t', number := n'\<rparr>) q }))
     (thenp clear_recvline (ret (t, n)))))))
     (\<lambda>_. reading fd q ls (Suc i) f) (\<lambda>_ _. False)"
    proof (cases "l = tile_line ?m")
      case True
      have body: "triple (reading fd q ls i f) (thenp (update_me put) (thenp clear_recvline (ret (Some (type ?m), Some (number ?m)))))
        (\<lambda>_. reading fd q ls (Suc i) f) (\<lambda>_ _. False)"
        by (intro triple_thenp [OF upd] triple_thenp [OF clear_reading] triple_ret)
      have eq: "bindp (liftp (Some x)) g = g x" for x g by (rule ext) simp
      show ?thesis
        unfolding True scan_locals_line [OF r] eq prod.case put_def [symmetric]
        by (rule triple_pre [OF body]) simp
    next
      case False
      then show ?thesis by (intro triple_vacuous) auto
    qed
  qed
  show ?thesis
  proof (cases tn)
    case (Pair t n)
    show ?thesis
      unfolding get_one_def Pair prod.case
      by (rule triple_thenp [OF listen_line [OF tile_line_is_line [OF r g]]], rule triple_thenp [OF printf_reading],
          rule parse [unfolded Pair])
  qed
qed

lemma get_hand_reads:
  assumes len: "length (decks q) = 20" and g: "\<forall>k < 16. good (decks q ! k)"
  shows "triple (reading fd q (map tile_line (take 16 (decks q)) @ ls) 0 f) (foldp [0..15] get_one (None, None))
     (\<lambda>_. reading fd q ls 16 f) (\<lambda>_ _. False)"
proof -
  let ?J = "\<lambda>(i :: int) (tn :: int option \<times> int option).
    reading fd q (map tile_line (drop (nat i) (take 16 (decks q))) @ ls) (nat i) f"
  have "triple (?J 0 (None, None)) (foldp [0..16 - 1] get_one (None, None)) (?J 16) (\<lambda>_ _. False)"
  proof (rule triple_foldp_upto [where J = ?J])
    fix i :: int and tn :: "int option \<times> int option" assume i: "0 \<le> i" "i < 16"
    then have k: "nat i < 16" "int (nat i) = i" by simp_all
    have "drop (nat i) (take 16 (decks q)) = decks q ! nat i # drop (Suc (nat i)) (take 16 (decks q))"
      using k(1) len by (subst Cons_nth_drop_Suc [symmetric]) simp_all
    moreover have "nat (i + 1) = Suc (nat i)" using i by simp
    ultimately show "triple (?J i tn) (get_one i tn) (?J (i + 1)) (\<lambda>_ _. False)"
      using get_one_reads [OF k(1) len, of fd "map tile_line (drop (Suc (nat i)) (take 16 (decks q))) @ ls" f tn] g k
      by simp
  qed simp
  then show ?thesis using len by simp
qed

subsection \<open>The flowers\<close>

lemma flower_is_not_last:
  assumes "good m"
  shows "\<not> strncmp_eq (flower_line m) ''transfer complete\<newline>'' 18"
proof -
  have "show_int (number m) = [digit_char (nat (number m))]" "nat (number m) < 10"
    using assms by (auto simp: good_def playable_def is_flower_def intro!: show_int_digit)
  then have "take 1 (cstr (flower_line m)) = [digit_char (nat (number m))]" "is_digit (digit_char (nat (number m)))"
    by (simp_all add: flower_line_def)
  moreover have "\<not> is_digit (CHR ''t'')" by (simp add: is_digit_def)
  ultimately show ?thesis
    using \<open>nat (number m) < 10\<close> \<open>show_int (number m) = _\<close>
    by (auto simp: strncmp_eq_def flower_line_def cstr_def NUL_def)
qed

lemma recv_is_reading:
  "triple (\<lambda>s. reading fd q ls n f s \<and> recvline s = l) (recv_is x k)
     (\<lambda>b s. reading fd q ls n f s \<and> recvline s = l \<and> b = strncmp_eq l x k) E"
  unfolding recv_is_def by (rule triple_getp) auto

lemma get_flowers_reads:
  assumes g: "\<forall>m \<in> set ms. is_flower m" and fs: "drop f (take k (flowers q)) = ms" "k \<le> length (flowers q)"
    "length (flowers q) = 8" "f \<le> k"
  shows "length ms < fuel \<Longrightarrow>
     triple (reading fd q (map flower_line ms @ [last_line]) 16 f) (get_flowers fuel v)
       (\<lambda>_. reading fd q [] 16 k) (\<lambda>_ _. False)"
  using g fs
proof (induction ms arbitrary: f fuel v)
  case Nil
  then obtain n where fuel: "fuel = Suc n" by (cases fuel) auto
  have f: "f = k" using Nil.prems by simp
  have eq: "get_flowers (Suc n) v = thenp listen_server (bindp (recv_is ''transfer complete\<newline>'' 18) (\<lambda>done.
     if done then clear_recvline
     else bindp (getp recvline) (\<lambda>l. bindp (liftp (scan_local v l)) (\<lambda>(n', _). bindp (liftp n') (\<lambda>w.
       thenp (update_me (push_flower_number w)) (thenp clear_recvline (get_flowers n n')))))))"
    by (rule ext) simp
  have yes: "strncmp_eq last_line ''transfer complete\<newline>'' 18" by (simp add: last_line_def)
  have pre: "map flower_line [] @ [last_line] = [last_line]" by simp
  show ?case
    unfolding fuel eq f pre
  proof (rule triple_thenp [OF listen_line [OF last_line_is_line]], rule triple_bindp [OF recv_is_reading])
    fix d
    show "triple (\<lambda>s. reading fd q [] 16 k s \<and> recvline s = last_line \<and>
        d = strncmp_eq last_line ''transfer complete\<newline>'' 18)
      (if d then clear_recvline else bindp (getp recvline) (\<lambda>l. bindp (liftp (scan_local v l)) (\<lambda>(n', _).
       bindp (liftp n') (\<lambda>w. thenp (update_me (push_flower_number w)) (thenp clear_recvline (get_flowers n n'))))))
      (\<lambda>_. reading fd q [] 16 k) (\<lambda>_ _. False)"
      using yes by (cases d) (auto intro: triple_vacuous triple_pre [OF clear_reading])
  qed
next
  case (Cons m ms)
  then obtain n where fuel: "fuel = Suc n" "length ms < n" by (cases fuel) auto
  have g: "good m" using Cons.prems by (simp add: good_def)
  have r: "int_range (number m)" using good_range [OF g] by simp
  have fl: "type m = FLOWER" using Cons.prems by (simp add: is_flower_def)
  have fk: "f < k" using Cons.prems(3) by (cases "f < k") auto
  have cons: "drop f (take k (flowers q)) = flowers q ! f # drop (Suc f) (take k (flowers q))"
    using fk Cons.prems(4) by (subst Cons_nth_drop_Suc [symmetric]) simp_all
  then have nth: "flowers q ! f = m" "drop (Suc f) (take k (flowers q)) = ms" using Cons.prems(3) by simp_all
  have scan: "scan_local v (flower_line m) = Some (Some (number m), Some [newline])"
    by (simp add: scan_local_def flower_line_def scan_number r)
  have no: "\<not> strncmp_eq (flower_line m) ''transfer complete\<newline>'' 18" by (rule flower_is_not_last [OF g])
  let ?ls = "map flower_line ms @ [last_line]"
  have upd: "triple (reading fd q ?ls 16 f) (update_me (push_flower_number (number m)))
      (\<lambda>_. reading fd q ?ls 16 (Suc f)) (\<lambda>_ _. False)"
  proof (rule tripleI)
    fix s t and u :: unit
    assume R: "reading fd q ?ls 16 f s" and run: "update_me (push_flower_number (number m)) s = (Inr u, t)"
    have l: "f < length (flowers (me s))" using R fk Cons.prems by (simp add: reading_def)
    then have t: "t = s\<lparr>me := (me s)\<lparr>flowers := (flowers (me s))[f := (flowers (me s) ! f)\<lparr>type := FLOWER, number := number m\<rparr>],
        flower_index := int f + 1\<rparr>\<rparr>"
      using run R by (simp add: update_me_run push_flower_number_def push_flower_def at_eq set_at_eq reading_def del: FLOWER_def split: option.splits)
    have "take (Suc f) (flowers q) = take f (flowers q) @ [m]"
      using nth(1) fk Cons.prems by (simp add: take_Suc_conv_app_nth)
    then show "reading fd q ?ls 16 (Suc f) t"
      using R l fl unfolding t by (simp add: reading_def take_snoc_update kind_def)
  next
    fix s e t assume R: "reading fd q ?ls 16 f s" and run: "update_me (push_flower_number (number m)) s = (Inl e, t)"
    then show False using fk Cons.prems
      by (simp add: update_me_run push_flower_number_def push_flower_def at_eq set_at_eq reading_def)
  qed
  have "triple (reading fd q ?ls 16 (Suc f)) (get_flowers n (Some (number m))) (\<lambda>_. reading fd q [] 16 k) (\<lambda>_ _. False)"
    by (rule Cons.IH) (use Cons.prems fuel fk nth in auto)
  note rest = triple_thenp [OF upd triple_thenp [OF clear_reading this]]
  have eq: "get_flowers (Suc n) v = thenp listen_server (bindp (recv_is ''transfer complete\<newline>'' 18) (\<lambda>done.
     if done then clear_recvline
     else bindp (getp recvline) (\<lambda>l. bindp (liftp (scan_local v l)) (\<lambda>(n', _). bindp (liftp n') (\<lambda>w.
       thenp (update_me (push_flower_number w)) (thenp clear_recvline (get_flowers n n')))))))"
    by (rule ext) simp
  have Some: "bindp (liftp (Some x)) g = g x" for x g by (rule ext) simp
  have after: "triple (\<lambda>s. reading fd q ?ls 16 f s \<and> recvline s = flower_line m)
     (bindp (getp recvline) (\<lambda>l. bindp (liftp (scan_local v l)) (\<lambda>(n', _). bindp (liftp n') (\<lambda>w.
       thenp (update_me (push_flower_number w)) (thenp clear_recvline (get_flowers n n'))))))
     (\<lambda>_. reading fd q [] 16 k) (\<lambda>_ _. False)"
  proof (rule triple_bind_get)
    fix l
    show "triple (\<lambda>s. (reading fd q ?ls 16 f s \<and> recvline s = flower_line m) \<and> recvline s = l)
     (bindp (liftp (scan_local v l)) (\<lambda>(n', _). bindp (liftp n') (\<lambda>w.
       thenp (update_me (push_flower_number w)) (thenp clear_recvline (get_flowers n n')))))
     (\<lambda>_. reading fd q [] 16 k) (\<lambda>_ _. False)"
    proof (cases "l = flower_line m")
      case True
      show ?thesis unfolding True scan Some prod.case by (rule triple_pre [OF rest]) simp
    qed (intro triple_vacuous, auto)
  qed
  have pre: "map flower_line (m # ms) @ [last_line] = flower_line m # ?ls" by simp
  show ?case
    unfolding fuel(1) eq pre
  proof (rule triple_thenp [OF listen_line [OF flower_line_is_line [OF g]]], rule triple_bindp [OF recv_is_reading])
    fix d
    show "triple (\<lambda>s. reading fd q ?ls 16 f s \<and> recvline s = flower_line m \<and>
        d = strncmp_eq (flower_line m) ''transfer complete\<newline>'' 18)
      (if d then clear_recvline else bindp (getp recvline) (\<lambda>l. bindp (liftp (scan_local v l)) (\<lambda>(n', _).
       bindp (liftp n') (\<lambda>w. thenp (update_me (push_flower_number w)) (thenp clear_recvline (get_flowers n n'))))))
      (\<lambda>_. reading fd q [] 16 k) (\<lambda>_ _. False)"
      using no by (cases d) (auto intro: triple_vacuous triple_pre [OF after])
  qed
qed

lemma stream_size: "length (stream es) \<le> sum_list (map event_size es)"
  by (induction es rule: stream.induct) auto

lemma pending_unread: "buffer_ok s \<Longrightarrow> length (pending fd s) \<le> unread fd s"
  using stream_size [of "net s fd"] by (auto simp: pending_def buffered_def unread_def buffer_ok_def)

lemma flowers_unread:
  assumes "reading fd q (map flower_line ms @ ls) n f s"
  shows "length ms < Suc (unread fd s)"
proof -
  have "length ms \<le> length (concat (map flower_line ms))" by (induction ms) (auto simp: flower_line_def)
  also have "\<dots> \<le> length (pending fd s)" using assms by (simp add: reading_def)
  also have "\<dots> \<le> unread fd s" using assms by (intro pending_unread) (simp add: reading_def)
  finally show ?thesis by simp
qed

lemma get_decks_reads:
  assumes "length (decks q) = 20" and "\<forall>k < 16. good (decks q ! k)" and "length (flowers q) = 8"
    and "0 \<le> flower_index q" "flower_index q \<le> 8"
    and "\<forall>m \<in> set (take (nat (flower_index q)) (flowers q)). is_flower m"
  shows "triple (reading fd q (transfer_lines q) 0 0) get_decks
     (\<lambda>v s. v = 0 \<and> reading fd q [] 16 (nat (flower_index q)) s) (\<lambda>_ _. False)"
proof -
  let ?ms = "take (nat (flower_index q)) (flowers q)"
  let ?ls = "map flower_line ?ms @ [last_line]"
  have flowers: "triple (reading fd q ?ls 16 0) (bindp socket_unread (\<lambda>k. thenp (get_flowers (Suc k) n) (ret 0)))
      (\<lambda>v s. v = 0 \<and> reading fd q [] 16 (nat (flower_index q)) s) (\<lambda>_ _. False)" for n
    unfolding socket_unread_def
  proof (rule triple_bind_get)
    fix k
    show "triple (\<lambda>s. reading fd q ?ls 16 0 s \<and> unread (player_fd (me s)) s = k) (thenp (get_flowers (Suc k) n) (ret 0))
      (\<lambda>v s. v = 0 \<and> reading fd q [] 16 (nat (flower_index q)) s) (\<lambda>_ _. False)"
    proof (cases "length ?ms < Suc k")
      case True
      have step: "triple (reading fd q ?ls 16 0) (get_flowers (Suc k) n) (\<lambda>_. reading fd q [] 16 (nat (flower_index q))) (\<lambda>_ _. False)"
        by (rule get_flowers_reads [OF assms(6) _ _ assms(3) _ True]) (use assms in auto)
      show ?thesis by (rule triple_thenp [OF triple_pre [OF step]]) (auto intro: triple_ret)
    next
      case False
      then have "\<not> (reading fd q ?ls 16 0 s \<and> unread (player_fd (me s)) s = k)" for s
        using flowers_unread [of fd q ?ms "[last_line]" 16 0 s] by (auto simp: reading_def)
      then show ?thesis by (rule triple_vacuous)
    qed
  qed
  show ?thesis
    unfolding get_decks_def transfer_lines_def
    by (rule triple_bindp [OF get_hand_reads [OF assms(1,2)]]) (use flowers in \<open>auto intro: triple_case_prod\<close>)
qed

subsection \<open>The broadcast of a discard\<close>

lemma int_cases9:
  assumes "1 \<le> n" and "n \<le> 9"
  shows "n \<in> {1, 2, 3, 4, 5, 6, 7, 8, 9 :: int}"
  using assms by auto

text \<open>All seats and kinds in one evaluation; the old discarded tile does not matter for the kind.\<close>

lemma parse_board: "kind (parse_discard l (b\<lparr>priority := r\<rparr>)) = kind (parse_discard l b)"
  by (simp add: parse_discard_def kind_def Let_def)

definition broadcast_ok :: "int \<Rightarrow> int \<times> int \<Rightarrow> bool" where
  "broadcast_ok p k =
     (case discard_text p \<lparr>type = fst k, number = snd k, priority = 0\<rparr> of
        None \<Rightarrow> False
      | Some l \<Rightarrow> length l < 100 \<and> list_all (\<lambda>c. c \<noteq> NUL) l \<and>
          l \<noteq> [] \<and> last l = newline \<and> list_all (\<lambda>c. c \<noteq> newline) (butlast l) \<and>
          strncmp_eq l ''(Discard) '' 6 \<and> \<not> strncmp_eq l ''your turn\<newline>'' 10 \<and>
          char_at l 29 \<in> set (if fst k = 4 then ''ESWNZFB'' else ''123456789'') \<and>
          kind (parse_discard l null_mj) = k)"

definition playable_kinds :: "(int \<times> int) list" where
  "playable_kinds = map (Pair 1) [1..9] @ map (Pair 2) [1..9] @ map (Pair 3) [1..9] @ map (Pair 4) [1..7]"

lemma broadcasts_0: "list_all (broadcast_ok 0) playable_kinds" by code_simp
lemma broadcasts_1: "list_all (broadcast_ok 1) playable_kinds" by code_simp
lemma broadcasts_2: "list_all (broadcast_ok 2) playable_kinds" by code_simp
lemma broadcasts_3: "list_all (broadcast_ok 3) playable_kinds" by code_simp

lemma playable_kinds_iff:
  assumes "playable d"
  shows "kind d \<in> set playable_kinds"
proof -
  have "type d = 1 \<or> type d = 2 \<or> type d = 3 \<or> type d = 4" using assms by (auto simp: playable_def)
  then show ?thesis using assms by (elim disjE) (auto simp: playable_def playable_kinds_def kind_def)
qed

lemma discard_text_kind: "discard_text p \<lparr>type = type d, number = number d, priority = 0\<rparr> = discard_text p d"
  unfolding discard_text_def mj.select_convs by (rule refl)

lemma vsnprintf_short: "NUL \<notin> set l \<Longrightarrow> length l < MAXLINE \<Longrightarrow> vsnprintf_line l = l"
  by (simp add: vsnprintf_line_def cstr_id)

lemma parse_any_board:
  assumes "char_at l 29 \<in> set (if t = (4 :: int) then ''ESWNZFB'' else ''123456789'')"
  shows "kind (parse_discard l b) = kind (parse_discard l null_mj)"
proof -
  have "honour_number c x = honour_number c y" if "c \<in> set ''ESWNZFB''" for c x y
    using that by (auto simp: honour_number_def)
  moreover have "\<not> (char_int (CHR ''A'') \<le> char_int c \<and> char_int c \<le> char_int (CHR ''Z''))"
    if "c \<in> set ''123456789''" for c
    using that by (auto simp: char_int_def)
  ultimately show ?thesis
    using assms unfolding parse_discard_def Let_def
    by (cases "t = 4") (auto simp: kind_def simp del: set_simps split: if_splits)
qed

text \<open>
  Every broadcast of a discard is understood. For each seat and each of the 34 kinds of playable tiles, the line
  that the server formats fits the send buffer and the client, which reads it off fixed columns, has the kind of
  the discarded tile afterwards, whatever it had before.
\<close>

lemma discard_line:
  assumes "p \<in> {0..3}" and "playable d"
  obtains l where "discard_text p d = Some l" and "length l < 100" and "NUL \<notin> set l"
    and "l \<noteq> []" and "last l = newline" and "newline \<notin> set (butlast l)"
    and "strncmp_eq l ''(Discard) '' 6" and "\<not> strncmp_eq l ''your turn\<newline>'' 10" and "\<And>b. kind (parse_discard l b) = kind d"
proof -
  have p: "p = 0 \<or> p = 1 \<or> p = 2 \<or> p = 3" using assms(1) by auto
  then have "broadcast_ok p (kind d)"
    using broadcasts_0 broadcasts_1 broadcasts_2 broadcasts_3 playable_kinds_iff [OF assms(2)]
    by (elim disjE) (simp_all only: list_all_iff)
  then obtain l where l: "discard_text p \<lparr>type = type d, number = number d, priority = 0\<rparr> = Some l"
    "length l < 100" "list_all (\<lambda>c. c \<noteq> NUL) l" "l \<noteq> []" "last l = newline" "list_all (\<lambda>c. c \<noteq> newline) (butlast l)"
    "strncmp_eq l ''(Discard) '' 6" "\<not> strncmp_eq l ''your turn\<newline>'' 10"
    "char_at l 29 \<in> set (if type d = 4 then ''ESWNZFB'' else ''123456789'')"
    "kind (parse_discard l null_mj) = kind d"
    by (auto simp: broadcast_ok_def kind_def simp del: set_simps split: option.splits)
  then show thesis
    using parse_any_board [OF l(9)] by (intro that [of l]) (auto simp: list_all_iff simp flip: discard_text_kind [of p d])
qed

subsection \<open>Properties\<close>

text \<open>The flowers of a dealt player have the numbers of flowers.\<close>

lemma dealt_flowers:
  assumes "dealt s" and p: "p \<in> {0..3}"
    and m: "m \<in> set (take (nat (flower_index (players s p))) (flowers (players s p)))"
  shows "is_flower m"
proof -
  have "kind m \<in># holdings (players s p)" using m by (simp add: holdings_def kinds_def)
  then have "kind m \<in># table s" by (rule mset_subset_eqD [OF holdings_table [OF p]])
  then have "good m" using assms(1) by (intro all_kinds_good) (simp add: dealt_def full_def)
  moreover have "type m = FLOWER" using assms(1) p m by (auto simp: dealt_def)
  ultimately show ?thesis by (auto simp: good_def playable_def)
qed

lemma dealt_hand_good: "dealt s \<Longrightarrow> p \<in> {0..3} \<Longrightarrow> k < 16 \<Longrightarrow> good (decks (players s p) ! k)"
proof -
  assume "dealt s" "p \<in> {0..3}" "k < 16"
  then have "hand_ok (players s p)" "normal_capacity (players s p) = 16" "k < 20" by (auto simp: dealt_def)
  then show ?thesis using \<open>k < 16\<close> by (auto simp: hand_ok_def good_def)
qed

lemma line_sent_whole: "good m \<Longrightarrow> vsnprintf_line (tile_line m) = tile_line m"
  "good m \<Longrightarrow> vsnprintf_line (flower_line m) = flower_line m" "vsnprintf_line last_line = last_line"
proof -
  have short: "vsnprintf_line l = l" if "is_line l" "NUL \<notin> set l" for l
    using that by (intro vsnprintf_short) (auto simp: is_line_def)
  have ne: "NUL \<noteq> CHR '' ''" "NUL \<noteq> newline" using space_simps(1) newline_simps(2) by metis+
  show "vsnprintf_line (tile_line m) = tile_line m" if "good m"
    by (rule short) (use that good_range tile_line_is_line ne in \<open>auto simp: tile_line_eq\<close>)
  show "vsnprintf_line (flower_line m) = flower_line m" if "good m"
    by (rule short) (use that flower_line_is_line ne in \<open>auto simp: flower_line_def\<close>)
  show "vsnprintf_line last_line = last_line"
    by (rule short [OF last_line_is_line]) (simp add: last_line_def NUL_def newline_def del: newline_simps)
qed

end
