(* ===== verification/Mirror.thy ===== *)
theory Mirror
  imports Melds Protocol
begin

text \<open>
  The client repeats on its own tiles what the server does on its copy of them. Neither side sends
  the outcome, so the game is only playable when both do the same. Here: two players' data agree
  up to what never leaves the server (the priorities of the shuffle, the descriptor and the sea) and
  to the flowers, which no rule looks at again: every change of a hand respects that agreement, and so the client's handlers simulate the
  server's.
\<close>

subsection \<open>Up to what the other side does not know\<close>

definition bare :: "mj \<Rightarrow> mj" where
  "bare m = m\<lparr>priority := 0\<rparr>"

definition face :: "player \<Rightarrow> player" where
  "face q = q\<lparr>player_fd := 0, sea_index := 0, sea := [], decks := map bare (decks q),
     flowers := map (\<lambda>_. null_mj) (flowers q), door := map bare (door q)\<rparr>"

definition mirrors :: "player \<Rightarrow> player \<Rightarrow> bool" where
  "mirrors q c \<longleftrightarrow> face q = face c"

lemma bare_simps [simp]:
  "type (bare m) = type m" "number (bare m) = number m" "kind (bare m) = kind m"
  "clear_mj (bare m) = bare (clear_mj m)" "is_null (bare m) = is_null m" "deck_key (bare m) = deck_key m"
  by (simp_all add: bare_def kind_def clear_mj_def is_null_def deck_key_def)

lemma bare_eq [simp]: "bare a = bare b \<longleftrightarrow> kind a = kind b"
  by (cases a; cases b) (simp add: bare_def kind_def)

lemma face_simps [simp]:
  "normal_capacity (face q) = normal_capacity q" "door_index (face q) = door_index q"
  "flower_index (face q) = flower_index q" "decks (face q) = map bare (decks q)"
  "flowers (face q) = map (\<lambda>_. null_mj) (flowers q)" "door (face q) = map bare (door q)"
  by (simp_all add: face_def)

lemma at_map [simp]: "at (map f xs) i = map_option f (at xs i)"
  by (auto simp: at_def)

lemma set_at_map [simp]: "set_at (map f xs) i (f v) = map_option (map f) (set_at xs i v)"
  by (simp add: set_at_def map_update)

subsection \<open>The sort does not look at the priority\<close>

lemma scan_left_map: "scan_left key (map f xs) pivot l r = scan_left (key \<circ> f) xs pivot l r"
proof (induction "key \<circ> f" xs pivot l r rule: scan_left.induct)
  case (1 xs pivot l r)
  then show ?case
    by (subst scan_left.simps, subst (2) scan_left.simps) (cases "at xs l"; simp del: at_Some at_None)
qed

lemma scan_right_map: "scan_right key (map f xs) pivot l r = scan_right (key \<circ> f) xs pivot l r"
proof (induction "key \<circ> f" xs pivot l r rule: scan_right.induct)
  case (1 xs pivot l r)
  then show ?case
    by (subst scan_right.simps, subst (2) scan_right.simps) (cases "at xs r"; simp del: at_Some at_None)
qed

lemma swap_at_map: "swap_at (map f xs) i j = map_option (map f) (swap_at xs i j)"
  by (cases "at xs i"; cases "at xs j"; cases "set_at xs i (the (at xs j))")
    (simp_all add: swap_at_def del: at_Some at_None set_at_Some set_at_None)

lemma part_loop_map:
  "part_loop key (map f xs) pivot l r = map_option (map_prod (map f) id) (part_loop (key \<circ> f) xs pivot l r)"
proof (induction "key \<circ> f" xs pivot l r rule: part_loop.induct)
  case (1 xs pivot l r)
  show ?case
  proof (cases "l \<le> r")
    case True
    show ?thesis
    proof (cases "scan_left (key \<circ> f) xs pivot l r")
      case (Some a)
      show ?thesis
      proof (cases "scan_right (key \<circ> f) xs pivot a r")
        case (Some b)
        let ?s = "if a < b then swap_at xs a b else Some xs"
        have m: "(if a < b then swap_at (map f xs) a b else Some (map f xs)) = map_option (map f) ?s"
          by (simp add: swap_at_map)
        show ?thesis
        proof (cases ?s)
          case None
          then show ?thesis
            using True \<open>scan_left _ _ _ _ _ = _\<close> Some m
            by (subst part_loop.simps, subst (2) part_loop.simps) (simp add: scan_left_map scan_right_map)
        next
          case S: (Some ys)
          show ?thesis
            using True \<open>scan_left _ _ _ _ _ = _\<close> Some m S "1.hyps" [OF True \<open>scan_left _ _ _ _ _ = _\<close> Some S]
            by (subst part_loop.simps, subst (2) part_loop.simps) (simp add: scan_left_map scan_right_map)
        qed
      qed (use True \<open>scan_left _ _ _ _ _ = _\<close> in \<open>subst part_loop.simps, subst (2) part_loop.simps,
        simp add: scan_left_map scan_right_map\<close>)
    qed (use True in \<open>subst part_loop.simps, subst (2) part_loop.simps, simp add: scan_left_map\<close>)
  qed (subst part_loop.simps, subst (2) part_loop.simps, simp)
qed

lemma quick_sort_map: "quick_sort key (map f xs) lo hi = map_option (map f) (quick_sort (key \<circ> f) xs lo hi)"
proof (induction "key \<circ> f" xs lo hi rule: quick_sort.induct)
  case (1 xs lo hi)
  show ?case
  proof (cases "lo \<ge> hi")
    case False
    note step = quick_sort.simps [of key "map f xs"] quick_sort.simps [of "key \<circ> f" xs]
    show ?thesis
    proof (cases "at xs lo")
      case a: (Some p)
      show ?thesis
      proof (cases "part_loop (key \<circ> f) xs (key (f p)) (lo + 1) hi")
        case b: (Some yr)
        obtain ys r where yr: "yr = (ys, r)" by (cases yr)
        show ?thesis
        proof (cases "swap_at ys lo r")
          case c: (Some zs)
          have b': "part_loop (key \<circ> f) xs ((key \<circ> f) p) (lo + 1) hi = Some yr" using b by simp
          note ih1 = "1.hyps"(1) [OF False a b' yr [symmetric] c]
          show ?thesis
          proof (cases "quick_sort (key \<circ> f) zs lo (r - 1)")
            case d: (Some us)
            show ?thesis
              using False a b yr c d ih1 "1.hyps"(2) [OF False a b' yr [symmetric] c d]
              by (simp add: step part_loop_map swap_at_map del: at_Some at_None)
          qed (use False a b yr c ih1 in \<open>simp add: step part_loop_map swap_at_map del: at_Some at_None\<close>)
        qed (use False a b yr in \<open>simp add: step part_loop_map swap_at_map del: at_Some at_None\<close>)
      qed (use False a in \<open>simp add: step part_loop_map del: at_Some at_None\<close>)
    qed (use False in \<open>simp add: step del: at_Some at_None\<close>)
  qed (simp add: quick_sort.simps)
qed

lemma deck_sort_bare: "decks_quick_sort (map bare xs) lo hi = map_option (map bare) (decks_quick_sort xs lo hi)"
proof -
  have "deck_key \<circ> bare = deck_key" by (rule ext) simp
  then show ?thesis by (simp add: decks_quick_sort_def quick_sort_map)
qed

subsection \<open>Every change of a player respects the agreement\<close>

named_theorems faces "how a change acts on the common part of a player"

lemma face_updates [faces]:
  "(face q)\<lparr>decks := map bare d\<rparr> = face (q\<lparr>decks := d\<rparr>)"
  "(face q)\<lparr>door := map bare d\<rparr> = face (q\<lparr>door := d\<rparr>)"
  "(face q)\<lparr>door_index := n\<rparr> = face (q\<lparr>door_index := n\<rparr>)"
  "(face q)\<lparr>flower_index := n\<rparr> = face (q\<lparr>flower_index := n\<rparr>)"
  "(face q)\<lparr>normal_capacity := n\<rparr> = face (q\<lparr>normal_capacity := n\<rparr>)"
  by (simp_all add: face_def)

lemma bind_map_option [faces]: "Option.bind (map_option h x) g = Option.bind x (\<lambda>y. g (h y))"
  by (cases x) simp_all

lemma map_option_bind [faces]: "map_option h (Option.bind x g) = Option.bind x (\<lambda>y. map_option h (g y))"
  by (cases x) simp_all

lemma put_deck_face [faces]: "put_deck i (bare m) (face q) = map_option face (put_deck i m q)"
  by (simp add: put_deck_def faces)

lemma push_door_face [faces]: "push_door (bare m) (face q) = map_option face (push_door m q)"
  by (simp add: push_door_def faces)

lemma clear_deck_face [faces]: "clear_deck i (face q) = map_option face (clear_deck i q)"
  by (simp add: clear_deck_def faces)

lemma swap_deck_face [faces]: "swap_deck i j (face q) = map_option face (swap_deck i j q)"
  by (simp add: swap_deck_def swap_at_map faces)

lemma sort_deck_face [faces]: "sort_deck lo hi (face q) = map_option face (sort_deck lo hi q)"
  by (simp add: sort_deck_def deck_sort_bare faces)

lemma clear_loop_face [faces]:
  "clear_loop (bare m) is need (face q) = map_option face (clear_loop m is need q)"
proof (induction m "is" need q rule: clear_loop.induct)
  case (2 m i "is" need q)
  show ?case
  proof (cases "at (decks q) i")
    case (Some x)
    then show ?thesis using 2
      by (cases "clear_deck i q") (simp_all add: clear_deck_face del: at_Some)
  qed (simp del: at_None)
qed simp

lemma compact_loop_face [faces]:
  "compact_loop base is need (face q) = map_option face (compact_loop base is need q)"
proof (induction base "is" need q rule: compact_loop.induct)
  case (2 base i "is" need q)
  show ?case
  proof (cases "at (decks q) i")
    case (Some x)
    then show ?thesis using 2
      by (cases "swap_deck i (normal_capacity q - base + need) q") (simp_all add: swap_deck_face del: at_Some)
  qed (simp del: at_None)
qed simp

lemma push_door_times_face [faces]:
  "push_door_times k (bare m) (face q) = map_option face (push_door_times k m q)"
proof (induction k arbitrary: q)
  case (Suc k)
  then show ?case by (cases "push_door m q") (simp_all add: push_door_face)
qed simp

text \<open>The client's handlers in the terms of the server's.\<close>

lemma client_remove_is: "client_remove_tile i = remove_tile i"
  by (rule ext) (simp add: client_remove_tile_def remove_tile_def swap_deck_def sort_deck_def)

lemma client_leave_is: "client_leave_three = leave_three"
  by (rule ext) (simp add: client_leave_three_def leave_three_def sort_deck_def)

lemma client_gang_is:
  "client_gang_tiles d q = do {
     q \<leftarrow> push_door_times 4 d q;
     q \<leftarrow> clear_loop d [0..normal_capacity q - 1] 3 q;
     q \<leftarrow> compact_loop 4 [0..normal_capacity q - 1] 3 q;
     sort_deck 0 (normal_capacity q - 4) (q\<lparr>normal_capacity := normal_capacity q - 3\<rparr>)
   }"
  by (simp add: client_gang_tiles_def sort_deck_def Let_def)

lemma client_pong_is:
  "client_pong_tiles d q = do {
     q \<leftarrow> push_door_times 3 d q;
     q \<leftarrow> clear_loop d [0..normal_capacity q - 1] 2 q;
     q \<leftarrow> compact_loop 3 [0..normal_capacity q - 1] 2 q;
     sort_deck 0 (normal_capacity q - 3) (q\<lparr>normal_capacity := normal_capacity q - 3\<rparr>)
   }"
  by (simp add: client_pong_tiles_def sort_deck_def Let_def)

lemma remove_tile_face [faces]: "remove_tile i (face q) = map_option face (remove_tile i q)"
  by (simp add: remove_tile_def faces)

lemma client_gang_face [faces]: "client_gang_tiles (bare d) (face q) = map_option face (client_gang_tiles d q)"
  by (simp add: client_gang_is faces)

lemma client_pong_face [faces]: "client_pong_tiles (bare d) (face q) = map_option face (client_pong_tiles d q)"
  by (simp add: client_pong_is faces)

subsection \<open>The client fills the door first\<close>

text \<open>
  The server pushes the target to the door at each match, the client pushes all of them before it
  clears the matches. With enough matches in the hand that is the same.
\<close>

lemma push_door_keeps: "push_door m q = Some q' \<Longrightarrow> decks q' = decks q \<and> normal_capacity q' = normal_capacity q"
  by (auto simp: push_door_def bind_eq_Some_conv)

lemma push_door_times_keeps:
  "push_door_times k m q = Some q' \<Longrightarrow> decks q' = decks q \<and> normal_capacity q' = normal_capacity q"
  by (induction k arbitrary: q) (auto simp: bind_eq_Some_conv dest!: push_door_keeps)

lemma clear_push: "Option.bind (clear_deck i q) (push_door m) = Option.bind (push_door m q) (clear_deck i)"
  by (cases "at (decks q) i"; cases "set_at (door q) (door_index q) m")
    (simp_all add: clear_deck_def put_deck_def push_door_def set_at_def split: if_splits del: at_None at_Some)

lemma clear_push_times:
  "Option.bind (clear_deck i q) (push_door_times k m) = Option.bind (push_door_times k m q) (clear_deck i)"
proof (induction k arbitrary: q)
  case 0
  have "push_door_times 0 m = Some" by (rule ext) simp
  then show ?case by simp
next
  case (Suc k)
  have "Option.bind (clear_deck i q) (push_door_times (Suc k) m) =
      Option.bind (Option.bind (clear_deck i q) (push_door m)) (push_door_times k m)"
  proof -
    have "push_door_times (Suc k) m = (\<lambda>q. Option.bind (push_door m q) (push_door_times k m))"
      by (rule ext) simp
    then show ?thesis by simp
  qed
  also have "\<dots> = Option.bind (Option.bind (push_door m q) (clear_deck i)) (push_door_times k m)"
    by (simp only: clear_push)
  also have "\<dots> = Option.bind (push_door m q) (\<lambda>q. Option.bind (clear_deck i q) (push_door_times k m))"
    by simp
  also have "\<dots> = Option.bind (push_door m q) (\<lambda>q. Option.bind (push_door_times k m q) (clear_deck i))"
    by (simp only: Suc.IH)
  also have "\<dots> = Option.bind (push_door_times (Suc k) m q) (clear_deck i)" by simp
  finally show ?case .
qed

lemma claim_is_clear:
  assumes "distinct is" and "\<forall>i \<in> set is. 0 \<le> i \<and> i < int (length (decks q))" and "0 < n"
    and "n \<le> length (filter (\<lambda>i. kind (decks q ! nat i) = kind d) is)"
  shows "claim_loop d is (int n) q = Option.bind (push_door_times n d q) (clear_loop d is (int n))"
  using assms
proof (induction "is" arbitrary: n q)
  case (Cons i "is")
  have ai: "at (decks q) i = Some (decks q ! nat i)" using Cons.prems by (simp add: at_eq)
  have rest: "Option.bind (push_door_times n d q) (clear_loop d (i # is) (int n)) =
      (if kind (decks q ! nat i) = kind d
       then Option.bind (push_door_times n d q) (\<lambda>q. Option.bind (clear_deck i q)
         (\<lambda>q. if n = 1 then Some q else clear_loop d is (int n - 1) q))
       else Option.bind (push_door_times n d q) (clear_loop d is (int n)))"
  proof (cases "push_door_times n d q")
    case (Some q')
    then show ?thesis using push_door_times_keeps [OF Some] ai by (simp del: at_Some)
  qed simp
  show ?case
  proof (cases "kind (decks q ! nat i) = kind d")
    case False
    have "claim_loop d (i # is) (int n) q = claim_loop d is (int n) q" using ai False by (simp del: at_Some)
    also have "\<dots> = Option.bind (push_door_times n d q) (clear_loop d is (int n))"
      by (rule Cons.IH) (use Cons.prems False in auto)
    finally show ?thesis by (simp only: rest False if_False)
  next
    case True
    obtain k where k: "n = Suc k" using Cons.prems by (cases n) auto
    have later: "(if n = 1 then Some q2 else claim_loop d is (int n - 1) q2) =
        Option.bind (push_door_times k d q2) (\<lambda>q. if n = 1 then Some q else clear_loop d is (int n - 1) q)"
      if p: "push_door d q = Some q1" and c: "clear_deck i q1 = Some q2" for q1 q2
    proof (cases "k = 0")
      case False
      have d2: "decks q2 = (decks q)[nat i := clear_mj (decks q ! nat i)]"
        using c push_door_keeps [OF p] by (auto simp: clear_deck_def put_deck_def bind_eq_Some_conv)
      have same: "decks q2 ! nat j = decks q ! nat j" if "j \<in> set is" for j
        using that Cons.prems(1,2) d2 by (cases "nat i = nat j") (auto simp: eq_nat_nat_iff)
      have "length (filter (\<lambda>j. kind (decks q2 ! nat j) = kind d) is) =
          length (filter (\<lambda>j. kind (decks q ! nat j) = kind d) is)"
        by (rule arg_cong [where f = length], rule filter_cong) (use same in auto)
      then have "claim_loop d is (int k) q2 = Option.bind (push_door_times k d q2) (clear_loop d is (int k))"
        by (intro Cons.IH) (use Cons.prems True False k d2 in auto)
      then show ?thesis using k False by simp
    qed (simp add: k)
    have "claim_loop d (i # is) (int n) q =
        Option.bind (push_door d q) (\<lambda>q. Option.bind (clear_deck i q)
          (\<lambda>q. if n = 1 then Some q else claim_loop d is (int n - 1) q))"
      using ai True k by (cases "push_door d q") (auto simp del: at_Some intro!: Option.bind_cong)
    also have "\<dots> = Option.bind (push_door d q) (\<lambda>q. Option.bind (clear_deck i q)
          (\<lambda>q. Option.bind (push_door_times k d q) (\<lambda>q. if n = 1 then Some q else clear_loop d is (int n - 1) q)))"
      using later by (auto intro!: Option.bind_cong)
    also have "\<dots> = Option.bind (push_door d q) (\<lambda>q. Option.bind (Option.bind (clear_deck i q) (push_door_times k d))
          (\<lambda>q. if n = 1 then Some q else clear_loop d is (int n - 1) q))"
      by simp
    also have "\<dots> = Option.bind (push_door_times n d q) (\<lambda>q. Option.bind (clear_deck i q)
          (\<lambda>q. if n = 1 then Some q else clear_loop d is (int n - 1) q))"
      by (simp add: clear_push_times k)
    finally show ?thesis by (simp only: rest True if_True simp_thms)
  qed
qed simp

lemma count_indices:
  assumes "length (decks q) = 20" and "normal_capacity q \<le> 16"
  shows "length (filter (\<lambda>i. kind (decks q ! nat i) = k) [0..normal_capacity q - 1]) =
     length (filter (\<lambda>m. kind m = k) (hand q))"
proof -
  have "[0..normal_capacity q - 1] = map int [0..<nat (normal_capacity q)]"
    by (cases "0 \<le> normal_capacity q") (simp_all add: upto_map flip: upto_map)
  moreover have "hand q = map ((!) (decks q)) [0..<nat (normal_capacity q)]"
    using assms by (intro nth_equalityI) (auto simp: hand_def)
  ultimately show ?thesis by (simp add: filter_map comp_def)
qed

lemma claim_after_push:
  assumes "hand_ok q" and "push_door d q = Some q1" and "0 < n"
    and "n \<le> length (filter (\<lambda>m. kind m = kind d) (hand q))"
  shows "claim_loop d [0..normal_capacity q1 - 1] (int n) q1 =
     Option.bind (push_door_times n d q1) (\<lambda>q2. clear_loop d [0..normal_capacity q2 - 1] (int n) q2)"
proof -
  have h: "length (decks q) = 20" "normal_capacity q \<le> 16" using assms(1) by (simp_all add: hand_ok_def)
  have k: "decks q1 = decks q" "normal_capacity q1 = normal_capacity q" using push_door_keeps [OF assms(2)] by simp_all
  have "claim_loop d [0..normal_capacity q1 - 1] (int n) q1 =
      Option.bind (push_door_times n d q1) (clear_loop d [0..normal_capacity q1 - 1] (int n))"
    by (rule claim_is_clear) (use assms(3,4) count_indices [OF h] h k in auto)
  also have "\<dots> = Option.bind (push_door_times n d q1) (\<lambda>q2. clear_loop d [0..normal_capacity q2 - 1] (int n) q2)"
    by (intro Option.bind_cong) (auto dest: push_door_times_keeps)
  finally show ?thesis .
qed

lemma gang_is_client_gang:
  assumes "hand_ok q" and "playable d" and "is_gang_possible (decks q) (normal_capacity q) d = Some 1"
  shows "gang_tiles d q = client_gang_tiles d q"
proof -
  have c: "3 \<le> length (filter (\<lambda>m. kind m = kind d) (hand q))"
    using assms(3) gang_possible_iff [OF assms(1,2)] by (simp split: if_splits)
  have four: "push_door_times 4 d q = Option.bind (push_door d q) (push_door_times 3 d)"
    by (simp add: numeral_eq_Suc)
  show ?thesis
    unfolding gang_tiles_def client_gang_is four
    by (cases "push_door d q") (use claim_after_push [OF assms(1) _ _ c] in \<open>simp_all add: Let_def\<close>)
qed

lemma pong_is_client_pong:
  assumes "hand_ok q" and "playable d" and "is_pong_possible (decks q) (normal_capacity q) d = Some 1"
  shows "pong_tiles d q = client_pong_tiles d q"
proof -
  have c: "2 \<le> length (filter (\<lambda>m. kind m = kind d) (hand q))"
    using assms(3) pong_possible_iff [OF assms(1,2)] by (simp split: if_splits)
  have three: "push_door_times 3 d q = Option.bind (push_door d q) (push_door_times 2 d)"
    by (simp add: numeral_eq_Suc)
  show ?thesis
    unfolding pong_tiles_def client_pong_is three
    by (cases "push_door d q") (use claim_after_push [OF assms(1) _ _ c] in \<open>simp_all add: Let_def\<close>)
qed

text \<open>Eating: the client sorts the three tiles itself, with the second index after the first.\<close>

lemma client_eat_is:
  "client_eat_tiles e1 e2 d q = Option.bind (eat_temp (decks q) e1 e2 d) (\<lambda>t. eat_tiles e1 e2 t q)"
  by (cases "at (decks q) e1"; cases "at (decks q) e2")
    (simp_all add: client_eat_tiles_def eat_temp_def eat_tiles_def swap_deck_def del: at_Some at_None)

lemma eat_temp_face: "eat_temp (map bare (decks q)) e1 e2 (bare d) = map_option (map bare) (eat_temp (decks q) e1 e2 d)"
proof (cases "at (decks q) e1"; cases "at (decks q) e2")
  fix a b assume "at (decks q) e1 = Some a" "at (decks q) e2 = Some b"
  then show ?thesis using deck_sort_bare [of "[a, b, d]"] by (simp add: eat_temp_def del: at_Some)
qed (simp_all add: eat_temp_def del: at_Some at_None)

lemma eat_tiles_face:
  assumes "length t = 3"
  shows "eat_tiles e1 e2 (map bare t) (face q) = map_option face (eat_tiles e1 e2 t q)"
  using assms by (simp add: eat_tiles_def faces)

lemma eatable_bare: "length t = 3 \<Longrightarrow> eatable (map bare t) = eatable t"
  by (simp add: eatable_def)

lemma leave_three_face [faces]: "leave_three (face q) = map_option face (leave_three q)"
  by (simp add: leave_three_def Let_def faces)

lemma client_eat_face: "client_eat_tiles e1 e2 (bare d) (face q) = map_option face (client_eat_tiles e1 e2 d q)"
proof (cases "eat_temp (decks q) e1 e2 d")
  case (Some t)
  then show ?thesis
    using eat_tiles_face [OF eat_temp_SomeD(5) [OF Some]] by (simp add: client_eat_is eat_temp_face)
qed (simp add: client_eat_is eat_temp_face)

subsection \<open>The client simulates the server\<close>

text \<open>A change that both sides make on data that agree: both succeed with agreement, or none does.\<close>

lemma mirrors_target:
  assumes "mirrors q c" and "kind d' = kind d" and "\<And>x e. f (bare e) (face x) = map_option face (f e x)"
    and "f d q = Some q'"
  obtains c' where "f d' c = Some c'" and "mirrors q' c'"
proof -
  have b: "bare d' = bare d" using assms(2) by simp
  have "map_option face (f d' c) = f (bare d) (face q)"
    unfolding assms(3) [symmetric] b using assms(1) by (simp add: mirrors_def)
  also have "\<dots> = Some (face q')" unfolding assms(3) assms(4) by simp
  finally show thesis using that by (auto simp: mirrors_def)
qed

lemma mirrors_run:
  assumes "mirrors q c" and "\<And>x. f (face x) = map_option face (f x)" and "f q = Some q'"
  obtains c' where "f c = Some c'" and "mirrors q' c'"
  using mirrors_target [of q c null_mj null_mj "\<lambda>_. f" q'] assms by metis

lemma mirrors_refl: "mirrors q q"
  by (simp add: mirrors_def)

text \<open>
  Property C18: the discard of the client is that of the server. When both hold the same hand with
  a drawn tile, then for every index that the client accepts both take the same tile out, which the client
  announces, and hold the same hand in order again.
\<close>

theorem discard_mirrored:
  assumes "mirrors q c" and "hand_drawn q" and "0 \<le> i" and "i < normal_capacity c + 1"
  shows "\<exists>q' c'. remove_tile i q = Some q' \<and> client_remove_tile i c = Some c' \<and> mirrors q' c' \<and> hand_ok q' \<and>
     kind (decks c ! nat i) = kind (decks q ! nat i)"
proof -
  have n: "normal_capacity c = normal_capacity q" and d: "map bare (decks c) = map bare (decks q)"
    using assms(1) unfolding mirrors_def by (metis face_simps(1,4))+
  obtain q' where q': "remove_tile i q = Some q'" "hand_ok q'"
    by (rule remove_tile_ok [OF assms(2,3)]) (use assms(4) n in auto)
  obtain c' where "remove_tile i c = Some c'" "mirrors q' c'"
    by (rule mirrors_run [where f = "remove_tile i", OF assms(1) remove_tile_face q'(1)])
  moreover have "kind (decks c ! nat i) = kind (decks q ! nat i)"
  proof -
    have "length (decks c) = length (decks q)" using d by (metis length_map)
    moreover have "nat i < length (decks q)" using assms n by (auto simp: hand_drawn_def)
    ultimately show ?thesis using arg_cong [OF d, of "\<lambda>l. l ! nat i"] by simp
  qed
  ultimately show ?thesis using q' by (simp add: client_remove_is)
qed

text \<open>
  Property C19: the gang of the client is that of the server. For a hand that both sides hold alike
  and a tile that both see on the board, an offered gang succeeds on both sides and leaves them
  alike, although the client fills its door before it looks for matches.
\<close>

theorem gang_mirrored:
  assumes "mirrors q c" and "shape q" and "hand_ok q" and "playable d" and "kind d' = kind d" and "door_index q \<le> 16"
    and "is_gang_possible (decks q) (normal_capacity q) d = Some 1"
  shows "\<exists>q' c'. gang_tiles d q = Some q' \<and> client_gang_tiles d' c = Some c' \<and> mirrors q' c'"
proof -
  have "3 \<le> length (filter (\<lambda>m. kind m = kind d) (hand q))"
    using gang_possible_iff [OF assms(3,4)] assms(7) by (simp split: if_splits)
  then obtain q' where q': "gang_tiles d q = Some q'"
    using gang_tiles_ok [OF assms(2-4,6)] by blast
  then have "client_gang_tiles d q = Some q'" using gang_is_client_gang [OF assms(3,4,7)] by simp
  from mirrors_target [where f = client_gang_tiles, OF assms(1,5) client_gang_face this] show ?thesis using q' by metis
qed

text \<open>
  The pong of the client is that of the server, in the same sense.
\<close>

theorem pong_mirrored:
  assumes "mirrors q c" and "shape q" and "hand_ok q" and "playable d" and "kind d' = kind d" and "door_index q \<le> 17"
    and "3 \<le> normal_capacity q" and "is_pong_possible (decks q) (normal_capacity q) d = Some 1"
  shows "\<exists>q' c'. pong_tiles d q = Some q' \<and> client_pong_tiles d' c = Some c' \<and> mirrors q' c'"
proof -
  have "2 \<le> length (filter (\<lambda>m. kind m = kind d) (hand q))"
    using pong_possible_iff [OF assms(3,4)] assms(8) by (simp split: if_splits)
  then obtain q' where q': "pong_tiles d q = Some q'"
    using pong_tiles_ok [OF assms(2-4,6)] assms(7) by blast
  then have "client_pong_tiles d q = Some q'" using pong_is_client_pong [OF assms(3,4,8)] by simp
  from mirrors_target [where f = client_pong_tiles, OF assms(1,5) client_pong_face this] show ?thesis using q' by metis
qed

text \<open>What the client holds in the examples: the same tiles behind another descriptor.\<close>

definition other_side :: "player \<Rightarrow> player" where
  "other_side q = q\<lparr>player_fd := 3, sea_index := 2\<rparr>"

lemma other_side_mirrors: "mirrors q (other_side q)"
  by (simp add: mirrors_def face_def other_side_def)

theorem discard_mirrored_witness:
  "\<exists>q' c'. remove_tile 1 (seat 2 [tile 1 3, tile 4 7, tile 2 5]) = Some q' \<and>
     client_remove_tile 1 (other_side (seat 2 [tile 1 3, tile 4 7, tile 2 5])) = Some c' \<and> mirrors q' c'"
  using discard_mirrored [OF other_side_mirrors seat_drawn, of 1] by (auto simp: seat_def other_side_def)

theorem gang_mirrored_witness:
  "\<exists>q' c'. gang_tiles (tile 4 2) runs_hand = Some q' \<and> client_gang_tiles (tile 4 2) (other_side runs_hand) = Some c' \<and>
     mirrors q' c'"
proof -
  have "is_gang_possible (decks runs_hand) (normal_capacity runs_hand) (tile 4 2) = Some 1" by code_simp
  from gang_mirrored [OF other_side_mirrors runs_hand_shape(1) runs_hand_ok _ _ _ this] runs_hand_shape
  show ?thesis by (auto simp: playable_def tile_def)
qed

theorem pong_mirrored_witness:
  "\<exists>q' c'. pong_tiles (tile 4 2) runs_hand = Some q' \<and> client_pong_tiles (tile 4 2) (other_side runs_hand) = Some c' \<and>
     mirrors q' c'"
proof -
  have "is_pong_possible (decks runs_hand) (normal_capacity runs_hand) (tile 4 2) = Some 1" by code_simp
  from pong_mirrored [OF other_side_mirrors runs_hand_shape(1) runs_hand_ok _ _ _ _ this] runs_hand_shape
  show ?thesis by (auto simp: playable_def tile_def)
qed

text \<open>
  Property C20: the eat of the client is that of the server. When the server accepts the two
  indices for the tile on the board, the client moves the same run to its door, and both
  are left alike, also in the case in which the server loses a tile.
\<close>

theorem eat_mirrored:
  assumes "mirrors q c" and "kind d' = kind d" and "eat_temp (decks q) e1 e2 d = Some t"
    and "eat_tiles e1 e2 t q = Some q1" and "leave_three q1 = Some q'"
  shows "\<exists>c1 c'. client_eat_tiles e1 e2 d' c = Some c1 \<and> client_leave_three c1 = Some c' \<and> mirrors q' c'"
proof -
  have "client_eat_tiles e1 e2 d q = Some q1" using assms(3,4) by (simp add: client_eat_is)
  from mirrors_target [where f = "client_eat_tiles e1 e2", OF assms(1,2) client_eat_face this] obtain c1
    where c1: "client_eat_tiles e1 e2 d' c = Some c1" "mirrors q1 c1" .
  from mirrors_run [where f = leave_three, OF c1(2) leave_three_face assms(5)] obtain c' where "leave_three c1 = Some c'" "mirrors q' c'" .
  with c1(1) show ?thesis by (simp add: client_leave_is)
qed

theorem eat_mirrored_witness:
  "\<exists>c1 c'. client_eat_tiles 0 1 (tile 1 5) (other_side runs_hand) = Some c1 \<and> client_leave_three c1 = Some c'"
proof -
  obtain q1 q' where "eat_tiles 0 1 [tile 1 3, tile 1 4, tile 1 5] runs_hand = Some q1" "leave_three q1 = Some q'"
    using eat_ok [OF runs_hand_shape(1) runs_hand_ok runs_hand_eat(3,1,2)] runs_hand_shape by auto
  from eat_mirrored [OF other_side_mirrors refl runs_hand_eat(1) this] show ?thesis by blast
qed

subsection \<open>The deal\<close>

lemma map_bare_kind: "map bare xs = map bare ys \<longleftrightarrow> map kind xs = map kind ys"
proof -
  have "map bare xs = map bare ys \<longleftrightarrow> list_all2 (\<lambda>x y. bare x = bare y) xs ys" for xs ys
    by (simp add: list_all2_conv_all_nth list_eq_iff_nth_eq)
       (metis (no_types, lifting) bare_eq nth_map)
  moreover have "map kind xs = map kind ys \<longleftrightarrow> list_all2 (\<lambda>x y. kind x = kind y) xs ys" for xs ys
    by (auto simp: list_all2_conv_all_nth list_eq_iff_nth_eq)
  ultimately show ?thesis by simp
qed

lemma null_kinds: "\<forall>k. n \<le> k \<and> k < length xs \<longrightarrow> is_null (xs ! k) \<Longrightarrow> map kind (drop n xs) = replicate (length xs - n) (0, 0)"
  by (rule nth_equalityI) (auto simp: is_null_def kind_def)

text \<open>
  Property C15: the deal reaches the client. When the server's transfer of a dealt hand returns, it
  has sent the hand, the flowers and the closing line. A client whose socket delivers exactly these
  lines, cut into reads in any way, starts its round with \<open>client_game_init\<close> and \<open>get_decks\<close>: they
  return, have read all of it, and both sides hold the same hand, the same empty door and the
  same flowers.
\<close>

theorem deal_reaches_client:
  assumes "dealt s" and "p \<in> {0..3}" and "transfer p s = (Inr v, t)"
    and "door (players s p) = replicate 20 null_mj" and "door_index (players s p) = 0"
    and "buffer_ok c" and "pending (player_fd (me c)) c = concat (map snd (drop (length (sent s)) (sent t)))"
  shows "\<exists>c'. thenp client_game_init get_decks c = (Inr 0, c') \<and> mirrors (players t p) (me c') \<and>
     map kind (take (nat (flower_index (players t p))) (flowers (me c'))) =
       map kind (take (nat (flower_index (players t p))) (flowers (players t p))) \<and>
     pending (player_fd (me c)) c' = []"
proof -
  let ?q = "players s p" and ?fd = "player_fd (me c)"
  have q: "shape ?q" "hand_ok ?q" "normal_capacity ?q = 16" using assms(1,2) by (simp_all add: dealt_def)
  then have len: "length (decks ?q) = 20" "length (flowers ?q) = 8" "0 \<le> flower_index ?q" "flower_index ?q \<le> 8"
    by (simp_all add: shape_def)
  note g = dealt_hand_good [OF assms(1,2)] and f = dealt_flowers [OF assms(1,2)]
  have g16: "good m" if "m \<in> set (take 16 (decks ?q))" for m
    using that g len by (auto simp: in_set_conv_nth)
  have fg: "good m" if "m \<in> set (take (nat (flower_index ?q)) (flowers ?q))" for m
    using f [OF that] by (simp add: good_def)
  have sent: "sent_since s (player_fd ?q) (transfer_lines ?q) t"
    using triple_Inr [OF transfer_sends [OF q(1)] refl assms(3)] .
  then have "map snd (drop (length (sent s)) (sent t)) = map vsnprintf_line (transfer_lines ?q)"
    by (simp add: sent_since_def comp_def)
  also have "\<dots> = transfer_lines ?q"
    unfolding transfer_lines_def using g16 fg by (simp add: line_sent_whole)
  finally have pend: "pending ?fd c = concat (transfer_lines ?q)" using assms(7) by simp
  obtain c0 where c0: "client_game_init c = (Inr 0, c0)" "io.truncate c0 = io.truncate c" "player_fd (me c0) = ?fd"
    "length (decks (me c0)) = 20" "length (flowers (me c0)) = 8" "flower_index (me c0) = 0" "kept (me c0)"
    by (simp add: client_game_init_def io.truncate_def kept_def is_null_def null_mj_def)
  have world: "buffer_ok c0 = buffer_ok c" "pending ?fd c0 = pending ?fd c"
    using c0(2) by (simp_all add: io.truncate_def buffer_ok_def pending_def buffered_def)
  have "reading ?fd ?q (transfer_lines ?q) 0 0 c0" using c0 world assms(6) pend by (simp add: reading_def)
  with triple_returns [OF get_decks_reads [of ?q ?fd]] obtain c' where
    c': "get_decks c0 = (Inr 0, c')" "reading ?fd ?q [] 16 (nat (flower_index ?q)) c'" using len g f by blast
  have players: "players t p = ?q" using sent same_game [of t s] by (simp add: sent_since_def)
  have "map kind (decks (me c')) = map kind (decks ?q)"
  proof -
    have "map kind (drop 16 (decks (me c'))) = replicate 4 (0, 0)" "map kind (drop 16 (decks ?q)) = replicate 4 (0, 0)"
      using null_kinds [of 16 "decks (me c')"] null_kinds [of 16 "decks ?q"] c'(2) q(2,3)
      by (auto simp: reading_def kept_def hand_ok_def)
    moreover have "map kind xs = map kind (take 16 xs) @ map kind (drop 16 xs)" for xs
      by (simp flip: map_append)
    ultimately show ?thesis using c'(2) unfolding reading_def by metis
  qed
  then have "mirrors ?q (me c')"
    using c'(2) len q(3) assms(4,5)
    by (simp add: mirrors_def face_def reading_def kept_def map_bare_kind map_replicate_const)
  then show ?thesis using c0(1) c' len(3) players by (auto simp: reading_def)
qed

definition new_client :: "string \<Rightarrow> client" where
  "new_client b = \<lparr>net = (\<lambda>_. [Bytes b]), read_cnt = 0, read_ptr = [], sent = [], console = [],
     recvline = [], me = player_gameinfo_init
       \<lparr>player_fd = 3, flower_index = 0, door_index = 0, sea_index = 0, normal_capacity = 0,
        decks = [], flowers = [], door = [], sea = []\<rparr>,
     board = null_mj, message = [], id_num = 0, client_rset = {}, client_selects = [], stdin_buf = [],
     closed_fds = [], server_addr = []\<rparr>"

text \<open>A round starts with empty doors, and the deal leaves them.\<close>

definition no_doors :: "server \<Rightarrow> bool" where
  "no_doors s \<longleftrightarrow> (\<forall>p \<in> {0..3}. door_index (players s p) = 0 \<and> door (players s p) = replicate 20 null_mj)"

lemma no_doors_part: "game_part no_doors"
  unfolding game_part_def no_doors_def using same_game by metis

lemma no_doors_update:
  assumes "\<And>q q'. f q = Some q' \<Longrightarrow> door q' = door q \<and> door_index q' = door_index q"
  shows "keeps no_doors (update_player p f)"
  by (rule keeps_update_player) (use assms in \<open>auto simp: no_doors_def\<close>)

lemma no_doors_updates:
  "keeps no_doors (update_player p (put_deck i m))" "keeps no_doors (update_player p (push_flower m))"
  "keeps no_doors (update_player p (sort_deck lo hi))"
  by (rule no_doors_update; auto simp: put_deck_def push_flower_def sort_deck_def bind_eq_Some_conv)+

lemmas no_doors_rules = keeps_bindp keeps_thenp keeps_forp keeps_foldp keeps_ret keeps_failp keeps_getp keeps_liftp
  keeps_if keeps_player_of keeps_tell [OF no_doors_part] no_doors_updates

lemma no_doors_modp: "(\<And>s. players (f s) = players s) \<Longrightarrow> keeps no_doors (modp f)"
  by (rule keeps_modp) (simp add: no_doors_def)

lemma no_doors_take: "keeps no_doors take_tile"
  unfolding take_tile_def by (intro no_doors_rules no_doors_modp) simp

lemma no_doors_regrab: "keeps no_doors (regrab fuel p0 n add)"
proof (induction fuel arbitrary: n add)
  case 0
  have "regrab 0 p0 n add = failp Diverges" by (rule ext) simp
  then show ?case by (simp only: keeps_failp)
next
  case (Suc fuel)
  have eq: "regrab (Suc fuel) p0 n add = (if n < 4 then
        bindp (has_flower ((p0 + add) mod 4)) (\<lambda>c.
          if c > 0 then regrab fuel p0 0 (add + 1) else regrab fuel p0 (n + 1) (add + 1))
      else ret ())"
    by (rule ext) simp
  show ?case unfolding eq has_flower_def by (intro no_doors_rules no_doors_take Suc.IH)
qed

lemma no_doors_deal: "keeps no_doors (shuffle_n_deal p0)"
  unfolding shuffle_n_deal_def shuffle_def place_suit_def place_tile_def rand_def deal_def deal_tiles_def transfer_def
  by (intro no_doors_rules no_doors_take no_doors_regrab no_doors_modp) simp_all

lemma game_init_doors: "game_init s = (r, t) \<Longrightarrow> no_doors t"
  unfolding no_doors_def
proof
  fix p :: int assume "game_init s = (r, t)" "p \<in> {0..3}"
  then show "door_index (players t p) = 0 \<and> door (players t p) = replicate 20 null_mj"
    by (auto simp: game_init_run player_gameinfo_init_def atLeastAtMost_iff)
qed

lemma round_no_doors:
  assumes "thenp game_init (shuffle_n_deal p0) s = (Inr v, t)"
  shows "no_doors t"
proof -
  obtain r u where u: "game_init s = (r, u)" by (cases "game_init s")
  then obtain x where "r = Inr x" "shuffle_n_deal p0 u = (Inr v, t)"
    using assms by (auto simp: thenp_def split: sum.splits)
  then show ?thesis using triple_Inr [OF no_doors_deal] game_init_doors [OF u] by blast
qed

theorem deal_reaches_client_witness:
  "\<exists>s t v c c'. transfer 0 s = (Inr v, t) \<and> thenp client_game_init get_decks c = (Inr 0, c') \<and>
     mirrors (players t 0) (me c')"
proof -
  have "acks (\<lambda>_. 25) first_round" by (simp add: acks_def first_round_def inj_on_def)
  then obtain u where run: "thenp game_init (shuffle_n_deal 0) first_round = (Inr 0, u)" "dealt u"
    using round_runs [of 0] by auto
  define s where "s = u\<lparr>net := (\<lambda>_. replicate 25 (Bytes ack_line)), read_cnt := 0,
    players := (\<lambda>p. (players u p)\<lparr>player_fd := p\<rparr>)\<rparr>"
  have dealt: "dealt s"
  proof -
    have "holdings (q\<lparr>player_fd := x\<rparr>) = holdings q" "shape (q\<lparr>player_fd := x\<rparr>) = shape q"
      "hand_ok (q\<lparr>player_fd := x\<rparr>) = hand_ok q" for q x
      by (simp_all add: holdings_def shape_def hand_ok_def)
    note fd = this
    have "table s = table u" "shuffled_mjs s = shuffled_mjs u" "take_index s = take_index u"
      "flowers_out s = flowers_out u"
      by (simp_all add: table_def wall_kinds_def flowers_out_def s_def fd)
    moreover have "players s p = (players u p)\<lparr>player_fd := p\<rparr>" for p by (simp add: s_def)
    ultimately show ?thesis using run(2) fd unfolding dealt_def full_def by simp
  qed
  have doors: "door (players s 0) = replicate 20 null_mj" "door_index (players s 0) = 0"
    using round_no_doors [OF run(1)] by (simp_all add: no_doors_def s_def)
  have "acks ((\<lambda>_. 25)(0 := 25)) s" by (simp add: acks_def s_def inj_on_def)
  with dealt obtain v t where t: "transfer 0 s = (Inr v, t)"
    using triple_returns [OF transfer_acks [of 0 "\<lambda>_. 25"], of s] by auto
  let ?x = "concat (map snd (drop (length (sent s)) (sent t)))"
  have "stream [Bytes ?x] = ?x" by simp
  then have "pending (player_fd (me (new_client ?x))) (new_client ?x) = ?x"
    by (simp add: pending_def buffered_def new_client_def)
  from deal_reaches_client [OF dealt _ t doors _ this] t show ?thesis
    by (auto simp: new_client_def buffer_ok_def)
qed

subsection \<open>Drawing\<close>

text \<open>What the socket of a client still delivers.\<close>

definition hears :: "string \<Rightarrow> client \<Rightarrow> bool" where
  "hears x c \<longleftrightarrow> buffer_ok c \<and> pending (player_fd (me c)) c = x"

lemma listen_hears:
  assumes "hears (l @ x) c" and "is_line l"
  obtains t where "listen_server c = (Inr 0, t)" "recvline t = l" "hears x t" "io.more t = io.more c"
    and "sent t = sent c @ [(player_fd (me c), ack_line)]"
proof -
  obtain b where b: "l = b @ [newline]" "newline \<notin> set b" "length b + 1 < MAXLINE" using assms(2) by (auto simp: is_line_def)
  have p: "buffer_ok c" "pending (player_fd (me c)) c = b @ newline # x" using assms(1) b by (simp_all add: hears_def)
  from client_chan.recv_line [OF p b(2,3)] obtain t where t: "client_read_and_ack (player_fd (me c)) c = (Inr 0, t)"
    "recvline t = l" "buffer_ok t" "pending (player_fd (me c)) t = x" unfolding b(1) by blast
  note more = client_chan.recv_more [OF t(1)]
  show thesis
    using t more client_more [OF more] client_chan.recv_Inr [OF t(1)] by (intro that [of t]) (simp_all add: listen_server_def my_def hears_def)
qed

lemma hears_more:
  assumes "hears x c" and "io.truncate t = io.truncate c" and "player_fd (me t) = player_fd (me c)"
  shows "hears x t"
  using assms by (auto simp: hears_def io.truncate_def buffer_ok_def pending_def buffered_def)

lemma mirrors_at:
  assumes "mirrors q c" and "at (decks q) i = Some m"
  obtains m' where "at (decks c) i = Some m'" and "kind m' = kind m"
proof -
  have "map bare (decks c) = map bare (decks q)" using assms(1) unfolding mirrors_def by (metis face_simps(4))
  then have "map_option bare (at (decks c) i) = Some (bare m)"
    using assms(2) by (metis at_map option.map(2))
  then show thesis using that by (cases "at (decks c) i") (auto simp del: at_Some at_None)
qed

lemma mirrors_capacity: "mirrors q c \<Longrightarrow> normal_capacity c = normal_capacity q"
  unfolding mirrors_def by (metis face_simps(1))

lemma mirrors_push_flower:
  assumes "mirrors q c" and "push_flower m q = Some q'"
  obtains c' where "push_flower m' c = Some c'" and "mirrors q' c'"
proof -
  have eq: "flower_index c = flower_index q" "length (flowers c) = length (flowers q)"
    using assms(1) unfolding mirrors_def by (metis face_simps(3), metis face_simps(5) length_map)
  have inv: "face (q\<lparr>flowers := (flowers q)[i := x], flower_index := n\<rparr>) = (face q)\<lparr>flower_index := n\<rparr>" for q i x n
    by (simp add: face_def map_replicate_const)
  show thesis
    using assms eq by (intro that [of "c\<lparr>flowers := (flowers c)[nat (flower_index c) := m'], flower_index := flower_index c + 1\<rparr>"])
      (auto simp: push_flower_def bind_eq_Some_conv mirrors_def inv set_at_eq)
qed

lemma receive_tile_run:
  assumes "hears (tile_line m @ x) c" and "good m" and "at (decks (me c)) (normal_capacity (me c)) = Some y"
    and "put_deck (normal_capacity (me c)) (y\<lparr>type := type m, number := number m\<rparr>) (me c) = Some q'"
  obtains t where "receive_tile c = (Inr (), t)" and "hears x t" and "me t = q'"
    and "sent t = sent c @ [(player_fd (me c), ack_line)]"
proof -
  have r: "int_range (type m)" "int_range (number m)" using good_range [OF assms(2)] by simp_all
  obtain u where u: "listen_server c = (Inr 0, u)" "recvline u = tile_line m" "hears x u" "io.more u = io.more c"
    "sent u = sent c @ [(player_fd (me c), ack_line)]"
    using listen_hears [OF assms(1) tile_line_is_line [OF r assms(2)]] .
  have me: "me u = me c" using client_more [OF u(4)] by simp
  have fd: "player_fd q' = player_fd (me c)" using assms(4) by (auto simp: put_deck_def bind_eq_Some_conv)
  let ?t = "u\<lparr>me := q', recvline := []\<rparr>"
  have "receive_tile c = (Inr (), ?t)"
    using u(1,2) me assms(3,4)
    by (simp add: receive_tile_def update_me_run scan_tile_line r clear_recvline_def set_recvline_def del: at_Some)
  moreover have "hears x ?t"
    using u(3) me fd by (auto simp: hears_def buffer_ok_def pending_def buffered_def)
  ultimately show thesis using that u(5) by simp
qed

text \<open>What the server does for one tile.\<close>

lemma more_eq_iff:
  fixes s t :: server
  shows "io.more t = io.more s \<longleftrightarrow> players t = players s \<and> shuffled_mjs t = shuffled_mjs s \<and> discarded_mj t = discarded_mj s \<and>
     take_index t = take_index s \<and> winner t = winner s \<and> rand_seq t = rand_seq s \<and> rand_pos t = rand_pos s \<and>
     rset t = rset s \<and> selects t = selects s"
  by (cases s; cases t) auto

lemma grab_tile_run:
  assumes "grab_tile p s = (Inr v, t)"
  obtains m where "at (shuffled_mjs s) (take_index s) = Some m" and "\<forall>i. i \<noteq> p \<longrightarrow> players t i = players s i"
    and "m \<in> set (shuffled_mjs s)" and "put_deck (normal_capacity (players s p)) m (players s p) = Some (players t p)"
    and "sent t = sent s @ [(player_fd (players s p), vsnprintf_line (tile_line m))]"
    and "shuffled_mjs t = shuffled_mjs s" and "player_fd (players t p) = player_fd (players s p)"
    and "normal_capacity (players t p) = normal_capacity (players s p)" and "take_index t = take_index s + 1"
    and "io.more t = io.more (s\<lparr>players := (players s)(p := players t p), take_index := take_index s + 1\<rparr>)"
proof -
  obtain m where m: "at (shuffled_mjs s) (take_index s) = Some m"
    using assms by (cases "at (shuffled_mjs s) (take_index s)")
      (simp_all add: grab_tile_def take_tile_run del: at_Some at_None)
  let ?q = "players s p"
  let ?s1 = "s\<lparr>take_index := take_index s + 1\<rparr>"
  obtain q' where q': "put_deck (normal_capacity ?q) m ?q = Some q'"
    using assms m by (cases "put_deck (normal_capacity ?q) m ?q")
      (simp_all add: grab_tile_def take_tile_run update_player_run del: at_Some at_None)
  let ?s2 = "?s1\<lparr>players := (players s)(p := q')\<rparr>"
  have d: "decks q' = (decks ?q)[nat (normal_capacity ?q) := m]" "normal_capacity q' = normal_capacity ?q"
    "player_fd q' = player_fd ?q" "0 \<le> normal_capacity ?q" "normal_capacity ?q < int (length (decks ?q))"
    using q' by (auto simp: put_deck_def bind_eq_Some_conv)
  then have "at (decks q') (normal_capacity q') = Some m" by (simp add: at_eq)
  then have w: "write_message_wait_ack (player_fd ?q) (tile_line m) ?s2 = (Inr v, t)"
    using assms m q' d(3) by (simp add: grab_tile_def take_tile_run update_player_run
        drawn_tile_def player_of_def tell_def del: at_Some at_None)
  have "players t = players ?s2" "shuffled_mjs t = shuffled_mjs ?s2" "take_index t = take_index ?s2"
    using more_fields [OF server_chan.send_more [OF w]] by simp_all
  moreover have "io.more t = io.more (s\<lparr>players := (players s)(p := players t p), take_index := take_index s + 1\<rparr>)"
    using more_fields [OF server_chan.send_more [OF w]] by (simp add: more_eq_iff)
  ultimately show thesis
    using server_chan.send_Inr [OF w] q' m d by (intro that [of m]) auto
qed

text \<open>The client's side of that tile.\<close>

lemma receive_mirrored:
  assumes "mirrors q (me c)" and "put_deck (normal_capacity q) m q = Some q'" and "good m"
    and "hears (tile_line m @ x) c"
  obtains t where "receive_tile c = (Inr (), t)" and "hears x t" and "mirrors q' (me t)"
    and "sent t = sent c @ [(player_fd (me c), ack_line)]" and "player_fd (me t) = player_fd (me c)"
proof -
  have n: "normal_capacity (me c) = normal_capacity q" by (rule mirrors_capacity [OF assms(1)])
  obtain y where "at (decks q) (normal_capacity q) = Some y"
    using assms(2) by (auto simp: put_deck_def bind_eq_Some_conv at_eq)
  from mirrors_at [OF assms(1) this] obtain z where z: "at (decks (me c)) (normal_capacity q) = Some z" by blast
  obtain q2 where q2: "put_deck (normal_capacity q) (z\<lparr>type := type m, number := number m\<rparr>) (me c) = Some q2" "mirrors q' q2"
    by (rule mirrors_target [where f = "put_deck (normal_capacity q)" and d' = "z\<lparr>type := type m, number := number m\<rparr>",
          OF assms(1) _ put_deck_face assms(2)])
      (simp_all add: kind_def)
  have "player_fd q2 = player_fd (me c)" using q2(1) by (auto simp: put_deck_def bind_eq_Some_conv)
  with receive_tile_run [OF assms(4,3), unfolded n, OF z q2(1)] q2(2) show thesis using that by metis
qed

text \<open>
  The lines \<open>ls\<close> lead the client \<open>f\<close> from what agrees with \<open>q\<close> to what agrees with \<open>q'\<close>; it
  answers each with an acknowledgement.
\<close>

definition follows :: "player \<Rightarrow> string list \<Rightarrow> player \<Rightarrow> (nat \<Rightarrow> (client, int) prog) \<Rightarrow> bool" where
  "follows q ls q' f \<longleftrightarrow> (\<forall>c x k. mirrors q (me c) \<and> hears (concat ls @ x) c \<and> length (concat ls @ x) < k \<longrightarrow>
     (\<exists>c'. f k c = (Inr 0, c') \<and> mirrors q' (me c') \<and> hears x c' \<and> player_fd (me c') = player_fd (me c) \<and>
        sent c' = sent c @ replicate (length ls) (player_fd (me c), ack_line)))"

lemma followsD:
  assumes "follows q ls q' f" and "mirrors q (me c)" and "hears (concat ls @ x) c" and "length (concat ls @ x) < k"
  obtains c' where "f k c = (Inr 0, c')" and "mirrors q' (me c')" and "hears x c'"
    and "player_fd (me c') = player_fd (me c)" and "sent c' = sent c @ replicate (length ls) (player_fd (me c), ack_line)"
  using assms unfolding follows_def by metis

lemma draw_loop_follows:
  assumes "draw_loop fuel p s = (Inr v, t)" and "\<forall>m \<in> set (shuffled_mjs s). good m"
  shows "\<exists>ls. sent t = sent s @ map (Pair (player_fd (players s p))) ls \<and>
     follows (players s p) ls (players t p) client_draw_loop"
  using assms
proof (induction fuel arbitrary: s)
  case (Suc fuel)
  let ?q = "players s p"
  obtain m where m: "at (decks ?q) (normal_capacity ?q) = Some m"
    using Suc.prems(1) by (cases "at (decks ?q) (normal_capacity ?q)")
      (simp_all add: drawn_tile_def player_of_def del: at_Some at_None)
  have tile: "\<exists>m'. at (decks c) (normal_capacity c) = Some m' \<and> kind m' = kind m" if "mirrors ?q c" for c
    using mirrors_at [OF that m] mirrors_capacity [OF that] by metis
  show ?case
  proof (cases "type m = FLOWER")
    case False
    then have "t = s" using Suc.prems(1) m by (simp add: drawn_tile_def player_of_def del: at_Some FLOWER_def)
    moreover have "follows ?q [] ?q client_draw_loop"
      unfolding follows_def
    proof (intro allI impI, elim conjE)
      fix c :: client and x k assume c: "mirrors ?q (me c)" "hears (concat [] @ x) c" "length (concat [] @ x) < k"
      obtain y where "at (decks (me c)) (normal_capacity (me c)) = Some y" "type y \<noteq> FLOWER"
        using tile [OF c(1)] False by (auto simp: kind_def simp del: at_Some)
      with c show "\<exists>c'. client_draw_loop k c = (Inr 0, c') \<and> mirrors ?q (me c') \<and> hears x c' \<and>
          player_fd (me c') = player_fd (me c) \<and> sent c' = sent c @ replicate (length []) (player_fd (me c), ack_line)"
        by (cases k) (simp_all add: my_def del: at_Some FLOWER_def)
    qed
    ultimately show ?thesis by (intro exI [of _ "[]"]) simp
  next
    case True
    obtain q1 where q1: "push_flower m ?q = Some q1"
      using Suc.prems(1) m True by (cases "push_flower m ?q")
        (simp_all add: drawn_tile_def player_of_def update_player_run del: at_Some FLOWER_def)
    let ?s1 = "s\<lparr>players := (players s)(p := q1)\<rparr>"
    obtain w u where u: "grab_tile p ?s1 = (Inr w, u)" "draw_loop fuel p u = (Inr v, t)"
      using Suc.prems(1) m True q1
      by (simp add: drawn_tile_def player_of_def update_player_run del: at_Some FLOWER_def split: prod.splits sum.splits)
    obtain m1 where g: "m1 \<in> set (shuffled_mjs ?s1)" "put_deck (normal_capacity q1) m1 q1 = Some (players u p)"
      "sent u = sent ?s1 @ [(player_fd q1, vsnprintf_line (tile_line m1))]" "shuffled_mjs u = shuffled_mjs ?s1"
      "player_fd (players u p) = player_fd q1"
      by (rule grab_tile_run [OF u(1)]) auto
    have fd: "player_fd q1 = player_fd ?q" using q1 by (auto simp: push_flower_def bind_eq_Some_conv)
    have m1: "good m1" using g(1) Suc.prems(2) by simp
    have "\<exists>ls. sent t = sent u @ map (Pair (player_fd (players u p))) ls \<and>
        follows (players u p) ls (players t p) client_draw_loop"
      by (rule Suc.IH [OF u(2)]) (use g(4) Suc.prems(2) in simp)
    then obtain ls where ls: "sent t = sent u @ map (Pair (player_fd ?q)) ls"
      "follows (players u p) ls (players t p) client_draw_loop" using g(5) fd by auto
    have "sent t = sent s @ map (Pair (player_fd ?q)) (tile_line m1 # ls)"
      using ls(1) g(3) fd line_sent_whole(1) [OF m1] by simp
    moreover have "follows ?q (tile_line m1 # ls) (players t p) client_draw_loop"
      unfolding follows_def
    proof (intro allI impI, elim conjE)
      fix c :: client and x k
      assume c: "mirrors ?q (me c)" "hears (concat (tile_line m1 # ls) @ x) c" "length (concat (tile_line m1 # ls) @ x) < k"
      then obtain n where k: "k = Suc n" "length (concat ls @ x) < n" by (cases k) (auto simp: tile_line_eq)
      obtain y where y: "at (decks (me c)) (normal_capacity (me c)) = Some y" "type y = FLOWER"
        using tile [OF c(1)] True by (auto simp: kind_def simp del: at_Some)
      obtain q2 where q2: "push_flower y (me c) = Some q2" "mirrors q1 q2" by (rule mirrors_push_flower [OF c(1) q1])
      let ?c1 = "c\<lparr>me := q2\<rparr>"
      have "hears (concat (tile_line m1 # ls) @ x) ?c1"
        by (rule hears_more [OF c(2)]) (use q2(1) in \<open>auto simp: io.truncate_def push_flower_def bind_eq_Some_conv\<close>)
      then have h: "hears (tile_line m1 @ concat ls @ x) ?c1" "mirrors q1 (me ?c1)" using q2(2) by simp_all
      obtain c2 where c2: "receive_tile ?c1 = (Inr (), c2)" "hears (concat ls @ x) c2" "mirrors (players u p) (me c2)"
        "sent c2 = sent ?c1 @ [(player_fd (me ?c1), ack_line)]" "player_fd (me c2) = player_fd (me ?c1)"
        by (rule receive_mirrored [OF h(2) g(2) m1 h(1)])
      obtain c' where "client_draw_loop n c2 = (Inr 0, c')" "mirrors (players t p) (me c')" "hears x c'"
        "player_fd (me c') = player_fd (me c2)" "sent c' = sent c2 @ replicate (length ls) (player_fd (me c2), ack_line)"
        by (rule followsD [OF ls(2) c2(3,2) k(2)])
      moreover have "player_fd q2 = player_fd (me c)" using q2(1) by (auto simp: push_flower_def bind_eq_Some_conv)
      ultimately show "\<exists>c'. client_draw_loop k c = (Inr 0, c') \<and> mirrors (players t p) (me c') \<and> hears x c' \<and>
          player_fd (me c') = player_fd (me c) \<and>
          sent c' = sent c @ replicate (length (tile_line m1 # ls)) (player_fd (me c), ack_line)"
        using y q2(1) c2(1,4,5) by (simp add: k(1) my_def update_me_run del: at_Some FLOWER_def)
    qed
    ultimately show ?thesis by blast
  qed
qed simp

lemma draw_follows:
  assumes "draw p s = (Inr v, t)" and "\<forall>m \<in> set (shuffled_mjs s). good m"
  shows "\<exists>ls. sent t = sent s @ map (Pair (player_fd (players s p))) ls \<and>
     follows (players s p) ls (players t p) (\<lambda>_. client_draw)"
proof -
  let ?q = "players s p"
  obtain w u where u: "grab_tile p s = (Inr w, u)" "draw_loop (Suc (wall_left u)) p u = (Inr v, t)"
    using assms(1) by (cases "grab_tile p s") (auto simp: draw_def simp del: draw_loop.simps split: sum.splits)
  obtain m where g: "m \<in> set (shuffled_mjs s)" "put_deck (normal_capacity ?q) m ?q = Some (players u p)"
    "sent u = sent s @ [(player_fd ?q, vsnprintf_line (tile_line m))]" "shuffled_mjs u = shuffled_mjs s"
    "player_fd (players u p) = player_fd ?q"
    by (rule grab_tile_run [OF u(1)])
  have m: "good m" using g(1) assms(2) by simp
  obtain ls where ls: "sent t = sent u @ map (Pair (player_fd ?q)) ls"
    "follows (players u p) ls (players t p) client_draw_loop"
    using draw_loop_follows [OF u(2)] g(4,5) assms(2) by auto
  have "follows ?q (tile_line m # ls) (players t p) (\<lambda>_. client_draw)"
    unfolding follows_def
  proof (intro allI impI, elim conjE)
    fix c :: client and x k
    assume c: "mirrors ?q (me c)" "hears (concat (tile_line m # ls) @ x) c"
    then have h: "hears (tile_line m @ concat ls @ x) c" by simp
    obtain c1 where c1: "receive_tile c = (Inr (), c1)" "hears (concat ls @ x) c1" "mirrors (players u p) (me c1)"
      "sent c1 = sent c @ [(player_fd (me c), ack_line)]" "player_fd (me c1) = player_fd (me c)"
      by (rule receive_mirrored [OF c(1) g(2) m h])
    have "length (concat ls @ x) < Suc (unread (player_fd (me c1)) c1)"
      using pending_unread [of c1 "player_fd (me c1)"] c1(2) by (auto simp: hears_def)
    then obtain c' where "client_draw_loop (Suc (unread (player_fd (me c1)) c1)) c1 = (Inr 0, c')"
      "mirrors (players t p) (me c')" "hears x c'" "player_fd (me c') = player_fd (me c1)"
      "sent c' = sent c1 @ replicate (length ls) (player_fd (me c1), ack_line)"
      by (rule followsD [OF ls(2) c1(3,2)])
    then show "\<exists>c'. client_draw c = (Inr 0, c') \<and> mirrors (players t p) (me c') \<and> hears x c' \<and>
        player_fd (me c') = player_fd (me c) \<and>
        sent c' = sent c @ replicate (length (tile_line m # ls)) (player_fd (me c), ack_line)"
      using c1(1,4,5) by (simp add: client_draw_def socket_unread_def del: client_draw_loop.simps)
  qed
  moreover have "sent t = sent s @ map (Pair (player_fd ?q)) (tile_line m # ls)"
    using ls(1) g(3) line_sent_whole(1) [OF m] by simp
  ultimately show ?thesis by blast
qed

text \<open>
  Property C17: a drawn tile, with the flowers it replaces, reaches the client. When the server's
  \<open>draw\<close> for a player returns, a client that agrees with the server on its hand and whose socket
  delivers the lines that were sent, with anything behind them, returns from \<open>client_draw\<close>, agrees
  with the server again, and has read just these lines.
\<close>

theorem draw_reaches_client:
  assumes "draw p s = (Inr v, t)" and "\<forall>m \<in> set (shuffled_mjs s). good m" and "mirrors (players s p) (me c)"
    and "hears (concat (map snd (drop (length (sent s)) (sent t))) @ x) c"
  shows "\<exists>c'. client_draw c = (Inr 0, c') \<and> mirrors (players t p) (me c') \<and> hears x c'"
proof -
  obtain ls where ls: "sent t = sent s @ map (Pair (player_fd (players s p))) ls"
    "follows (players s p) ls (players t p) (\<lambda>_. client_draw)"
    using draw_follows [OF assms(1,2)] by blast
  have "hears (concat ls @ x) c" using assms(4) ls(1) by (simp add: comp_def)
  from followsD [OF ls(2) assms(3) this lessI] show ?thesis by metis
qed

text \<open>A server about to draw the flower in front of the wall, and its client.\<close>

definition drawing :: server where
  "drawing = first_round\<lparr>players := (\<lambda>p. seat 0 []), shuffled_mjs := [tile 5 3, tile 2 7]\<rparr>"

theorem draw_reaches_client_witness:
  "\<exists>t c c'. draw 0 drawing = (Inr 0, t) \<and> client_draw c = (Inr 0, c') \<and> mirrors (players t 0) (me c')"
proof -
  have "fst (draw 0 drawing) = Inr 0" by code_simp
  then obtain t where t: "draw 0 drawing = (Inr 0, t)" by (cases "draw 0 drawing") auto
  let ?x = "concat (map snd (drop (length (sent drawing)) (sent t)))"
  let ?c = "(new_client ?x)\<lparr>me := other_side (seat 0 [])\<rparr>"
  have "\<forall>m \<in> set (shuffled_mjs drawing). good m"
    by (simp add: drawing_def good_def playable_def is_flower_def tile_def)
  moreover have "mirrors (players drawing 0) (me ?c)" using other_side_mirrors by (simp add: drawing_def)
  moreover have "hears (?x @ []) ?c"
    by (simp add: hears_def buffer_ok_def pending_def buffered_def new_client_def)
  ultimately show ?thesis using draw_reaches_client [OF t] t by blast
qed

end
