(* ===== verification/Turns.thy ===== *)
theory Turns
  imports Mirror
begin

text \<open>
  A server turn step by step: what a draw takes from the wall, where it ends when the wall has
  only flowers left, what the quiet gang answers its caller, which indices of a discard are
  refused, and that printing a hand stays inside the tables of glyphs.
\<close>

subsection \<open>Drawing from the wall\<close>

definition rest_of_wall :: "server \<Rightarrow> mj list" where
  "rest_of_wall s = drop (nat (take_index s)) (shuffled_mjs s)"

text \<open>What a player has after the flowers \<open>fs\<close> and then the tile \<open>m\<close>.\<close>

definition got :: "player \<Rightarrow> mj list \<Rightarrow> mj \<Rightarrow> player" where
  "got q fs m = q\<lparr>decks := (decks q)[nat (normal_capacity q) := m],
     flowers := take (nat (flower_index q)) (flowers q) @ fs @ drop (nat (flower_index q) + length fs) (flowers q),
     flower_index := flower_index q + int (length fs)\<rparr>"

lemma push_flower_took:
  assumes "push_flower m q = Some q'"
  shows "0 \<le> flower_index q" "flower_index q < int (length (flowers q))"
    "q' = q\<lparr>flowers := (flowers q)[nat (flower_index q) := m], flower_index := flower_index q + 1\<rparr>"
  using assms by (auto simp: push_flower_def bind_eq_Some_conv)

lemma got_start: "got (q\<lparr>decks := (decks q)[nat (normal_capacity q) := d]\<rparr>) fs m = got q fs m"
  by (cases q) (simp add: got_def)

lemma got_more:
  assumes "push_flower d q = Some q1"
  shows "got (q1\<lparr>decks := (decks q1)[nat (normal_capacity q1) := m1]\<rparr>) fs m = got q (d # fs) m"
  using push_flower_took [OF assms]
  by (cases q) (simp add: got_def nat_add_distrib take_Suc_conv_app_nth)

text \<open>From \<open>s\<close> to \<open>t\<close> nothing of the game has changed but the player \<open>p\<close> and what is taken from the wall.\<close>

definition same_but :: "int \<Rightarrow> server \<Rightarrow> server \<Rightarrow> bool" where
  "same_but p s t \<longleftrightarrow>
     io.more t = io.more (s\<lparr>players := (players s)(p := players t p), take_index := take_index t\<rparr>)"

lemma same_butD:
  assumes "same_but p s t"
  shows "shuffled_mjs t = shuffled_mjs s" "i \<noteq> p \<Longrightarrow> players t i = players s i" "discarded_mj t = discarded_mj s"
    "winner t = winner s"
  using assms unfolding same_but_def more_eq_iff by simp_all (metis fun_upd_other)

lemma same_but_refl: "same_but p s s"
  by (simp add: same_but_def)

lemma same_but_trans: "same_but p s t \<Longrightarrow> same_but p t u \<Longrightarrow> same_but p s u"
  unfolding same_but_def more_eq_iff by simp (metis fun_upd_upd)

text \<open>One tile from the wall into the place of the drawn tile.\<close>

lemma grab_took:
  assumes "grab_tile p s = (Inr v, t)"
  obtains m where "rest_of_wall s = m # rest_of_wall t" and "same_but p s t" and "take_index t = take_index s + 1"
    and "players t p = (players s p)\<lparr>decks := (decks (players s p))[nat (normal_capacity (players s p)) := m]\<rparr>"
    and "at (decks (players t p)) (normal_capacity (players t p)) = Some m"
proof -
  let ?q = "players s p"
  obtain m where m: "at (shuffled_mjs s) (take_index s) = Some m" "\<forall>i. i \<noteq> p \<longrightarrow> players t i = players s i"
    "put_deck (normal_capacity ?q) m ?q = Some (players t p)"
    "shuffled_mjs t = shuffled_mjs s" "take_index t = take_index s + 1"
    "io.more t = io.more (s\<lparr>players := (players s)(p := players t p), take_index := take_index s + 1\<rparr>)"
    by (rule grab_tile_run [OF assms])
  have "rest_of_wall s = m # rest_of_wall t"
    using m(1,4,5) by (auto simp: rest_of_wall_def nat_add_distrib Cons_nth_drop_Suc)
  moreover have q: "players t p = ?q\<lparr>decks := (decks ?q)[nat (normal_capacity ?q) := m]\<rparr>"
    "0 \<le> normal_capacity ?q" "normal_capacity ?q < int (length (decks ?q))"
    using m(3) by (auto simp: put_deck_def bind_eq_Some_conv)
  ultimately show thesis
    using m(5,6) by (intro that [of m]) (simp_all add: same_but_def at_eq)
qed

lemma draw_loop_took:
  assumes "draw_loop fuel p s = (Inr v, t)" and "at (decks (players s p)) (normal_capacity (players s p)) = Some d"
  shows "\<exists>fs m. d # rest_of_wall s = fs @ m # rest_of_wall t \<and> (\<forall>f \<in> set fs. type f = FLOWER) \<and> type m \<noteq> FLOWER \<and>
     take_index t = take_index s + int (length fs) \<and> same_but p s t \<and> players t p = got (players s p) fs m"
  using assms
proof (induction fuel arbitrary: s d)
  case (Suc fuel)
  let ?q = "players s p"
  have inside: "0 \<le> normal_capacity ?q" "normal_capacity ?q < int (length (decks ?q))"
    "decks ?q ! nat (normal_capacity ?q) = d" using Suc.prems(2) by auto
  show ?case
  proof (cases "type d = FLOWER")
    case False
    then have "t = s" using Suc.prems by (simp add: drawn_tile_def player_of_def del: at_Some FLOWER_def)
    moreover have "?q = got ?q [] d" using inside by (simp add: got_def list_update_id flip: inside(3))
    ultimately show ?thesis
      using False by (intro exI [of _ "[]"] exI [of _ d]) (simp add: same_but_refl del: FLOWER_def)
  next
    case True
    obtain q1 where q1: "push_flower d ?q = Some q1"
      using Suc.prems True by (cases "push_flower d ?q")
        (simp_all add: drawn_tile_def player_of_def update_player_run del: at_Some FLOWER_def)
    let ?s1 = "s\<lparr>players := (players s)(p := q1)\<rparr>"
    obtain w u where u: "grab_tile p ?s1 = (Inr w, u)" "draw_loop fuel p u = (Inr v, t)"
      using Suc.prems True q1
      by (simp add: drawn_tile_def player_of_def update_player_run del: at_Some FLOWER_def split: prod.splits sum.splits)
    obtain m1 where g: "rest_of_wall s = m1 # rest_of_wall u" "same_but p ?s1 u" "take_index u = take_index s + 1"
      "players u p = q1\<lparr>decks := (decks q1)[nat (normal_capacity q1) := m1]\<rparr>"
      "at (decks (players u p)) (normal_capacity (players u p)) = Some m1"
      by (rule grab_took [OF u(1)]) (simp add: rest_of_wall_def)
    from Suc.IH [OF u(2) g(5)] obtain fs m where r: "m1 # rest_of_wall u = fs @ m # rest_of_wall t"
      "\<forall>f \<in> set fs. type f = FLOWER" "type m \<noteq> FLOWER" "take_index t = take_index u + int (length fs)"
      "same_but p u t" "players t p = got (players u p) fs m" by blast
    have "players t p = got ?q (d # fs) m"
      using r(6) unfolding g(4) got_more [OF q1] .
    moreover have "same_but p s ?s1" by (simp add: same_but_def)
    then have "same_but p s t" using g(2) r(5) by (blast intro: same_but_trans)
    ultimately show ?thesis
      using r True g(1,3) by (intro exI [of _ "d # fs"] exI [of _ m]) (simp del: FLOWER_def)
  qed
qed simp

lemma draw_run:
  assumes "draw p s = (Inr v, t)"
  obtains fs m where "rest_of_wall s = fs @ m # rest_of_wall t" and "\<forall>f \<in> set fs. type f = FLOWER" and "type m \<noteq> FLOWER"
    and "take_index t = take_index s + int (length fs) + 1" and "same_but p s t" and "players t p = got (players s p) fs m"
proof -
  obtain w u where u: "grab_tile p s = (Inr w, u)" "draw_loop (Suc (wall_left u)) p u = (Inr v, t)"
    using assms by (cases "grab_tile p s") (auto simp: draw_def simp del: draw_loop.simps split: sum.splits)
  obtain d where g: "rest_of_wall s = d # rest_of_wall u" "same_but p s u" "take_index u = take_index s + 1"
    "players u p = (players s p)\<lparr>decks := (decks (players s p))[nat (normal_capacity (players s p)) := d]\<rparr>"
    "at (decks (players u p)) (normal_capacity (players u p)) = Some d"
    by (rule grab_took [OF u(1)])
  from draw_loop_took [OF u(2) g(5)] obtain fs m where r: "d # rest_of_wall u = fs @ m # rest_of_wall t"
    "\<forall>f \<in> set fs. type f = FLOWER" "type m \<noteq> FLOWER" "take_index t = take_index u + int (length fs)"
    "same_but p u t" "players t p = got (players u p) fs m" by blast
  have "players t p = got (players s p) fs m" using r(6) unfolding g(4) got_start .
  then show thesis using r(1-4) g(1,3) same_but_trans [OF g(2) r(5)] by (intro that [of fs m]) (simp_all del: FLOWER_def)
qed

subsection \<open>The quiet gang\<close>

text \<open>What the quiet gang leaves of the game: the wall, and the player's hand or its gang.\<close>

definition ganged :: "int \<Rightarrow> mj \<Rightarrow> server \<Rightarrow> server \<Rightarrow> bool" where
  "ganged p m s t \<longleftrightarrow> take_index t = take_index s \<and> shuffled_mjs t = shuffled_mjs s \<and>
     (players t p = players s p \<or> gang_tiles m (players s p) = Some (players t p))"

lemma ganged_part: "game_part (ganged p m s)"
  unfolding game_part_def ganged_def by (metis more_fields(1,2,4))

lemma keep_ganged: "keeps (ganged p m s) clear_discarded"
  unfolding clear_discarded_def by (rule keeps_modp) (simp add: ganged_def)

lemma quiet_gang_ganged:
  "partial (like s) (quiet_gang p)
     (\<lambda>_ t. \<exists>m. at (decks (players s p)) (normal_capacity (players s p)) = Some m \<and> ganged p m s t)"
  (is "partial _ _ ?Q")
proof -
  have drawn: "partial (like s) (drawn_tile p)
     (\<lambda>m t. like s t \<and> at (decks (players s p)) (normal_capacity (players s p)) = Some m)"
    unfolding drawn_tile_def
    by (rule triple_bindp [OF partialI [OF like_player]]) (rule triple_liftp, auto simp del: at_Some)
  have gang: "partial (like s) (thenp (update_player p (gang_tiles m)) (thenp (tell_others p msg)
      (thenp clear_discarded (thenp clear_recvline (ret (0 :: int)))))) ?Q"
    if m: "at (decks (players s p)) (normal_capacity (players s p)) = Some m" for m msg
  proof -
    have "partial (like s) (update_player p (gang_tiles m)) (\<lambda>_. ganged p m s)"
      by (rule tripleI) (auto simp: update_player_run ganged_def split: option.splits dest: same_game)
    moreover have "keeps (ganged p m s) (thenp (tell_others p msg) (thenp clear_discarded (thenp clear_recvline (ret (0::int)))))"
      by (intro keeps_intros game_keeps ganged_part keep_ganged)
    note partialI [OF this]
    ultimately show ?thesis by (rule triple_thenp [OF _ triple_post]) (use m in blast)
  qed
  have no_gang: "partial (like s) (ret (0 :: int)) ?Q"
    if "at (decks (players s p)) (normal_capacity (players s p)) = Some m" for m
    using that by (auto simp: triple_def ganged_def simp del: at_Some dest: same_game)
  have player: "stays (like s) (player_of p)" by (simp add: player_of_def triple_def)
  show ?thesis
    unfolding quiet_gang_def
    by (rule partial_bindp [OF player], rule partial_bindp [OF stays_liftp], rule triple_bindp [OF drawn], rule triple_pure)
      (intro triple_if partial_bindp [OF stays_liftp] partial_thenp [OF like_tell] partial_thenp [OF like_hear]
        partial_bindp [OF like_said_yes], (erule gang no_gang)+)
qed

subsection \<open>Properties\<close>

text \<open>
  Property C14: what a draw does to the game. When \<open>draw\<close> returns, it has taken from the wall, in its
  order, some flowers and then one tile that is none. The flowers stand behind the player's flowers
  and are counted, the tile stands behind the hand, and nothing else of the player has changed; of the
  rest of the game nothing has changed but the index into the wall.
\<close>

theorem draw_takes_next:
  assumes "draw p s = (Inr v, t)"
  shows "\<exists>fs m. rest_of_wall s = fs @ m # rest_of_wall t \<and> (\<forall>f \<in> set fs. type f = FLOWER) \<and> type m \<noteq> FLOWER \<and>
     players t p = (players s p)\<lparr>decks := (decks (players s p))[nat (normal_capacity (players s p)) := m],
       flowers := take (nat (flower_index (players s p))) (flowers (players s p)) @ fs @
         drop (nat (flower_index (players s p)) + length fs) (flowers (players s p)),
       flower_index := flower_index (players s p) + int (length fs)\<rparr> \<and>
     io.more t = io.more (s\<lparr>players := (players s)(p := players t p), take_index := take_index s + int (length fs) + 1\<rparr>)"
proof -
  obtain fs m where d: "rest_of_wall s = fs @ m # rest_of_wall t" "\<forall>f \<in> set fs. type f = FLOWER" "type m \<noteq> FLOWER"
    "take_index t = take_index s + int (length fs) + 1" "same_but p s t" "players t p = got (players s p) fs m"
    by (rule draw_run [OF assms])
  have "io.more t = io.more (s\<lparr>players := (players s)(p := players t p), take_index := take_index s + int (length fs) + 1\<rparr>)"
    using d(5) unfolding same_but_def d(4) .
  then show ?thesis
    using d(1-3,6) unfolding got_def by (intro exI [of _ fs] exI [of _ m] conjI) assumption+
qed

text \<open>
  Property C23: a draw from a wall of flowers. When all that is left of the wall are flowers, or nothing,
  \<open>draw\<close> does not return: unless the process ends in \<open>exit\<close>, it reads behind the wall or writes
  behind the player's flowers. The loop of the round asks whether the wall is exhausted only after
  a whole turn.
\<close>

theorem draw_past_wall:
  assumes "\<forall>m \<in> set (rest_of_wall s). type m = FLOWER"
  shows "fst (draw p s) = Inl Undefined \<or> (\<exists>n. fst (draw p s) = Inl (Exited n))"
proof (cases "draw p s")
  case (Pair r t)
  show ?thesis
  proof (cases r)
    case (Inr v)
    obtain fs m where "rest_of_wall s = fs @ m # rest_of_wall t" "type m \<noteq> FLOWER"
      by (rule draw_run [OF Pair [unfolded Inr]])
    then show ?thesis using assms by (auto simp del: FLOWER_def)
  next
    case (Inl e)
    have "e \<noteq> Diverges" using triple_Inl [OF draw_wall _ Pair [unfolded Inl], of "wall_left s"] by simp
    then show ?thesis using Pair Inl by (cases e) auto
  qed
qed

text \<open>
  Property C21: the quiet gang draws no replacement. Whatever the player answers, \<open>quiet_gang\<close>
  returns 0 and takes nothing from the wall, also when it has moved four tiles to the door; so the loop
  of \<open>draw_n_discard\<close> does not draw and test again as it means to, while the client that ganged
  expects a tile.
\<close>

theorem quiet_gang_no_replacement:
  assumes "quiet_gang p s = (Inr v, t)"
  shows "v = 0 \<and> take_index t = take_index s \<and>
     (players t p = players s p \<or>
      (\<exists>m. at (decks (players s p)) (normal_capacity (players s p)) = Some m \<and>
         gang_tiles m (players s p) = Some (players t p)))"
  using triple_Inr [OF quiet_gang_zero [of "\<lambda>_. True"] _ assms] triple_Inr [OF quiet_gang_ganged _ assms]
  by (auto simp: ganged_def simp del: at_Some)

subsection \<open>Discards that are not checked\<close>

lemma remove_beyond_hand:
  assumes D: "hand_drawn q" and i: "normal_capacity q < i" "i < 20"
  obtains q' where "remove_tile i q = Some q'" and "decks q' ! nat i = decks q ! nat (normal_capacity q)"
    and "is_null (decks q' ! nat (normal_capacity q))"
proof -
  let ?n = "nat (normal_capacity q)"
  have h: "length (decks q) = 20" "0 \<le> normal_capacity q" "normal_capacity q \<le> 16" using D by (auto simp: hand_drawn_def)
  define q1 where "q1 = q\<lparr>decks := (decks q)[?n := decks q ! nat i, nat i := decks q ! ?n]\<rparr>"
  have s1: "swap_deck (normal_capacity q) i q = Some q1"
    using h i by (simp add: swap_deck_def swap_at_def at_eq set_at_eq q1_def)
  define q2 where "q2 = q1\<lparr>decks := (decks q1)[?n := clear_mj (decks q1 ! ?n)]\<rparr>"
  have s2: "clear_deck (normal_capacity q1) q1 = Some q2"
    using h i by (simp add: clear_deck_def put_deck_def at_eq set_at_eq q1_def q2_def)
  have q2: "length (decks q2) = 20" "normal_capacity q2 = normal_capacity q" "decks q2 ! nat i = decks q ! ?n"
    "is_null (decks q2 ! ?n)"
    using h i by (auto simp: q2_def q1_def nth_list_update)
  obtain ys where ys: "decks_quick_sort (decks q2) 0 (normal_capacity q - 1) = Some ys"
    "range_perm 0 (normal_capacity q - 1) (decks q2) ys"
    by (rule deck_sort.sortE [of 0 "normal_capacity q - 1" "decks q2"]) (use q2 h in auto)
  have "ys ! nat i = decks q2 ! nat i" "ys ! ?n = decks q2 ! ?n"
    using ys(2) h i by (auto simp: range_perm_def)
  moreover have "remove_tile i q = Some (q2\<lparr>decks := ys\<rparr>)"
    using s1 s2 ys(1) q2(2) by (simp add: remove_tile_def sort_deck_def)
  ultimately show thesis using q2 by (intro that [of "q2\<lparr>decks := ys\<rparr>"]) simp_all
qed

text \<open>Whatever the index, the place of the drawn tile is empty afterwards.\<close>

lemma remove_leaves_empty:
  assumes "hand_drawn q" and "remove_tile i q = Some q'"
  shows "\<exists>m \<in> set (decks q'). is_null m"
proof -
  have h: "length (decks q) = 20" "0 \<le> normal_capacity q" "normal_capacity q \<le> 16" using assms(1) by (auto simp: hand_drawn_def)
  obtain q1 q2 where s: "swap_deck (normal_capacity q) i q = Some q1" "clear_deck (normal_capacity q1) q1 = Some q2"
    "sort_deck 0 (normal_capacity q2 - 1) q2 = Some q'"
    using assms(2) by (auto simp: remove_tile_def bind_eq_Some_conv)
  have q1: "length (decks q1) = 20" "normal_capacity q1 = normal_capacity q"
    using s(1) h by (auto simp: swap_deck_def swap_at_def set_at_def bind_eq_Some_conv split: if_splits)
  have q2: "length (decks q2) = 20" "normal_capacity q2 = normal_capacity q" "is_null (decks q2 ! nat (normal_capacity q))"
    using s(2) q1 h by (auto simp: clear_deck_def put_deck_def set_at_def bind_eq_Some_conv split: if_splits)
  obtain ys where ys: "decks_quick_sort (decks q2) 0 (normal_capacity q2 - 1) = Some ys"
    "range_perm 0 (normal_capacity q2 - 1) (decks q2) ys"
    by (rule deck_sort.sortE [of 0 "normal_capacity q2 - 1" "decks q2"]) (use q2 h in auto)
  have "ys ! nat (normal_capacity q) = decks q2 ! nat (normal_capacity q)" "length ys = 20"
    using ys(2) q2(1,2) h by (auto simp: range_perm_def)
  moreover have "decks q' = ys" using s(3) ys(1) by (auto simp: sort_deck_def bind_eq_Some_conv)
  moreover have "ys ! nat (normal_capacity q) \<in> set ys" using calculation(2) h by (intro nth_mem) simp
  ultimately show ?thesis using q2(3) by auto
qed

lemma discard_run:
  assumes "hear p s = (Inr n, u)" and "read_index (recvline u) = Some i"
  shows "discard p s = (case at (decks (players u p)) i of None \<Rightarrow> (Inl Undefined, u)
     | Some m \<Rightarrow> thenp (modp (\<lambda>s. s\<lparr>discarded_mj := (discarded_mj s)\<lparr>type := type m, number := number m\<rparr>\<rparr>)) (
        thenp clear_recvline (
        thenp (update_player p (remove_tile i)) (
        thenp (broadcast_discard_mj p) (ret 0)))) u)"
  using assms by (simp add: discard_def player_of_def del: at_Some at_None split: option.splits)

text \<open>
  Property C22: the index of a discard is not checked. An index outside the twenty places of the
  array is undefined behaviour of the server. An index behind the drawn tile, but inside the array,
  is taken: the turn returns, an empty tile is the discarded one, nothing is broadcast to the other
  players, and the drawn tile is moved out of the hand to that place.
\<close>

theorem discard_index_unchecked:
  assumes "hear p s = (Inr n, u)" and "read_index (recvline u) = Some i" and "hand_drawn (players u p)"
  shows "(i < 0 \<or> 20 \<le> i \<longrightarrow> fst (discard p s) = Inl Undefined) \<and>
     (normal_capacity (players u p) < i \<and> i < 20 \<longrightarrow>
       (\<exists>t. discard p s = (Inr 0, t) \<and> sent t = sent u \<and> is_null (discarded_mj t) \<and>
          decks (players t p) ! nat i = decks (players u p) ! nat (normal_capacity (players u p)) \<and>
          is_null (decks (players t p) ! nat (normal_capacity (players u p)))))"
proof (intro conjI impI)
  let ?q = "players u p"
  have len: "length (decks ?q) = 20" using assms(3) by (simp add: hand_drawn_def)
  note run = discard_run [OF assms(1,2)]
  show "fst (discard p s) = Inl Undefined" if "i < 0 \<or> 20 \<le> i"
  proof -
    have "at (decks ?q) i = None" using that len by auto
    then show ?thesis unfolding run by (simp del: at_None)
  qed
  assume i: "normal_capacity ?q < i \<and> i < 20"
  then obtain q' where q': "remove_tile i ?q = Some q'" "decks q' ! nat i = decks ?q ! nat (normal_capacity ?q)"
    "is_null (decks q' ! nat (normal_capacity ?q))"
    using remove_beyond_hand [OF assms(3)] by blast
  have "0 \<le> normal_capacity ?q" using assms(3) by (simp add: hand_drawn_def)
  then have m: "at (decks ?q) i = Some (decks ?q ! nat i)" "is_null (decks ?q ! nat i)"
    using i len assms(3) by (auto simp: hand_drawn_def)
  then have "type (decks ?q ! nat i) = 0" "number (decks ?q ! nat i) = 0" by (simp_all add: is_null_def)
  then show "\<exists>t. discard p s = (Inr 0, t) \<and> sent t = sent u \<and> is_null (discarded_mj t) \<and>
          decks (players t p) ! nat i = decks ?q ! nat (normal_capacity ?q) \<and>
          is_null (decks (players t p) ! nat (normal_capacity ?q))"
    unfolding run using m q'
    by (simp add: clear_recvline_def set_recvline_def update_player_run broadcast_discard_mj_def discard_text_def
        is_null_def del: at_Some)
qed

subsection \<open>Witnesses\<close>

text \<open>A table of four equal hands, on which the clients answer as given.\<close>

definition table_of :: "player \<Rightarrow> mj list \<Rightarrow> string list \<Rightarrow> server" where
  "table_of q wall lines = \<lparr>net = (\<lambda>fd. if fd = 5 then map Bytes lines else [Bytes ''ACK\<newline>'']),
     read_cnt = 0, read_ptr = [], sent = [], console = [], recvline = [], players = (\<lambda>p. q\<lparr>player_fd := p + 5\<rparr>),
     shuffled_mjs = wall, discarded_mj = null_mj, take_index = 0, winner = -1, rand_seq = (\<lambda>_. 0), rand_pos = 0,
     rset = {}, selects = []\<rparr>"

theorem draw_takes_next_witness:
  "\<exists>t fs m. draw 0 (table_of (seat 2 [tile 1 3, tile 4 7]) [tile 5 2, tile 3 4, tile 1 1] [''ACK\<newline>'', ''ACK\<newline>'']) = (Inr 0, t) \<and>
     [tile 5 2, tile 3 4, tile 1 1] = fs @ m # rest_of_wall t \<and> type m \<noteq> FLOWER"
proof -
  let ?s = "table_of (seat 2 [tile 1 3, tile 4 7]) [tile 5 2, tile 3 4, tile 1 1] [''ACK\<newline>'', ''ACK\<newline>'']"
  obtain v t where run: "draw 0 ?s = (v, t)" by (metis prod.exhaust)
  have "fst (draw 0 ?s) = Inr 0" by code_simp
  then have v: "draw 0 ?s = (Inr 0, t)" using run by simp
  have "rest_of_wall ?s = [tile 5 2, tile 3 4, tile 1 1]" by code_simp
  with draw_takes_next [OF v] v show ?thesis by auto
qed

theorem draw_past_wall_witness:
  "fst (draw 0 (table_of (seat 2 [tile 1 3, tile 4 7]) [tile 5 2] [''ACK\<newline>'', ''ACK\<newline>''])) = Inl Undefined"
proof -
  let ?s = "table_of (seat 2 [tile 1 3, tile 4 7]) [tile 5 2] [''ACK\<newline>'', ''ACK\<newline>'']"
  have "rest_of_wall ?s = [tile 5 2]" by code_simp
  then have "\<forall>m \<in> set (rest_of_wall ?s). type m = FLOWER" by (simp add: tile_def FLOWER_def)
  note draw_past_wall [OF this, of 0]
  moreover have "(case fst (draw 0 ?s) of Inl (Exited n) \<Rightarrow> False | _ \<Rightarrow> True)" by code_simp
  ultimately show ?thesis by auto
qed

theorem quiet_gang_no_replacement_witness:
  "\<exists>t. quiet_gang 0 (table_of (seat 3 (replicate 4 (tile 2 6))) [] [''ACK\<newline>'', ''YES!\<newline>'']) = (Inr 0, t) \<and>
     normal_capacity (players t 0) = 0 \<and> take_index t = 0"
proof -
  let ?s = "table_of (seat 3 (replicate 4 (tile 2 6))) [] [''ACK\<newline>'', ''YES!\<newline>'']"
  obtain v t where run: "quiet_gang 0 ?s = (v, t)" by (metis prod.exhaust)
  have "fst (quiet_gang 0 ?s) = Inr 0" by code_simp
  then have v: "quiet_gang 0 ?s = (Inr 0, t)" using run by simp
  have "normal_capacity (players (snd (quiet_gang 0 ?s)) 0) = 0" by code_simp
  moreover have "take_index ?s = 0" by (simp add: table_of_def)
  ultimately show ?thesis using quiet_gang_no_replacement [OF v] v by simp
qed

theorem discard_index_unchecked_witness:
  "\<exists>t. discard 0 (table_of (seat 2 [tile 1 3, tile 4 7, tile 2 5]) [] [''7\<newline>'']) = (Inr 0, t) \<and> is_null (discarded_mj t)"
proof -
  let ?q = "seat 2 [tile 1 3, tile 4 7, tile 2 5]"
  let ?s = "table_of ?q [] [''7\<newline>'']"
  obtain r u where run: "hear 0 ?s = (r, u)" by (metis prod.exhaust)
  have "fst (hear 0 ?s) = Inr 0" by code_simp
  then have h: "hear 0 ?s = (Inr 0, u)" using run by simp
  have "read_index (recvline (snd (hear 0 ?s))) = Some 7" by code_simp
  then have i: "read_index (recvline u) = Some 7" using h by simp
  have "players u = players ?s" by (rule more_fields(1)) (rule triple_Inr [OF like_hear refl h])
  then have q: "players u 0 = ?q" by (simp add: table_of_def seat_def)
  have d: "hand_drawn (players u 0)" unfolding q by (rule seat_drawn)
  have "normal_capacity (players u 0) < 7 \<and> (7 :: int) < 20" unfolding q by (simp add: seat_def)
  from discard_index_unchecked [OF h i d, THEN conjunct2, THEN mp, OF this] show ?thesis by (elim exE conjE) (rule exI, rule conjI)
qed

subsection \<open>Printing\<close>

text \<open>
  Property C35: when printing stays inside the hand and the tables. For a hand and a door of twenty places
  whose tiles have glyphs, and such a card on the table, the server's and the client's \<open>print_deck\<close>
  stay inside their arrays exactly when one of the twenty places of the hand is empty, wherever it is: the
  loop over the hand looks one place ahead, and stops at the first empty place. A hand with a drawn tile,
  a sorted hand, and a hand after any discard, also of an index behind it, have such a place.
\<close>

theorem display_in_bounds:
  assumes "length (decks q) = 20" and "length (door q) = 20" and "\<forall>m \<in> set (decks q) \<union> set (door q). printable m"
    and "printable d"
  shows "((\<exists>out. print_deck (decks q) (door q) d separate show_index = Some out) \<longleftrightarrow> (\<exists>m \<in> set (decks q). is_null m)) \<and>
     ((\<exists>out. client_print_deck txt (decks q) (door q) d separate show_index = Some out) \<longleftrightarrow> (\<exists>m \<in> set (decks q). is_null m)) \<and>
     (hand_drawn q \<or> hand_ok q \<or> (\<exists>i q0. hand_drawn q0 \<and> remove_tile i q0 = Some q) \<longrightarrow> (\<exists>m \<in> set (decks q). is_null m))"
proof (intro conjI impI)
  show "(\<exists>out. print_deck (decks q) (door q) d separate show_index = Some out) \<longleftrightarrow> (\<exists>m \<in> set (decks q). is_null m)"
    "(\<exists>out. client_print_deck txt (decks q) (door q) d separate show_index = Some out) \<longleftrightarrow> (\<exists>m \<in> set (decks q). is_null m)"
    unfolding print_deck_def client_print_deck_def
    by (rule print_rows_iff [OF assms(1,2) _ assms(3,4)]; simp)+
  assume "hand_drawn q \<or> hand_ok q \<or> (\<exists>i q0. hand_drawn q0 \<and> remove_tile i q0 = Some q)"
  then show "\<exists>m \<in> set (decks q). is_null m"
  proof (elim disjE exE conjE)
    assume "hand_drawn q"
    then have "is_null (decks q ! 19)" by (auto simp: hand_drawn_def)
    then show ?thesis using assms(1) by (intro bexI [of _ "decks q ! 19"]) simp_all
  next
    assume "hand_ok q"
    then have "is_null (decks q ! 19)" by (auto simp: hand_ok_def)
    then show ?thesis using assms(1) by (intro bexI [of _ "decks q ! 19"]) simp_all
  next
    fix i q0 assume "hand_drawn q0" "remove_tile i q0 = Some q"
    then show ?thesis by (rule remove_leaves_empty)
  qed
qed

theorem display_in_bounds_witness:
  "\<exists>out. print_deck (decks (seat 2 [tile 1 3, tile 4 7, tile 2 5])) (replicate 20 null_mj) (tile 4 6) True True = Some out"
proof -
  let ?q = "seat 2 [tile 1 3, tile 4 7, tile 2 5]"
  have "\<forall>m \<in> set (decks ?q) \<union> set (door ?q). printable m"
    by (simp add: seat_def printable_def playable_def tile_def)
  moreover have "door ?q = replicate 20 null_mj" "length (decks ?q) = 20" "printable (tile 4 6)"
    by (simp_all add: seat_def printable_def playable_def tile_def)
  ultimately show ?thesis
    using display_in_bounds [of ?q "tile 4 6" True True "[]"] seat_drawn by simp
qed

end
