(* ===== verification/TurnBounds.thy ===== *)
theory TurnBounds
  imports Turns
begin

text \<open>
  Where a turn of the server can leave an array: the draw, the test for a win, the quiet gang and the
  printing stay inside for every hand in order, whatever the clients answer; only the
  index of the discard, which is not checked, can be outside.
\<close>

subsection \<open>The draw\<close>





subsection \<open>What the operations on a hand need and keep\<close>













subsection \<open>The turn\<close>

text \<open>A fault that is undefined behaviour comes from the index of the discard.\<close>

definition at_index :: "fault \<Rightarrow> server \<Rightarrow> bool" where
  "at_index e t \<longleftrightarrow>
     (e = Undefined \<longrightarrow> (case read_index (recvline t) of None \<Rightarrow> True | Some i \<Rightarrow> i < 0 \<or> 20 \<le> i))"

lemma at_index_other [simp]: "at_index (Exited n) t"
  by (simp add: at_index_def)








lemma triple_lift_some: "(\<And>s. P s \<Longrightarrow> \<exists>a. x = Some a) \<Longrightarrow> triple P (liftp x) (\<lambda>a s. P s \<and> x = Some a) E"
  by (cases x) (auto simp: triple_def)













subsection \<open>Property\<close>



end
