(* ===== verification/Addresses.thy ===== *)
theory Addresses
  imports UnpIO
begin

text \<open>
  The conversions of IPv6 addresses (unpv13e/libfree/inet_pton.c and inet_ntop.c) and the
  dispatch over the address family. Characters are bytes, addresses are lists of bytes below 256;
  \<open>tmp\<close> is the array of 16 bytes, \<open>tp\<close> and \<open>colonp\<close> are indices into it. The values of the
  C's unsigned arithmetic stay below \<open>2 ^ 20\<close>, so \<open>val <<= 4; val |= d\<close> is \<open>val * 16 + d\<close>.
  A result \<open>None\<close> is the return value 0 of \<open>inet_pton6\<close> and NULL of \<open>inet_ntop6\<close>.
\<close>

subsection \<open>From text to an address\<close>

text \<open>\<open>strchr(s, c) - s\<close>\<close>

definition strchr_pos :: "string \<Rightarrow> char \<Rightarrow> nat option" where
  "strchr_pos s c = (if c \<in> set s then Some (length (takeWhile (\<lambda>x. x \<noteq> c) s)) else None)"

definition xdigit :: "char \<Rightarrow> nat option" where
  "xdigit ch = (case strchr_pos ''0123456789abcdef'' ch of Some k \<Rightarrow> Some k
     | None \<Rightarrow> strchr_pos ''0123456789ABCDEF'' ch)"

text \<open>\<open>*tp++ = val >> 8; *tp++ = val\<close>, and the copy that \<open>inet_pton4\<close> makes.\<close>

definition put_word :: "nat \<Rightarrow> nat \<Rightarrow> nat list \<Rightarrow> nat list" where
  "put_word v tp tmp = tmp[tp := v div 256 mod 256, tp + 1 := v mod 256]"

definition put_quad :: "nat list \<Rightarrow> nat \<Rightarrow> nat list \<Rightarrow> nat list" where
  "put_quad q tp tmp = take tp tmp @ q @ drop (tp + 4) tmp"

text \<open>The locals at the end of the loop: \<open>saw_xdigit\<close>, \<open>val\<close>, \<open>tmp\<close>, \<open>tp\<close>, \<open>colonp\<close>.\<close>

type_synonym pton6_state = "bool \<times> nat \<times> nat list \<times> nat \<times> nat option"

fun pton6_loop :: "string \<Rightarrow> string \<Rightarrow> bool \<Rightarrow> nat \<Rightarrow> nat list \<Rightarrow> nat \<Rightarrow> nat option \<Rightarrow> pton6_state option" where
  "pton6_loop [] curtok saw v tmp tp colonp = Some (saw, v, tmp, tp, colonp)"
| "pton6_loop (ch # src) curtok saw v tmp tp colonp =
     (case xdigit ch of
        Some d \<Rightarrow>
          (let v = v * 16 + d in
           if v > 0xffff then None else pton6_loop src curtok True v tmp tp colonp)
      | None \<Rightarrow>
          if ch = CHR '':'' then
            if \<not> saw then
              if colonp \<noteq> None then None else pton6_loop src src saw v tmp tp (Some tp)
            else if tp + 2 > 16 then None
            else pton6_loop src src False 0 (put_word v tp tmp) (tp + 2) colonp
          else if ch = CHR ''.'' \<and> tp + 4 \<le> 16 then
            (case inet_pton4 curtok of
               None \<Rightarrow> None
             | Some q \<Rightarrow> Some (False, v, put_quad q tp tmp, tp + 4, colonp))
          else None)"

text \<open>The shift of the \<open>n\<close> bytes behind the double colon to the end, by hand.\<close>

fun shift_loop :: "nat list \<Rightarrow> nat \<Rightarrow> nat \<Rightarrow> nat list \<Rightarrow> nat list" where
  "shift_loop [] n colonp tmp = tmp"
| "shift_loop (i # is) n colonp tmp =
     (let tmp = tmp[16 - i := tmp ! (colonp + n - i)] in
      shift_loop is n colonp (tmp[colonp + n - i := 0]))"

definition pton6_end :: "pton6_state \<Rightarrow> nat list option" where
  "pton6_end = (\<lambda>(saw, v, tmp, tp, colonp). do {
     (tmp, tp) \<leftarrow> (if saw then if tp + 2 > 16 then None else Some (put_word v tp tmp, tp + 2)
                  else Some (tmp, tp));
     let (tmp, tp) = (case colonp of None \<Rightarrow> (tmp, tp)
       | Some c \<Rightarrow> (shift_loop [1..<Suc (tp - c)] (tp - c) c tmp, 16));
     if tp \<noteq> 16 then None else Some tmp
   })"

definition inet_pton6 :: "string \<Rightarrow> nat list option" where
  "inet_pton6 src =
     (let src = cstr src in
      if src \<noteq> [] \<and> hd src = CHR '':'' \<and> (tl src = [] \<or> hd (tl src) \<noteq> CHR '':'') then None
      else
        let src = (if src \<noteq> [] \<and> hd src = CHR '':'' then tl src else src) in
        do { r \<leftarrow> pton6_loop src src False 0 (replicate 16 0) 0 None; pton6_end r })"

subsection \<open>From an address to text\<close>

definition hex_char :: "nat \<Rightarrow> char" where
  "hex_char d = ''0123456789abcdef'' ! d"

text \<open>The \<open>%x\<close> conversion of \<open>sprintf\<close>.\<close>

fun show_hex :: "nat \<Rightarrow> string" where
  "show_hex n = (if n < 16 then [hex_char n] else show_hex (n div 16) @ [hex_char (n mod 16)])"

declare show_hex.simps [simp del]

definition address_words :: "nat list \<Rightarrow> nat list" where
  "address_words src = map (\<lambda>i. src ! (2 * i) * 256 + src ! (2 * i + 1)) [0..<8]"

text \<open>A run of zero words: its \<open>base\<close> and \<open>len\<close>. There is none when the C's \<open>base\<close> is -1.\<close>

type_synonym zero_run = "(nat \<times> nat) option"

definition longer_run :: "zero_run \<Rightarrow> zero_run \<Rightarrow> zero_run" where
  "longer_run best cur =
     (case cur of None \<Rightarrow> best
      | Some (b, l) \<Rightarrow> (case best of None \<Rightarrow> cur | Some (b', l') \<Rightarrow> if l > l' then cur else best))"

fun zero_runs :: "nat list \<Rightarrow> nat \<Rightarrow> zero_run \<Rightarrow> zero_run \<Rightarrow> zero_run" where
  "zero_runs [] i best cur = longer_run best cur"
| "zero_runs (w # ws) i best cur =
     (if w = 0 then zero_runs ws (i + 1) best (case cur of None \<Rightarrow> Some (i, 1) | Some (b, l) \<Rightarrow> Some (b, l + 1))
      else zero_runs ws (i + 1) (longer_run best cur) None)"

definition best_run :: "nat list \<Rightarrow> zero_run" where
  "best_run ws = (case zero_runs ws 0 None None of None \<Rightarrow> None
     | Some (b, l) \<Rightarrow> if l < 2 then None else Some (b, l))"

definition encapsulated :: "nat list \<Rightarrow> zero_run \<Rightarrow> nat \<Rightarrow> bool" where
  "encapsulated ws best i =
     (i = 6 \<and> (case best of None \<Rightarrow> False | Some (b, l) \<Rightarrow> b = 0 \<and> (l = 6 \<or> (l = 5 \<and> ws ! 5 = 0xffff))))"

text \<open>The formatting loop; \<open>tmp\<close> is what is printed so far into the 46 bytes of the buffer.\<close>

fun ntop6_loop :: "nat list \<Rightarrow> nat list \<Rightarrow> zero_run \<Rightarrow> nat list \<Rightarrow> string \<Rightarrow> string option" where
  "ntop6_loop src ws best [] tmp = Some tmp"
| "ntop6_loop src ws best (i # is) tmp =
     (if (case best of None \<Rightarrow> False | Some (b, l) \<Rightarrow> b \<le> i \<and> i < b + l) then
        ntop6_loop src ws best is (if best \<noteq> None \<and> i = fst (the best) then tmp @ '':'' else tmp)
      else
        let tmp = (if i \<noteq> 0 then tmp @ '':'' else tmp) in
        if encapsulated ws best i then
          (case inet_ntop4 (drop 12 src) (46 - length tmp) of None \<Rightarrow> None | Some q \<Rightarrow> Some (tmp @ q))
        else ntop6_loop src ws best is (tmp @ show_hex (ws ! i)))"

definition inet_ntop6 :: "nat list \<Rightarrow> nat \<Rightarrow> string option" where
  "inet_ntop6 src dst_size =
     (let ws = address_words src; best = best_run ws in do {
        tmp \<leftarrow> ntop6_loop src ws best [0..<8] [];
        let tmp = (case best of None \<Rightarrow> tmp | Some (b, l) \<Rightarrow> if b + l = 8 then tmp @ '':'' else tmp);
        if length tmp + 1 > dst_size then None else Some tmp
      })"

subsection \<open>The address families\<close>

definition AF_INET :: int where "AF_INET = 2"
definition AF_INET6 :: int where "AF_INET6 = 10"

text \<open>The return value and the address that is stored.\<close>

definition inet_pton :: "int \<Rightarrow> string \<Rightarrow> int \<times> nat list option" where
  "inet_pton af src =
     (let stored = (\<lambda>r. (if r = None then 0 else 1, r)) in
      if af = AF_INET then stored (inet_pton4 src)
      else if af = AF_INET6 then stored (inet_pton6 src)
      else (-1, None))"

definition inet_ntop :: "int \<Rightarrow> nat list \<Rightarrow> nat \<Rightarrow> string option" where
  "inet_ntop af src dst_size =
     (if af = AF_INET then inet_ntop4 src dst_size
      else if af = AF_INET6 then inet_ntop6 src dst_size
      else None)"

subsection \<open>Printed groups are read back\<close>

lemma xdigit_hex_char: "d < 16 \<Longrightarrow> xdigit (hex_char d) = Some d"
proof -
  assume "d < 16"
  moreover have "\<forall>d \<in> set [0..<16]. xdigit (hex_char d) = Some d" by code_simp
  ultimately show ?thesis by simp
qed

lemma xdigit_colon [simp]: "xdigit CHR '':'' = None"
  by code_simp

lemma show_hex_digits: "c \<in> set (show_hex n) \<Longrightarrow> \<exists>d < 16. c = hex_char d"
proof (induction n rule: show_hex.induct)
  case (1 n)
  then show ?case by (cases "n < 16") (auto simp: show_hex.simps [of n] intro: exI [of _ n] exI [of _ "n mod 16"])
qed

text \<open>The digits of a group are shifted into \<open>val\<close>.\<close>

lemma pton6_digit:
  assumes "d < 16" "v * 16 + d \<le> 0xffff"
  shows "pton6_loop (hex_char d # src) ct saw v tmp tp cp = pton6_loop src ct True (v * 16 + d) tmp tp cp"
  using assms by (simp add: xdigit_hex_char Let_def)

lemma pton6_hex:
  "n \<le> 0xffff \<Longrightarrow> pton6_loop (show_hex n @ src) ct saw 0 tmp tp cp = pton6_loop src ct True n tmp tp cp"
proof (induction n arbitrary: src saw rule: show_hex.induct)
  case (1 n)
  show ?case
  proof (cases "n < 16")
    case True
    then show ?thesis using pton6_digit [of n 0] by (simp add: show_hex.simps [of n])
  next
    case False
    have "n div 16 \<le> 0xffff" using 1 by simp
    moreover have "n div 16 * 16 + n mod 16 = n" by simp
    ultimately show ?thesis
      using 1 False pton6_digit [of "n mod 16" "n div 16"] by (simp add: show_hex.simps [of n])
  qed
qed

definition word_bytes :: "nat list \<Rightarrow> nat list" where
  "word_bytes ws = concat (map (\<lambda>w. [w div 256, w mod 256]) ws)"

definition padded :: "nat list \<Rightarrow> nat list" where
  "padded bs = bs @ replicate (16 - length bs) 0"

lemma word_bytes_simps [simp]:
  "word_bytes [] = []" "word_bytes (w # ws) = w div 256 # w mod 256 # word_bytes ws"
  "word_bytes (us @ ws) = word_bytes us @ word_bytes ws"
  by (simp_all add: word_bytes_def)

lemma length_word_bytes [simp]: "length (word_bytes ws) = 2 * length ws"
  by (induction ws) simp_all

lemma put_word_padded:
  assumes "length bs + 2 \<le> 16" and "w \<le> 0xffff"
  shows "put_word w (length bs) (padded bs) = padded (bs @ [w div 256, w mod 256])"
proof -
  have r: "replicate (16 - length bs) (0 :: nat) = 0 # 0 # replicate (16 - (length bs + 2)) 0"
    using assms(1) by (simp flip: replicate_Suc)
  have "w div 256 mod 256 = w div 256" using assms(2) by simp
  then show ?thesis unfolding put_word_def padded_def r by (simp add: list_update_append)
qed

text \<open>Groups with a colon behind each.\<close>

definition groups :: "nat list \<Rightarrow> string" where
  "groups ws = concat (map (\<lambda>w. show_hex w @ '':'') ws)"

lemma groups_simps [simp]: "groups [] = []" "groups (w # ws) = show_hex w @ CHR '':'' # groups ws"
  "groups (us @ ws) = groups us @ groups ws"
  by (simp_all add: groups_def)

lemma pton6_groups:
  assumes "\<forall>w \<in> set ws. w \<le> 0xffff" and "length bs + 2 * length ws \<le> 16"
  shows "pton6_loop (groups ws @ r) (groups ws @ r) False 0 (padded bs) (length bs) cp =
     pton6_loop r r False 0 (padded (bs @ word_bytes ws)) (length bs + 2 * length ws) cp"
  using assms
proof (induction ws arbitrary: bs)
  case (Cons w ws)
  have "pton6_loop (groups (w # ws) @ r) (groups (w # ws) @ r) False 0 (padded bs) (length bs) cp =
      pton6_loop (groups ws @ r) (groups ws @ r) False 0 (padded (bs @ [w div 256, w mod 256]))
        (length (bs @ [w div 256, w mod 256])) cp"
    using Cons.prems by (simp add: pton6_hex put_word_padded)
  also have "\<dots> = pton6_loop r r False 0 (padded (bs @ word_bytes (w # ws))) (length bs + 2 * length (w # ws)) cp"
    using Cons.IH [of "bs @ [w div 256, w mod 256]"] Cons.prems by simp
  finally show ?case .
qed simp

text \<open>Groups with a colon between them, up to the end of the text.\<close>

definition joined :: "nat list \<Rightarrow> string" where
  "joined ws = (if ws = [] then [] else groups (butlast ws) @ show_hex (last ws))"

lemma pton6_joined:
  assumes "\<forall>w \<in> set ws. w \<le> 0xffff" and "length bs + 2 * length ws \<le> 16"
  shows "(pton6_loop (joined ws) (joined ws) False 0 (padded bs) (length bs) cp \<bind> pton6_end) =
     pton6_end (False, 0, padded (bs @ word_bytes ws), length bs + 2 * length ws, cp)"
proof (cases ws rule: rev_cases)
  case Nil
  then show ?thesis by (simp add: joined_def)
next
  case (snoc us w)
  have b: "length bs + 2 * length us + 2 \<le> 16" "w \<le> 0xffff" using assms snoc by auto
  have "pton6_loop (joined ws) (joined ws) False 0 (padded bs) (length bs) cp =
      Some (True, w, padded (bs @ word_bytes us), length (bs @ word_bytes us), cp)"
    using assms snoc pton6_groups [of us bs "show_hex w"] pton6_hex [of w "[]"] by (simp add: joined_def)
  then show ?thesis
    using b put_word_padded [of "bs @ word_bytes us" w] snoc by (simp add: pton6_end_def)
qed

text \<open>The shift moves what stands behind the double colon to the end, when the array is not full.\<close>

lemma shift_loop_append: "shift_loop (is @ js) n c tmp = shift_loop js n c (shift_loop is n c tmp)"
  by (induction "is" n c tmp rule: shift_loop.induct) (simp_all add: Let_def)

definition shifted :: "nat list \<Rightarrow> nat \<Rightarrow> nat \<Rightarrow> nat \<Rightarrow> nat \<Rightarrow> nat" where
  "shifted tmp n c k j = (if 16 - k \<le> j then tmp ! (j + (c + n) - 16) else if c + n - k \<le> j then 0 else tmp ! j)"

lemma shift_loop_run:
  assumes "c + n < 16" and "length tmp = 16" and z: "\<forall>j. c + n \<le> j \<and> j < 16 \<longrightarrow> tmp ! j = 0"
  shows "k \<le> n \<Longrightarrow> shift_loop [1..<Suc k] n c tmp = map (shifted tmp n c k) [0..<16]"
proof (induction k)
  case 0
  have "tmp = map (shifted tmp n c 0) [0..<16]"
    by (rule nth_equalityI) (use assms in \<open>auto simp: shifted_def\<close>)
  then show ?case by simp
next
  case (Suc k)
  let ?u = "map (shifted tmp n c k) [0..<16]"
  have k: "16 - Suc k < 16" "c + n - Suc k < 16" "c + n - Suc k < 16 - Suc k" using assms(1) Suc.prems by auto
  have "shift_loop [1..<Suc (Suc k)] n c tmp = shift_loop [Suc k] n c ?u"
    using Suc by (simp add: shift_loop_append upt_Suc_append del: upt_Suc shift_loop.simps)
  also have "\<dots> = ?u[16 - Suc k := shifted tmp n c k (c + n - Suc k), c + n - Suc k := 0]"
    using k by (simp add: Let_def)
  also have "\<dots> = map (shifted tmp n c (Suc k)) [0..<16]"
  proof (rule nth_equalityI)
    fix j assume "j < length (?u[16 - Suc k := shifted tmp n c k (c + n - Suc k), c + n - Suc k := 0])"
    then have j: "j < 16" by simp
    consider "j = c + n - Suc k" | "j = 16 - Suc k" | "j \<noteq> c + n - Suc k" "j \<noteq> 16 - Suc k" by blast
    then show "?u[16 - Suc k := shifted tmp n c k (c + n - Suc k), c + n - Suc k := 0] ! j =
        map (shifted tmp n c (Suc k)) [0..<16] ! j"
    proof cases
      case 1 then show ?thesis using j k by (simp add: shifted_def)
    next
      case 2
      have "16 - Suc k + (c + n) - 16 = c + n - Suc k" using Suc.prems assms(1) by simp
      moreover have "\<not> 16 - k \<le> c + n - Suc k" "\<not> c + n - k \<le> c + n - Suc k" using Suc.prems assms(1) by auto
      ultimately show ?thesis using 2 j k by (simp add: shifted_def)
    next
      case 3 then show ?thesis using j k by (auto simp: shifted_def)
    qed
  qed simp
  finally show ?case .
qed

lemma shift_padded:
  assumes "c \<le> length bs" and "length bs < 16"
  shows "shift_loop [1..<Suc (length bs - c)] (length bs - c) c (padded bs) =
     take c bs @ replicate (16 - length bs) 0 @ drop c bs"
proof -
  have l: "length (padded bs) = 16" and z: "\<forall>j. c + (length bs - c) \<le> j \<and> j < 16 \<longrightarrow> padded bs ! j = 0"
    using assms by (auto simp: padded_def nth_append)
  have "shift_loop [1..<Suc (length bs - c)] (length bs - c) c (padded bs) =
      map (shifted (padded bs) (length bs - c) c (length bs - c)) [0..<16]"
    by (rule shift_loop_run [OF _ l z]) (use assms in simp_all)
  also have "\<dots> = take c bs @ replicate (16 - length bs) 0 @ drop c bs"
    by (rule nth_equalityI) (use assms in \<open>auto simp: shifted_def padded_def nth_append min_def\<close>)
  finally show ?thesis .
qed

text \<open>In a full array the places of source and target are the same, so the shift clears them.\<close>

lemma shift_full:
  assumes "length tmp = 16" and "c \<le> 16" and "k \<le> 16 - c"
  shows "shift_loop [1..<Suc k] (16 - c) c tmp = take (16 - k) tmp @ replicate k 0"
  using assms(3)
proof (induction k)
  case 0
  then show ?case using assms by simp
next
  case (Suc k)
  have "shift_loop [1..<Suc (Suc k)] (16 - c) c tmp =
      shift_loop [Suc k] (16 - c) c (take (16 - k) tmp @ replicate k 0)"
    using Suc by (simp add: shift_loop_append upt_Suc_append del: upt_Suc shift_loop.simps)
  also have "\<dots> = (take (16 - k) tmp @ replicate k 0)[16 - Suc k := 0]"
    using Suc.prems assms by (simp add: Let_def)
  also have "\<dots> = take (16 - Suc k) tmp @ replicate (Suc k) 0"
    by (rule nth_equalityI) (use Suc.prems assms in \<open>auto simp: nth_append nth_list_update\<close>)
  finally show ?case .
qed

subsection \<open>Whole addresses are read back\<close>

lemma hex_char_bytes: "d < 16 \<Longrightarrow> hex_char d \<noteq> CHR '':'' \<and> hex_char d \<noteq> NUL"
proof -
  assume "d < 16"
  moreover have "\<forall>d \<in> set [0..<16]. hex_char d \<noteq> CHR '':'' \<and> hex_char d \<noteq> NUL" by code_simp
  ultimately show ?thesis by simp
qed

lemma show_hex_nonempty [simp]: "show_hex n \<noteq> []"
  by (subst show_hex.simps) simp

lemma show_hex_bytes: "NUL \<notin> set (show_hex n)" "CHR '':'' \<notin> set (show_hex n)"
  by (metis show_hex_digits hex_char_bytes)+

lemma show_hex_hd [simp]: "hd (show_hex n @ r) \<noteq> CHR '':''" "hd (show_hex n) \<noteq> CHR '':''"
  using show_hex_bytes(2) [of n] show_hex_nonempty [of n] by (cases "show_hex n"; auto)+

lemma joined_bytes: "NUL \<notin> set (groups ws)" "NUL \<notin> set (joined ws)"
proof -
  show g: "NUL \<notin> set (groups ws)" for ws
    by (induction ws) (use show_hex_bytes(1) in \<open>auto simp: NUL_def\<close>)
  show "NUL \<notin> set (joined ws)" using g show_hex_bytes(1) by (simp add: joined_def)
qed

lemma groups_hd: "ws \<noteq> [] \<Longrightarrow> groups ws @ r \<noteq> [] \<and> hd (groups ws @ r) \<noteq> CHR '':''"
  by (cases ws) simp_all

lemma joined_hd: "ws \<noteq> [] \<Longrightarrow> joined ws \<noteq> [] \<and> hd (joined ws) \<noteq> CHR '':''"
proof (cases ws rule: rev_cases)
  case (snoc us w)
  then show ?thesis
    using groups_hd [of us "show_hex w"] by (cases "us = []") (simp_all add: joined_def)
qed simp

lemma padded_Nil: "replicate 16 0 = padded []"
  by (simp add: padded_def)

lemma inet_pton6_plain:
  assumes "length ws = 8" and "\<forall>w \<in> set ws. w \<le> 0xffff"
  shows "inet_pton6 (joined ws) = Some (word_bytes ws)"
proof -
  have "ws \<noteq> []" using assms(1) by auto
  then have "inet_pton6 (joined ws) = (pton6_loop (joined ws) (joined ws) False 0 (padded []) (length ([] :: nat list)) None \<bind> pton6_end)"
    using joined_hd [of ws] by (simp add: inet_pton6_def cstr_id [OF joined_bytes(2)] padded_Nil Let_def)
  also have "\<dots> = Some (word_bytes ws)"
    using pton6_joined [of ws "[]" None] assms by (simp add: pton6_end_def padded_def)
  finally show ?thesis .
qed

text \<open>The text of an address with a double colon behind the groups \<open>us\<close>.\<close>

definition double_colon :: "nat list \<Rightarrow> nat list \<Rightarrow> string" where
  "double_colon us ws = (if us = [] then '':'' else groups us) @ '':'' @ joined ws"

lemma double_colon_start:
  "inet_pton6 ((if us = [] then '':'' else groups us) @ '':'' @ r) =
     (if NUL \<in> set r then inet_pton6 ((if us = [] then '':'' else groups us) @ '':'' @ r)
      else (pton6_loop (groups us @ CHR '':'' # r) (groups us @ CHR '':'' # r) False 0 (padded []) 0 None \<bind> pton6_end))"
proof (cases "NUL \<in> set r")
  case False
  have c: "CHR '':'' \<noteq> NUL" by (simp add: NUL_def)
  then have "cstr ((if us = [] then '':'' else groups us) @ '':'' @ r) = (if us = [] then '':'' else groups us) @ '':'' @ r"
    using False joined_bytes(1) [of us] by (intro cstr_id) auto
  then show ?thesis
    using False groups_hd [of us "CHR '':'' # r"]
    by (cases "us = []") (simp_all add: inet_pton6_def padded_Nil Let_def)
qed simp

lemma pton6_colon:
  assumes "\<forall>w \<in> set us. w \<le> 0xffff" and "2 * length us \<le> 16"
  shows "pton6_loop (groups us @ CHR '':'' # r) (groups us @ CHR '':'' # r) False 0 (padded []) 0 None =
     pton6_loop r r False 0 (padded (word_bytes us)) (2 * length us) (Some (2 * length us))"
  using pton6_groups [of us "[]" "CHR '':'' # r" None] assms by simp

lemma inet_pton6_double:
  assumes "\<forall>w \<in> set us \<union> set ws. w \<le> 0xffff" and "length us + length ws \<le> 8"
  shows "inet_pton6 (double_colon us ws) =
     pton6_end (False, 0, padded (word_bytes us @ word_bytes ws), 2 * length us + 2 * length ws, Some (2 * length us))"
proof -
  have "inet_pton6 (double_colon us ws) =
      (pton6_loop (joined ws) (joined ws) False 0 (padded (word_bytes us)) (length (word_bytes us)) (Some (2 * length us)) \<bind> pton6_end)"
    unfolding double_colon_def
    by (subst double_colon_start) (use joined_bytes(2) assms pton6_colon [of us "joined ws"] in simp)
  then show ?thesis using pton6_joined [of ws "word_bytes us" "Some (2 * length us)"] assms by simp
qed

lemma inet_pton6_run:
  assumes "\<forall>w \<in> set us \<union> set ws. w \<le> 0xffff" and "length us + length ws < 8"
  shows "inet_pton6 (double_colon us ws) =
     Some (word_bytes us @ replicate (16 - 2 * (length us + length ws)) 0 @ word_bytes ws)"
proof -
  let ?b = "word_bytes us @ word_bytes ws"
  have "shift_loop [1..<Suc (length ?b - 2 * length us)] (length ?b - 2 * length us) (2 * length us) (padded ?b) =
      take (2 * length us) ?b @ replicate (16 - length ?b) 0 @ drop (2 * length us) ?b"
    by (rule shift_padded) (use assms(2) in auto)
  then show ?thesis
    using inet_pton6_double [OF assms(1)] assms(2) by (simp add: pton6_end_def distrib_left del: upt_Suc)
qed

text \<open>An address whose last groups are an IPv4 address.\<close>

lemma xdigit_digit: "d < 10 \<Longrightarrow> xdigit (digit_char d) = Some d"
proof -
  assume "d < 10"
  moreover have "\<forall>d \<in> set [0..<10]. xdigit (digit_char d) = Some d" by code_simp
  ultimately show ?thesis by simp
qed

lemma octet_digits:
  assumes "a \<le> 255"
  obtains ds where "show_nat a = map digit_char ds" and "\<forall>d \<in> set ds. d < 10" and "length ds \<le> 3" and "ds \<noteq> []"
proof -
  have step: "show_nat n = show_nat (n div 10) @ [digit_char (n mod 10)]" if "\<not> n < 10" for n
    using that by (subst show_nat.simps) (simp only: if_False)
  consider "a < 10" | "\<not> a < 10" "a div 10 < 10" | "\<not> a < 10" "\<not> a div 10 < 10" by blast
  then show thesis
  proof cases
    case 1 then show ?thesis by (intro that [of "[a]"]) (simp_all add: show_nat_small)
  next
    case 2
    have "show_nat a = map digit_char [a div 10, a mod 10]" unfolding step [OF 2(1)] show_nat_small [OF 2(2)] by simp
    then show ?thesis using 2(2) by (intro that [of "[a div 10, a mod 10]"]) simp_all
  next
    case 3
    have d: "a div 10 div 10 < 10" using assms by simp
    have "show_nat a = map digit_char [a div 10 div 10, a div 10 mod 10, a mod 10]"
      unfolding step [OF 3(1)] step [OF 3(2)] show_nat_small [OF d] by simp
    then show ?thesis using d by (intro that [of "[a div 10 div 10, a div 10 mod 10, a mod 10]"]) simp_all
  qed
qed

lemma pton6_octet:
  assumes "a \<le> 255"
  shows "\<exists>v. pton6_loop (show_nat a @ src) ct saw 0 tmp tp cp = pton6_loop src ct True v tmp tp cp"
proof -
  obtain ds where ds: "show_nat a = map digit_char ds" "\<forall>d \<in> set ds. d < 10" "length ds \<le> 3" "ds \<noteq> []"
    by (rule octet_digits [OF assms])
  from ds(3,4) consider d where "ds = [d]" | d e where "ds = [d, e]" | d e f where "ds = [d, e, f]"
    by (cases ds; cases "tl ds"; cases "tl (tl ds)") auto
  then show ?thesis using ds(1,2) by cases (auto simp: xdigit_digit Let_def)
qed

lemma pton6_quad:
  assumes "a \<le> 255" and "tp + 4 \<le> 16" and "inet_pton4 ct = Some q"
  shows "\<exists>v. pton6_loop (show_nat a @ CHR ''.'' # src) ct saw 0 tmp tp cp = Some (False, v, put_quad q tp tmp, tp + 4, cp)"
proof -
  have "xdigit CHR ''.'' = None" by code_simp
  with pton6_octet [OF assms(1), of "CHR ''.'' # src" ct saw tmp tp cp] assms(2,3) show ?thesis by auto
qed

subsection \<open>The longest run of zeros\<close>

definition run_ok :: "nat list \<Rightarrow> nat \<Rightarrow> zero_run \<Rightarrow> bool" where
  "run_ok ws i r = (case r of None \<Rightarrow> True | Some (b, l) \<Rightarrow> b + l \<le> i \<and> (\<forall>j. b \<le> j \<and> j < b + l \<longrightarrow> ws ! j = 0))"

lemma run_ok_mono: "run_ok ws i r \<Longrightarrow> i \<le> k \<Longrightarrow> run_ok ws k r"
  by (auto simp: run_ok_def split: option.splits)

lemma longer_run_ok: "run_ok ws i best \<Longrightarrow> run_ok ws i cur \<Longrightarrow> run_ok ws i (longer_run best cur)"
  by (auto simp: longer_run_def split: option.splits)

lemma zero_runs_ok:
  assumes "run_ok ws i best" and "run_ok ws i cur" and "case cur of None \<Rightarrow> True | Some (b, l) \<Rightarrow> b + l = i"
    and "xs = drop i ws" and "i \<le> length ws"
  shows "run_ok ws (length ws) (zero_runs xs i best cur)"
  using assms
proof (induction xs i best cur rule: zero_runs.induct)
  case (1 i best cur)
  then show ?case by (auto intro: longer_run_ok run_ok_mono)
next
  case (2 w xs i best cur)
  have "i < length ws" using 2(6,7) by (cases "i = length ws") simp_all
  moreover have "w # xs = ws ! i # drop (Suc i) ws" using Cons_nth_drop_Suc [OF \<open>i < length ws\<close>] 2(6) by simp
  ultimately have i: "i < length ws" "ws ! i = w" "xs = drop (i + 1) ws" by simp_all
  show ?case
  proof (cases "w = 0")
    case True
    let ?c = "case cur of None \<Rightarrow> Some (i, 1) | Some (b, l) \<Rightarrow> Some (b, l + 1)"
    have "run_ok ws (i + 1) ?c" using 2(4,5) i True
      by (auto simp: run_ok_def less_Suc_eq split: option.splits)
    moreover have "case ?c of None \<Rightarrow> True | Some (b, l) \<Rightarrow> b + l = i + 1"
      using 2(5) by (auto split: option.splits)
    ultimately show ?thesis
      using 2(1) [OF True run_ok_mono [OF 2(3)]] i True by simp
  next
    case False
    have "run_ok ws (i + 1) (longer_run best cur)"
      using run_ok_mono [OF longer_run_ok [OF 2(3,4)]] by simp
    then show ?thesis using 2(2) [OF False] i False by (simp add: run_ok_def)
  qed
qed

lemma best_run_ok:
  assumes "best_run ws = Some (b, l)"
  shows "2 \<le> l" "b + l \<le> length ws" "\<forall>j. b \<le> j \<and> j < b + l \<longrightarrow> ws ! j = 0"
proof -
  have "run_ok ws (length ws) (zero_runs ws 0 None None)" by (rule zero_runs_ok) (simp_all add: run_ok_def)
  then show "2 \<le> l" "b + l \<le> length ws" "\<forall>j. b \<le> j \<and> j < b + l \<longrightarrow> ws ! j = 0"
    using assms by (auto simp: best_run_def run_ok_def split: option.splits if_splits)
qed

subsection \<open>What is printed\<close>

lemma upto_eight: "[0..<8] = [0, 1, 2, 3, 4, 5, 6, 7 :: nat]"
  by (simp add: upt_rec)

lemma eight_words:
  assumes "length ws = 8"
  obtains a b c d e f g h where "ws = [a, b, c, d, e, f, g, h]"
proof -
  have "ws = map ((!) ws) [0..<8]" using assms by (metis map_nth)
  then show thesis unfolding upto_eight by (intro that) simp
qed

lemma ntop6_plain:
  assumes "length ws = 8"
  shows "ntop6_loop src ws None [0..<8] [] = Some (joined ws)"
  using assms by (elim eight_words) (simp add: upto_eight joined_def encapsulated_def Let_def)

lemma ntop6_run:
  assumes "length ws = 8" and "2 \<le> l" "b + l \<le> 8" and "\<not> encapsulated ws (Some (b, l)) 6"
  shows "\<exists>tmp. ntop6_loop src ws (Some (b, l)) [0..<8] [] = Some tmp \<and>
     (if b + l = 8 then tmp @ '':'' else tmp) = double_colon (take b ws) (drop (b + l) ws)"
proof -
  have "b \<in> {0, 1, 2, 3, 4, 5, 6}" "l \<in> {2, 3, 4, 5, 6, 7, 8}" using assms(2,3) by auto
  moreover from assms(1) obtain u v w x y z s t where "ws = [u, v, w, x, y, z, s, t]" by (rule eight_words)
  ultimately show ?thesis
    using assms(3,4) unfolding upto_eight insert_iff empty_iff
    by (elim disjE) (simp_all add: double_colon_def joined_def encapsulated_def Let_def)
qed

lemma ntop6_encapsulated:
  assumes "length ws = 8" and "encapsulated ws (Some (b, l)) 6" and "\<forall>j < l. ws ! j = 0" and "length q \<le> 30"
    and "inet_ntop4 (drop 12 src) = (\<lambda>n. if length q > n then None else Some q)"
  shows "ntop6_loop src ws (Some (b, l)) [0..<8] [] = Some ((if l = 6 then ''::'' else ''::ffff:'') @ q)"
proof -
  from assms(1) obtain u v w x y z s t where ws: "ws = [u, v, w, x, y, z, s, t]" by (rule eight_words)
  have "show_hex 65535 = ''ffff''"
    by (simp add: show_hex.simps [of 65535] show_hex.simps [of 4095] show_hex.simps [of 255]
        show_hex.simps [of 15] hex_char_def)
  moreover have "b = 0" "l = 6 \<or> l = 5 \<and> z = 65535" using assms(2) ws by (auto simp: encapsulated_def)
  ultimately show ?thesis
    using assms(4) unfolding ws upto_eight
    by (elim disjE conjE) (simp_all add: encapsulated_def Let_def assms(5))
qed

subsection \<open>The bytes of the words\<close>

lemma upto_sixteen: "[0..<16] = [0, 1, 2, 3, 4, 5, 6, 7, 8, 9, 10, 11, 12, 13, 14, 15 :: nat]"
  by (simp add: upt_rec)

lemma address_words_bytes:
  assumes "length src = 16" and "\<forall>x \<in> set src. x < 256"
  shows "word_bytes (address_words src) = src" "length (address_words src) = 8"
    "\<forall>w \<in> set (address_words src). w \<le> 0xffff"
proof -
  have lt: "src ! i < 256" if "i < 16" for i using assms that by simp
  have "src = map ((!) src) [0..<16]" using assms(1) by (metis map_nth)
  then have e: "src = [src ! 0, src ! 1, src ! 2, src ! 3, src ! 4, src ! 5, src ! 6, src ! 7,
      src ! 8, src ! 9, src ! 10, src ! 11, src ! 12, src ! 13, src ! 14, src ! 15]"
    unfolding upto_sixteen by simp
  have "word_bytes (address_words src) = [src ! 0, src ! 1, src ! 2, src ! 3, src ! 4, src ! 5, src ! 6, src ! 7,
      src ! 8, src ! 9, src ! 10, src ! 11, src ! 12, src ! 13, src ! 14, src ! 15]"
    by (simp add: address_words_def upto_eight lt)
  with e show "word_bytes (address_words src) = src" by simp
  show "length (address_words src) = 8" by (simp add: address_words_def)
  have "src ! (2 * i) * 256 + src ! (2 * i + 1) \<le> 0xffff" if "i < 8" for i
    using lt [of "2 * i"] lt [of "2 * i + 1"] that by simp
  then show "\<forall>w \<in> set (address_words src). w \<le> 0xffff" by (auto simp: address_words_def)
qed

lemma word_bytes_zeros: "\<forall>w \<in> set ws. w = 0 \<Longrightarrow> word_bytes ws = replicate (2 * length ws) 0"
  by (induction ws) simp_all

text \<open>A run of zeros in the words is a run of zeros in the bytes.\<close>

lemma word_bytes_run:
  assumes "b + l \<le> length ws" and "\<forall>j. b \<le> j \<and> j < b + l \<longrightarrow> ws ! j = 0"
  shows "word_bytes ws = word_bytes (take b ws) @ replicate (2 * l) 0 @ word_bytes (drop (b + l) ws)"
proof -
  have "ws = take b ws @ take l (drop b ws) @ drop (b + l) ws"
    by (metis append_take_drop_id drop_drop add.commute)
  then have "word_bytes ws = word_bytes (take b ws) @ word_bytes (take l (drop b ws)) @ word_bytes (drop (b + l) ws)"
    by (metis word_bytes_simps(3))
  moreover have "word_bytes (take l (drop b ws)) = replicate (2 * length (take l (drop b ws))) 0"
    by (rule word_bytes_zeros) (use assms in \<open>auto simp: in_set_conv_nth\<close>)
  ultimately show ?thesis using assms(1) by simp
qed

lemma show_nat_length: "a \<le> 255 \<Longrightarrow> length (show_nat a) \<le> 3"
  by (erule octet_digits) simp

lemma dotted_length:
  assumes "a \<le> 255" "b \<le> 255" "c \<le> 255" "d \<le> 255"
  shows "length (dotted [a, b, c, d]) \<le> 15"
  using assms [THEN show_nat_length] by simp

lemma show_hex_length: "n < 16 ^ k \<Longrightarrow> 0 < k \<Longrightarrow> length (show_hex n) \<le> k"
proof (induction k arbitrary: n)
  case (Suc k)
  show ?case
  proof (cases "n < 16")
    case True
    then show ?thesis by (simp add: show_hex.simps [of n])
  next
    case False
    then have k: "0 < k" using Suc.prems(1) by (cases k) simp_all
    have "n div 16 < 16 ^ k" using Suc.prems(1) by (simp add: div_less_iff_less_mult mult.commute)
    then have "length (show_hex (n div 16)) \<le> k" using k by (rule Suc.IH)
    then show ?thesis using False by (subst show_hex.simps) simp
  qed
qed simp

lemma groups_length: "\<forall>w \<in> set ws. w \<le> 0xffff \<Longrightarrow> length (groups ws) \<le> 5 * length ws"
proof (induction ws)
  case (Cons w ws)
  then show ?case using show_hex_length [of w 4] by simp
qed simp

lemma joined_length: "\<forall>w \<in> set ws. w \<le> 0xffff \<Longrightarrow> length (joined ws) \<le> 5 * length ws"
proof (cases ws rule: rev_cases)
  case (snoc us w)
  assume "\<forall>w \<in> set ws. w \<le> 0xffff"
  then show ?thesis using snoc groups_length [of us] show_hex_length [of w 4] by (simp add: joined_def)
qed (simp add: joined_def)

lemma double_colon_length:
  "\<forall>w \<in> set us \<union> set ws. w \<le> 0xffff \<Longrightarrow> length (double_colon us ws) \<le> 2 + 5 * length us + 5 * length ws"
  using groups_length [of us] joined_length [of ws] by (simp add: double_colon_def)

text \<open>An encapsulated IPv4 address, with groups between the double colon and it.\<close>

lemma put_quad_padded:
  assumes "length bs + 4 \<le> 16" and "length q = 4"
  shows "put_quad q (length bs) (padded bs) = padded (bs @ q)"
  using assms by (simp add: put_quad_def padded_def)

lemma inet_pton6_quad:
  assumes w: "\<forall>w \<in> set ws. w \<le> 0xffff" and len: "length ws \<le> 5" and q: "a \<le> 255" "b \<le> 255" "c \<le> 255" "d \<le> 255"
  shows "inet_pton6 (''::'' @ groups ws @ dotted [a, b, c, d]) =
     Some (replicate (12 - 2 * length ws) 0 @ word_bytes ws @ [a, b, c, d])"
proof -
  let ?d = "dotted [a, b, c, d]" and ?bs = "word_bytes ws @ [a, b, c, d]"
  have l: "length ?bs = 2 * length ws + 4" by simp
  have sh: "shift_loop [1..<Suc (2 * length ws + 4)] (2 * length ws + 4) 0 (padded ?bs) =
      replicate (12 - 2 * length ws) 0 @ ?bs"
    using shift_padded [of 0 ?bs] len unfolding l by (simp del: upt_Suc shift_loop.simps)
  have "NUL \<notin> set (groups ws @ ?d)" using joined_bytes(1) dotted_no_NUL [of "[a, b, c, d]"] by (simp del: dotted.simps)
  then have "inet_pton6 (''::'' @ groups ws @ ?d) =
      (pton6_loop (groups ws @ ?d) (groups ws @ ?d) False 0 (padded []) (length ([] :: nat list)) (Some 0) \<bind> pton6_end)"
    using double_colon_start [of "[]" "groups ws @ ?d"] by (simp del: dotted.simps)
  also have "\<dots> = (pton6_loop ?d ?d False 0 (padded (word_bytes ws)) (length (word_bytes ws)) (Some 0) \<bind> pton6_end)"
    using pton6_groups [of ws "[]" ?d "Some 0"] w len by (simp del: dotted.simps)
  also have "\<exists>v. pton6_loop ?d ?d False 0 (padded (word_bytes ws)) (length (word_bytes ws)) (Some 0) =
      Some (False, v, padded ?bs, 2 * length ws + 4, Some 0)"
    using pton6_quad [of a "length (word_bytes ws)" ?d "[a, b, c, d]" "dotted [b, c, d]" False "padded (word_bytes ws)" "Some 0"]
      q len inet_pton4_dotted [OF q] put_quad_padded [of "word_bytes ws" "[a, b, c, d]"] by simp
  then have "(pton6_loop ?d ?d False 0 (padded (word_bytes ws)) (length (word_bytes ws)) (Some 0) \<bind> pton6_end) =
      Some (replicate (12 - 2 * length ws) 0 @ ?bs)"
    using sh by (auto simp: pton6_end_def simp del: dotted.simps upt_Suc)
  finally show ?thesis by simp
qed

lemma inet_ntop4_quad:
  assumes "length src = 16"
  shows "inet_ntop4 (drop 12 src) =
     (\<lambda>n. if length (dotted [src ! 12, src ! 13, src ! 14, src ! 15]) > n then None
       else Some (dotted [src ! 12, src ! 13, src ! 14, src ! 15]))"
proof -
  have "take 4 (drop 12 src) = map ((!) src) [12, 13, 14, 15]"
    by (rule nth_equalityI) (use assms in \<open>auto simp: less_Suc_eq numeral_eq_Suc nth_Cons'\<close>)
  then show ?thesis by (intro ext) (simp add: inet_ntop4_def Let_def del: dotted.simps)
qed

lemma ntop6_quad_read:
  assumes "length a = 16" and "\<forall>x \<in> set a. x < 256" and zeros: "\<forall>j. b \<le> j \<and> j < b + l \<longrightarrow> address_words a ! j = 0"
    and E: "encapsulated (address_words a) (Some (b, l)) 6"
  shows "\<exists>tmp. ntop6_loop a (address_words a) (Some (b, l)) [0..<8] [] = Some tmp \<and> b + l \<noteq> 8 \<and>
     length tmp \<le> 45 \<and> inet_pton6 tmp = Some a"
proof -
  let ?ws = "address_words a"
  note W = address_words_bytes [OF assms(1,2)]
  let ?q = "dotted [a ! 12, a ! 13, a ! 14, a ! 15]"
  have q: "a ! 12 \<le> 255" "a ! 13 \<le> 255" "a ! 14 \<le> 255" "a ! 15 \<le> 255"
    using assms(1,2) by (simp_all add: less_Suc_eq_le [symmetric])
  have b: "b = 0" and l: "l = 6 \<or> (l = 5 \<and> ?ws ! 5 = 0xffff)" using E by (auto simp: encapsulated_def)
  have d12: "drop 12 a = [a ! 12, a ! 13, a ! 14, a ! 15]"
    by (rule nth_equalityI) (use assms(1) in \<open>auto simp: less_Suc_eq numeral_eq_Suc nth_Cons'\<close>)
  have z: "\<forall>j < l. ?ws ! j = 0" using zeros b by simp
  have run: "ntop6_loop a ?ws (Some (b, l)) [0..<8] [] = Some ((if l = 6 then ''::'' else ''::ffff:'') @ ?q)"
    by (rule ntop6_encapsulated [OF W(2) E z _ inet_ntop4_quad [OF assms(1)]])
      (use dotted_length [OF q] in \<open>simp del: dotted.simps\<close>)
  have tail: "word_bytes (drop 6 ?ws) = drop 12 a"
  proof -
    have "a = word_bytes (take 6 ?ws) @ word_bytes (drop 6 ?ws)"
      using W(1) by (metis append_take_drop_id word_bytes_simps(3))
    moreover have "length (word_bytes (take 6 ?ws)) = 12" using W(2) by simp
    ultimately show ?thesis by (metis append_eq_conv_conj)
  qed
  have "show_hex 65535 = ''ffff''"
    by (simp add: show_hex.simps [of 65535] show_hex.simps [of 4095] show_hex.simps [of 255]
        show_hex.simps [of 15] hex_char_def)
  have "inet_pton6 ((if l = 6 then ''::'' else ''::ffff:'') @ ?q) = Some a"
  proof (cases "l = 6")
    case True
    then have "a = replicate 12 0 @ drop 12 a"
      using word_bytes_run [of 0 6 ?ws] z W(1,2) tail by simp
    then show ?thesis using inet_pton6_quad [of "[]", OF _ _ q] True d12 by simp
  next
    case False
    then have "l = 5" "?ws ! 5 = 0xffff" using l by auto
    then have "drop 5 ?ws = 0xffff # drop 6 ?ws" using W(2) Cons_nth_drop_Suc [of 5 ?ws] by simp
    then have "a = replicate 10 0 @ [255, 255] @ drop 12 a"
      using word_bytes_run [of 0 5 ?ws] z W(1,2) tail \<open>l = 5\<close> by simp
    then show ?thesis
      using inet_pton6_quad [of "[0xffff]", OF _ _ q] False d12 \<open>show_hex 65535 = ''ffff''\<close> by simp
  qed
  then show ?thesis
    using run l b dotted_length [OF q]
    by (intro exI [of _ "(if l = 6 then ''::'' else ''::ffff:'') @ ?q"]) (auto simp del: dotted.simps)
qed

subsection \<open>Properties\<close>

text \<open>
  An IPv4 address survives its text: what \<open>inet_ntop4\<close> prints of four bytes fits
  in sixteen bytes, and \<open>inet_pton4\<close> reads the same four bytes from it.
\<close>

theorem inet4_roundtrip:
  assumes "length a = 4" and "\<forall>x \<in> set a. x < 256"
  shows "\<exists>out. inet_ntop4 a 16 = Some out \<and> length out \<le> 15 \<and> inet_pton4 out = Some a"
proof -
  from assms(1) obtain p q r s where a: "a = [p, q, r, s]" by (auto simp: numeral_eq_Suc length_Suc_conv)
  with assms(2) have b: "p \<le> 255" "q \<le> 255" "r \<le> 255" "s \<le> 255" by auto
  have "inet_ntop4 a 16 = Some (dotted a)"
    using dotted_length [OF b] a by (simp add: inet_ntop4_def Let_def del: dotted.simps)
  then show ?thesis using dotted_length [OF b] inet_pton4_dotted [OF b] a by blast
qed

text \<open>
  Property C37: an IPv6 address survives its text. For every sixteen bytes \<open>inet_ntop6\<close> prints a
  text of at most 45 characters, so it never leaves its buffer of 46 and never fails for lack of room
  in a destination of that size, and \<open>inet_pton6\<close> reads the same sixteen bytes from it: with no run of
  zero groups, with the longest run at the front, in the middle or at the end, and with an encapsulated
  IPv4 address.
\<close>

theorem inet6_roundtrip:
  assumes "length a = 16" and "\<forall>x \<in> set a. x < 256" and "46 \<le> dst_size"
  shows "\<exists>out. inet_ntop6 a dst_size = Some out \<and> length out \<le> 45 \<and> inet_pton6 out = Some a"
proof -
  let ?ws = "address_words a"
  note W = address_words_bytes [OF assms(1,2)]
  have sub: "\<forall>w \<in> set (take b ?ws) \<union> set (drop k ?ws). w \<le> 0xffff" for b k
    using W(3) by (auto dest: in_set_takeD in_set_dropD)
  have ok: ?thesis if "ntop6_loop a ?ws (best_run ?ws) [0..<8] [] = Some tmp"
    "(case best_run ?ws of None \<Rightarrow> tmp | Some (b, l) \<Rightarrow> if b + l = 8 then tmp @ '':'' else tmp) = out"
    "length out \<le> 45" "inet_pton6 out = Some a" for tmp out
    using that assms(3) by (intro exI [of _ out]) (simp add: inet_ntop6_def Let_def)
  show ?thesis
  proof (cases "best_run ?ws")
    case None
    show ?thesis
      using ntop6_plain [OF W(2), of a] inet_pton6_plain [OF W(2,3)] joined_length [OF W(3)] W(1,2) None
      by (intro ok [of "joined ?ws" "joined ?ws"]) simp_all
  next
    case (Some r)
    then obtain b l where bl: "best_run ?ws = Some (b, l)" by (cases r) auto
    note B = best_run_ok [OF bl, unfolded W(2)]
    show ?thesis
    proof (cases "encapsulated ?ws (Some (b, l)) 6")
      case False
      from ntop6_run [OF W(2) B(1,2) False] obtain tmp where tmp: "ntop6_loop a ?ws (Some (b, l)) [0..<8] [] = Some tmp"
        "(if b + l = 8 then tmp @ '':'' else tmp) = double_colon (take b ?ws) (drop (b + l) ?ws)" by blast
      have "length (double_colon (take b ?ws) (drop (b + l) ?ws)) \<le> 45"
        using double_colon_length [OF sub, of b "b + l"] B(1,2) W(2) by simp
      moreover have "inet_pton6 (double_colon (take b ?ws) (drop (b + l) ?ws)) = Some a"
        using inet_pton6_run [OF sub, of b "b + l"] word_bytes_run [of b l ?ws] B W(1,2) by (simp add: algebra_simps)
      ultimately show ?thesis using tmp bl by (intro ok [of tmp]) simp_all
    next
      case True
      from ntop6_quad_read [OF assms(1,2) B(3) True] obtain tmp where
        "ntop6_loop a ?ws (Some (b, l)) [0..<8] [] = Some tmp" "b + l \<noteq> 8" "length tmp \<le> 45" "inet_pton6 tmp = Some a"
        by blast
      then show ?thesis using bl by (intro ok) auto
    qed
  qed
qed

text \<open>
  Property C38: a double colon in an address of eight full groups is not ignored, as the comment of
  \<open>inet_pton6\<close> has it: the text is accepted, but every group behind the double colon is read
  as zero, because the shift copies each byte onto itself and then clears it.
\<close>

theorem full_double_colon_clears:
  assumes "length us + length ws = 8" and "\<forall>w \<in> set us \<union> set ws. w \<le> 0xffff"
  shows "inet_pton6 ((if us = [] then '':'' else groups us) @ '':'' @ joined ws) =
     Some (word_bytes us @ replicate (2 * length ws) 0)"
proof -
  let ?b = "word_bytes us @ word_bytes ws"
  have len: "length us + length ws \<le> 8" "2 * length us + 2 * length ws = 16" using assms(1) by auto
  then have "padded ?b = ?b" "16 - 2 * length us = 2 * length ws" by (auto simp: padded_def)
  moreover have "shift_loop [1..<Suc (16 - 2 * length us)] (16 - 2 * length us) (2 * length us) ?b =
      take (16 - (16 - 2 * length us)) ?b @ replicate (16 - 2 * length us) 0"
    by (rule shift_full) (use len in auto)
  ultimately show ?thesis
    using inet_pton6_double [OF assms(2) len(1)] len(2)
    by (simp add: double_colon_def pton6_end_def del: upt_Suc)
qed

lemma show_hex_small: "n < 16 \<Longrightarrow> show_hex n = [hex_char n]"
  by (simp add: show_hex.simps [of n])

theorem inet4_roundtrip_witness: "\<exists>out. inet_ntop4 [127, 0, 0, 1] 16 = Some out \<and> inet_pton4 out = Some [127, 0, 0, 1]"
  using inet4_roundtrip [of "[127, 0, 0, 1]"] by auto

theorem inet6_roundtrip_witness:
  "\<exists>out. inet_ntop6 [254, 128, 0, 0, 0, 0, 0, 0, 0, 0, 0, 0, 0, 1, 0, 0] 46 = Some out \<and>
     inet_pton6 out = Some [254, 128, 0, 0, 0, 0, 0, 0, 0, 0, 0, 0, 0, 1, 0, 0]"
  using inet6_roundtrip [of "[254, 128, 0, 0, 0, 0, 0, 0, 0, 0, 0, 0, 0, 1, 0, 0]" 46] by auto

theorem full_double_colon_clears_witness:
  "inet_pton6 ''1:2:3:4:5:6:7::8'' = Some [0, 1, 0, 2, 0, 3, 0, 4, 0, 5, 0, 6, 0, 7, 0, 0]"
  using full_double_colon_clears [of "[1, 2, 3, 4, 5, 6, 7]" "[8]"]
  by (simp add: joined_def show_hex_small hex_char_def numeral_2_eq_2)

end
