(* ===== verification/Checksum.thy ===== *)
theory Checksum
  imports Main "HOL-Library.Word"
begin

text \<open>
  The Internet checksum of the bundled network library (\<open>in_cksum\<close>, unpv13e/libfree/in_cksum.c):
  the words of a packet are added in a 32-bit accumulator, the carries are folded back, and the
  complement is the checksum. A word is loaded as on a little-endian machine.
\<close>

unbundle bit_operations_syntax

subsection \<open>The routine\<close>

definition load_word :: "8 word \<Rightarrow> 8 word \<Rightarrow> 16 word" where
  "load_word a b = ucast a + 256 * ucast b"

text \<open>\<open>while (nleft > 1) { sum += *w++; nleft -= 2; }\<close>; the value is the sum and what is left.\<close>

fun cksum_loop :: "8 word list \<Rightarrow> 32 word \<Rightarrow> 32 word \<times> 8 word list" where
  "cksum_loop (a # b # w) acc = cksum_loop w (acc + ucast (load_word a b))"
| "cksum_loop w acc = (acc, w)"

definition in_cksum :: "8 word list \<Rightarrow> 16 word" where
  "in_cksum addr =
     (let (acc, w) = cksum_loop addr 0;
          acc = (case w of [] \<Rightarrow> acc | b # _ \<Rightarrow> acc + ucast (ucast b :: 16 word));
          acc = drop_bit 16 acc + (acc AND 0xffff);
          acc = acc + drop_bit 16 acc
      in ucast (NOT acc))"

subsection \<open>The sum\<close>

text \<open>The sum of the words as a number, an odd byte at the end included.\<close>

fun words_sum :: "8 word list \<Rightarrow> nat" where
  "words_sum (a # b # w) = unat a + 256 * unat b + words_sum w"
| "words_sum [b] = unat b"
| "words_sum [] = 0"

lemma byte_le: "unat (a :: 8 word) \<le> 255"
  using unsigned_less [where ?'a = nat, of a] by simp

lemma word16_less: "unat (a :: 16 word) < 65536"
  using unsigned_less [where ?'a = nat, of a] by simp

lemma unat_byte: "unat (ucast (a :: 8 word) :: 16 word) = unat a"
  using byte_le [of a] by (simp add: unsigned_ucast_eq take_bit_nat_eq_self)

lemma unat_word16: "unat (ucast (a :: 16 word) :: 32 word) = unat a"
  using word16_less [of a] by (simp add: unsigned_ucast_eq take_bit_nat_eq_self)

lemma unat_load_word: "unat (load_word a b) = unat a + 256 * unat b"
proof -
  have "unat a + 256 * unat b < 2 ^ 16" using byte_le [of a] byte_le [of b] by simp
  then show ?thesis by (simp add: load_word_def unat_word_ariths unat_byte)
qed

lemma words_sum_le: "words_sum w \<le> 32768 * (length w + 1)"
proof (induction w rule: words_sum.induct)
  case (1 a b w)
  then show ?case using byte_le [of a] byte_le [of b] by simp
next
  case (2 b)
  then show ?case using byte_le [of b] by simp
qed simp

text \<open>The accumulator does not overflow below 32 bits.\<close>

definition summed :: "8 word list \<Rightarrow> 32 word" where
  "summed addr = (case cksum_loop addr 0 of (acc, w) \<Rightarrow>
     (case w of [] \<Rightarrow> acc | b # _ \<Rightarrow> acc + ucast (ucast b :: 16 word)))"

lemma cksum_loop_sum:
  assumes "unat acc + words_sum addr < 2 ^ 32"
  shows "unat (case cksum_loop addr acc of (t, w) \<Rightarrow>
     (case w of [] \<Rightarrow> t | b # _ \<Rightarrow> t + ucast (ucast b :: 16 word))) = unat acc + words_sum addr"
  using assms
proof (induction addr acc rule: cksum_loop.induct)
  case (1 a b w acc)
  have "unat (acc + ucast (load_word a b)) = unat acc + (unat a + 256 * unat b)"
    using 1(2) by (simp add: unat_word_ariths unat_word16 unat_load_word)
  then show ?case using 1 by simp
qed (simp_all add: unat_word_ariths unat_word16 unat_byte)

text \<open>Folding the carries keeps the sum modulo 65535 and does not make a sum zero.\<close>

definition folded :: "nat \<Rightarrow> nat" where
  "folded n = (let a = n div 65536 + n mod 65536 in (a + a div 65536) mod 65536)"

lemma folded_props:
  assumes "n < 2 ^ 32"
  shows "folded n < 65536" "folded n mod 65535 = n mod 65535" "folded n = 0 \<longleftrightarrow> n = 0"
proof -
  define a where "a = n div 65536 + n mod 65536"
  have "n = 65536 * (n div 65536) + n mod 65536" by simp
  then have n: "n = 65535 * (n div 65536) + a" unfolding a_def by linarith
  have a: "a \<le> 131070" using assms unfolding a_def by (simp add: less_mult_imp_div_less)
  have f: "folded n = (a + a div 65536) mod 65536" unfolding folded_def a_def Let_def ..
  show "folded n < 65536" unfolding f by simp
  have am: "a mod 65535 = n mod 65535" by (subst n) simp
  have a0: "a = 0 \<longleftrightarrow> n = 0" using n by (cases "n = 0") auto
  have "folded n = (if a < 65536 then a else a - 65535)"
  proof (cases "a < 65536")
    case False
    have d: "a div 65536 = 1" using a False by simp
    have "(a + 1) mod 65536 = (a + 1 - 65536) mod 65536" by (rule le_mod_geq) (use False in simp)
    also have "\<dots> = a - 65535" using a False by simp
    finally have "(a + a div 65536) mod 65536 = a - 65535" unfolding d .
    then show ?thesis using False f by simp
  qed (simp add: f)
  moreover have "(a - 65535) mod 65535 = a mod 65535" if "\<not> a < 65536" using that by (simp add: le_mod_geq)
  ultimately show "folded n mod 65535 = n mod 65535" "folded n = 0 \<longleftrightarrow> n = 0"
    using am a0 by auto
qed

lemma in_cksum_folded:
  assumes "words_sum addr < 2 ^ 32"
  shows "unat (in_cksum addr) = 65535 - folded (words_sum addr)"
proof -
  let ?t = "summed addr"
  let ?n = "words_sum addr"
  have t: "unat ?t = ?n" using cksum_loop_sum [of 0 addr] assms by (simp add: summed_def)
  define u where "u = drop_bit 16 ?t + (?t AND 0xffff)"
  have m: "(?t AND 0xffff) = take_bit 16 ?t" by (simp add: take_bit_eq_mask mask_eq_exp_minus_1)
  have lo: "unat (drop_bit 16 ?t) = ?n div 65536" "unat (take_bit 16 ?t) = ?n mod 65536"
    using assms by (simp_all add: unsigned_drop_bit_eq unsigned_take_bit_eq t take_bit_nat_eq_self
        drop_bit_eq_div [of 16 ?n] take_bit_eq_mod [of 16 ?n])
  have "?n div 65536 < 65536" using assms by (simp add: less_mult_imp_div_less)
  then have b: "?n div 65536 + ?n mod 65536 \<le> 131070" by simp
  then have u: "unat u = ?n div 65536 + ?n mod 65536" by (simp add: u_def m unat_word_ariths lo)
  define v where "v = u + drop_bit 16 u"
  have "unat (drop_bit 16 u) = unat u div 65536" using b u by (simp add: unsigned_drop_bit_eq take_bit_nat_eq_self drop_bit_eq_div [of 16 "?n div 65536 + ?n mod 65536"])
  moreover have "unat u + unat u div 65536 < 2 ^ 32" using b unfolding u by (simp add: div_le_mono)
  ultimately have v: "unat v = unat u + unat u div 65536" by (simp add: v_def unat_word_ariths)
  have f: "unat v mod 65536 = folded ?n" unfolding v u folded_def Let_def ..
  have c: "in_cksum addr = ucast (NOT v)"
    by (simp add: in_cksum_def summed_def u_def v_def Let_def split: prod.split)
  let ?w = "ucast v :: 16 word"
  have "in_cksum addr = NOT ?w" unfolding c by (rule bit_word_eqI) (simp add: bit_simps)
  also have "\<dots> = -1 - ?w" by (simp add: not_eq_complement)
  finally have "unat (in_cksum addr) = unat (-1 :: 16 word) - unat ?w" by (simp add: unat_sub)
  moreover have "unat (-1 :: 16 word) = 65535" by (simp add: unsigned_minus_1_eq_mask mask_eq_exp_minus_1)
  moreover have "unat ?w = unat v mod 65536"
    by (simp add: unsigned_ucast_eq take_bit_eq_mod [of 16 "unat v"])
  ultimately show ?thesis using f by simp
qed


subsection \<open>Properties\<close>

lemma words_sum_append: "even (length xs) \<Longrightarrow> words_sum (xs @ ys) = words_sum xs + words_sum ys"
  by (induction xs rule: words_sum.induct) simp_all

lemma only_multiple: "k mod 65535 = 0 \<Longrightarrow> k \<noteq> 0 \<Longrightarrow> k < 65536 \<Longrightarrow> k = (65535 :: nat)"
  by (cases "k < 65535") simp_all

text \<open>
  Property C39: a packet that carries its checksum checks to zero. When the checksum of a packet
  of at most 131000 bytes with a zero field is stored in that field, at an even place, the
  checksum of the packet is 0; the 32-bit accumulator does not overflow for packets of this length.
\<close>

theorem checksum_checks:
  assumes "even (length xs)" and "length xs + 2 + length ys \<le> 131000"
    and "load_word a b = in_cksum (xs @ [0, 0] @ ys)"
  shows "in_cksum (xs @ [a, b] @ ys) = 0"
proof -
  let ?n = "words_sum (xs @ [0, 0] @ ys)"
  let ?m = "words_sum (xs @ [a, b] @ ys)"
  have s: "?n = words_sum xs + words_sum ys" "?m = ?n + unat (load_word a b)"
    using assms(1) by (simp_all add: words_sum_append unat_load_word)
  have n: "?n < 2 ^ 32 - 65536"
    using words_sum_le [of "xs @ [0, 0] @ ys"] assms(2) by simp
  then have n32: "?n < 2 ^ 32" by simp
  have c: "unat (load_word a b) = 65535 - folded ?n"
    using in_cksum_folded [OF n32] assms(3) by simp
  then have m32: "?m < 2 ^ 32" using n unfolding s(2) by simp
  have "?m mod 65535 = 0"
  proof -
    have "(?n + (65535 - folded ?n)) mod 65535 = (folded ?n + (65535 - folded ?n)) mod 65535"
      by (rule mod_add_cong) (simp_all only: folded_props(2) [OF n32])
    also have "\<dots> = 0" using folded_props(1) [OF n32] by simp
    finally show ?thesis unfolding s(2) c .
  qed
  moreover have "?m \<noteq> 0"
  proof
    assume "?m = 0"
    then have "?n = 0" "65535 - folded ?n = 0" using s(2) c by auto
    then show False using folded_props(3) [OF n32] by simp
  qed
  ultimately have "folded ?m mod 65535 = 0" "folded ?m \<noteq> 0" "folded ?m < 65536"
    using folded_props [OF m32] by simp_all
  then have "folded ?m = 65535" by (rule only_multiple)
  then have "unat (in_cksum (xs @ [a, b] @ ys)) = 0" using in_cksum_folded [OF m32] by simp
  then show ?thesis by (simp only: unat_eq_zero)
qed

theorem checksum_checks_witness:
  "in_cksum [0x45, 0x00] = 0xffba \<and> in_cksum ([0x45, 0x00] @ [0xba, 0xff] @ []) = 0"
proof -
  have c: "in_cksum ([0x45, 0x00] @ [0, 0] @ []) = 0xffba" "in_cksum [0x45, 0x00] = 0xffba"
    "load_word 0xba 0xff = 0xffba" by code_simp+
  show ?thesis using c checksum_checks [of "[0x45, 0x00]" "[]" "0xba" "0xff"] by simp
qed

end
