(* ===== verification/Aton.thy ===== *)
theory Aton
  imports UnpIO "HOL-Library.Word"
begin

text \<open>
  \<open>inet_aton\<close> of the bundled network library (unpv13e/libfree/inet_aton.c). The accumulator is a
  64-bit \<open>unsigned long\<close>, whose overflow wraps around. The value is the address in host order,
  before \<open>htonl\<close>; \<open>None\<close> is the return value 0.
\<close>

unbundle bit_operations_syntax

fun aton_loop :: "string \<Rightarrow> nat \<Rightarrow> 64 word \<Rightarrow> 64 word \<Rightarrow> (nat \<times> 64 word) option" where
  "aton_loop [] dots acc addr = (if acc > 255 then None else Some (dots, push_bit 8 addr OR acc))"
| "aton_loop (cc # cp) dots acc addr =
     (if is_digit cc then aton_loop cp dots (acc * 10 + of_nat (digit_val cc)) addr
      else if cc = CHR ''.'' then
        if dots + 1 > 3 then None
        else if acc > 255 then None
        else aton_loop cp (dots + 1) 0 (push_bit 8 addr OR acc)
      else None)"

definition inet_aton :: "string \<Rightarrow> 32 word option" where
  "inet_aton cp = do {
     (dots, addr) \<leftarrow> aton_loop (cstr cp) 0 0 0;
     let addr = (if dots < 3 then push_bit (8 * (3 - dots)) addr else addr);
     Some (ucast addr)
   }"

lemma aton_digits:
  assumes "\<forall>c \<in> set ds. is_digit c"
  shows "aton_loop (ds @ r) dots (of_nat v) addr = aton_loop r dots (of_nat (foldl (\<lambda>v c. 10 * v + digit_val c) v ds)) addr"
  using assms
proof (induction ds arbitrary: v)
  case (Cons c ds)
  have "(of_nat v * 10 + of_nat (digit_val c) :: 64 word) = of_nat (10 * v + digit_val c)"
    by (simp add: mult.commute)
  then show ?case using Cons by (simp del: of_nat_add of_nat_mult)
qed simp

lemma aton_number: "aton_loop (show_nat n @ r) dots 0 addr = aton_loop r dots (of_nat n) addr"
proof -
  have "\<forall>c \<in> set (show_nat n). is_digit c" using show_nat_digits by fastforce
  from aton_digits [OF this, of r dots 0 addr] show ?thesis
    using digits_val_show_nat [of n] by (simp add: digits_val_def)
qed

lemma wraps: "(of_nat n > (255 :: 64 word)) \<longleftrightarrow> n mod 2 ^ 64 > 255"
  by (simp add: word_less_nat_alt unat_of_nat)

lemma shift_or: "\<not> b > (255 :: 64 word) \<Longrightarrow> push_bit 8 a OR b = a * 256 + b"
proof -
  assume "\<not> b > 255"
  then have "unat b < 2 ^ 8" by (simp add: word_less_nat_alt)
  then have "take_bit 8 b = b"
    by (intro word_unat_eq_iff [THEN iffD2]) (simp add: unsigned_take_bit_eq take_bit_nat_eq_self)
  then have "\<not> bit b n" if "8 \<le> n" for n by (metis bit_take_bit_iff not_le that)
  then have "push_bit 8 a OR b = push_bit 8 a + b"
    by (intro disjunctive_add [symmetric]) (auto simp: bit_simps not_le)
  then show ?thesis by (simp add: push_bit_eq_mult)
qed

lemma of_nat_wraps: "(of_nat n :: 64 word) = of_nat (n mod 2 ^ 64)"
  by (rule word_unat_eq_iff [THEN iffD2]) (simp add: unat_of_nat)

lemma ucast_of_nat: "(ucast (of_nat n :: 64 word) :: 32 word) = of_nat n"
  by (rule bit_word_eqI) (simp add: bit_simps)

text \<open>One part of the quad and the dot behind it.\<close>

lemma aton_part:
  "aton_loop (show_nat n @ CHR ''.'' # r) dots 0 (of_nat v) =
     (if dots + 1 > 3 then None else if n mod 2 ^ 64 > 255 then None
      else aton_loop r (dots + 1) 0 (of_nat (v * 256 + n mod 2 ^ 64)))"
proof -
  have "aton_loop (show_nat n @ CHR ''.'' # r) dots 0 (of_nat v) =
      (if dots + 1 > 3 then None else if (of_nat n :: 64 word) > 255 then None
       else aton_loop r (dots + 1) 0 (push_bit 8 (of_nat v) OR of_nat n))"
    by (simp add: aton_number is_digit_def)
  then show ?thesis
    by (cases "n mod 2 ^ 64 > 255") (use wraps [of n] shift_or [of "of_nat n" "of_nat v"] of_nat_wraps [of n] in auto)
qed

lemma aton_last:
  "aton_loop (show_nat n) dots 0 (of_nat v) =
     (if n mod 2 ^ 64 > 255 then None else Some (dots, of_nat (v * 256 + n mod 2 ^ 64)))"
proof -
  have "aton_loop (show_nat n @ []) dots 0 (of_nat v) =
      (if (of_nat n :: 64 word) > 255 then None else Some (dots, push_bit 8 (of_nat v) OR of_nat n))"
    by (simp only: aton_number aton_loop.simps(1))
  then show ?thesis
    by (cases "n mod 2 ^ 64 > 255") (use wraps [of n] shift_or [of "of_nat n" "of_nat v"] of_nat_wraps [of n] in auto)
qed

text \<open>
  Property C40: \<open>inet_aton\<close> reads four numbers, but takes each modulo \<open>2 ^ 64\<close>: a dotted quad
  of any numbers is accepted exactly when their remainders are bytes, and gives these bytes. A number too
  large for the accumulator is not refused when it wraps around to a byte.
\<close>

theorem inet_aton_wraps:
  "inet_aton (dotted [a, b, c, d]) =
     (if a mod 2 ^ 64 > 255 then None else if b mod 2 ^ 64 > 255 then None
      else if c mod 2 ^ 64 > 255 then None else if d mod 2 ^ 64 > 255 then None
      else Some (of_nat (((a mod 2 ^ 64 * 256 + b mod 2 ^ 64) * 256 + c mod 2 ^ 64) * 256 + d mod 2 ^ 64)))"
proof -
  have e: "dotted [a, b, c, d] = show_nat a @ CHR ''.'' # show_nat b @ CHR ''.'' # show_nat c @ CHR ''.'' # show_nat d"
    by simp
  have z: "(0 :: 64 word) = of_nat 0" by simp
  have "aton_loop (dotted [a, b, c, d]) 0 0 0 =
     (if a mod 2 ^ 64 > 255 then None else if b mod 2 ^ 64 > 255 then None
      else if c mod 2 ^ 64 > 255 then None else if d mod 2 ^ 64 > 255 then None
      else Some (3, of_nat (((a mod 2 ^ 64 * 256 + b mod 2 ^ 64) * 256 + c mod 2 ^ 64) * 256 + d mod 2 ^ 64)))"
    unfolding e using aton_part [of a _ 0 0] by (simp add: aton_part aton_last del: of_nat_add of_nat_mult)
  then show ?thesis
    unfolding inet_aton_def cstr_id [OF dotted_no_NUL] by (simp add: ucast_of_nat del: of_nat_add of_nat_mult dotted.simps)
qed

end
