(* ===== verification/Prototypes.thy ===== *)
theory Prototypes
  imports Display
begin

text \<open>
  The two stand-alone trials of the board display, UItest.c and UItest2.c, each with its own
  \<open>print_deck\<close> and a \<open>main\<close> that prints one fixed hand. The first loops over the hand as over
  the door; the second is the layout that server and client took over.
\<close>

subsection \<open>Their tables\<close>

definition prototype_type_glyphs :: "string list" where
  "prototype_type_glyphs = [
     ''NULL'',
     [CHR 0xE8, CHR 0x90, CHR 0xAC],
     [CHR 0xE7, CHR 0xAD, CHR 0x92],
     [CHR 0xE6, CHR 0xA2, CHR 0x9D],
     [CHR 0xE9, CHR 0xA2, CHR 0xA8],
     [CHR 0xE8, CHR 0x8A, CHR 0xB1],
     [], [], [], []]"

subsection \<open>UItest.c\<close>

text \<open>The card played last by somebody else, and the same card beside a winning hand.\<close>

definition latest_card :: "mj \<Rightarrow> string option" where
  "latest_card m = do {
     n \<leftarrow> number_cell m;
     t \<leftarrow> type_cell prototype_type_glyphs m;
     Some (''lastest card on the table: \<newline>___\<newline>|'' @ n @ ''|\<newline>|'' @ t @ ''|\<newline>'' @
       overline @ overline @ overline @ ''\<newline>'')
   }"

definition beside :: "bool \<Rightarrow> mj \<Rightarrow> (mj \<Rightarrow> string option) \<Rightarrow> string option" where
  "beside hu m cell = (if hu \<and> type m \<noteq> 0 then cell m else Some [])"

definition first_index_row :: "mj list \<Rightarrow> string option" where
  "first_index_row hands = do {
     r \<leftarrow> door_row hands (\<lambda>i _. Some (if i \<ge> 10 then '' '' @ show_int i else '' 0'' @ show_int i)) [0..19];
     Some (r @ ''\<newline>'')
   }"

text \<open>The rows, each with what stands between the hand, the card beside it and the door.\<close>

definition first_line :: "string \<Rightarrow> mj list \<Rightarrow> mj list \<Rightarrow> mj \<Rightarrow> bool \<Rightarrow> string option" where
  "first_line l hands doors m hu = do {
     h \<leftarrow> door_row hands (\<lambda>_ _. Some (l @ l @ l)) [0..19];
     b \<leftarrow> beside hu m (\<lambda>_. Some (l @ l @ l));
     d \<leftarrow> door_row doors (\<lambda>_ _. Some (l @ l @ l)) [0..19];
     Some (h @ l @ [CHR 0x09] @ b @ [CHR 0x09, CHR 0x09] @ d @ l @ ''\<newline>'')
   }"

definition first_number_row :: "mj list \<Rightarrow> mj list \<Rightarrow> mj \<Rightarrow> bool \<Rightarrow> string option" where
  "first_number_row hands doors m hu = do {
     h \<leftarrow> door_row hands (\<lambda>_ m. do { n \<leftarrow> number_cell m; Some (n @ ''|'') }) [0..19];
     b \<leftarrow> beside hu m (\<lambda>m. do { n \<leftarrow> number_cell m; Some (''|'' @ n @ ''|'') });
     d \<leftarrow> door_row doors (\<lambda>_ m. do { n \<leftarrow> number_cell m; Some (n @ ''|'') }) [0..19];
     Some (''|'' @ h @ [CHR 0x09] @ b @ [CHR 0x09, CHR 0x09] @ ''|'' @ d @ ''\<newline>'')
   }"

definition first_type_row :: "mj list \<Rightarrow> mj list \<Rightarrow> mj \<Rightarrow> bool \<Rightarrow> string option" where
  "first_type_row hands doors m hu = do {
     h \<leftarrow> door_row hands (\<lambda>_ m. do { t \<leftarrow> type_cell prototype_type_glyphs m; Some (''|'' @ t) }) [0..19];
     b \<leftarrow> beside hu m (\<lambda>m. do { t \<leftarrow> type_cell prototype_type_glyphs m; Some (''|'' @ t) });
     d \<leftarrow> door_row doors (\<lambda>_ m. do { t \<leftarrow> type_cell prototype_type_glyphs m; Some (''|'' @ t) }) [0..19];
     Some (h @ ''|'' @ [CHR 0x09] @ b @ (if hu then ''|'' else []) @ [CHR 0x09, CHR 0x09] @ d @ ''|\<newline>'')
   }"

text \<open>\<open>hu == 1\<close> and \<open>hu != 0\<close> are both asked, so \<open>hu\<close> stays a number.\<close>

definition first_print_deck :: "mj list \<Rightarrow> mj list \<Rightarrow> mj \<Rightarrow> int \<Rightarrow> bool \<Rightarrow> string option" where
  "first_print_deck hands doors m hu you_to_play = do {
     l \<leftarrow> (if hu = 0 \<and> type m \<noteq> 0 then latest_card m else Some []);
     i \<leftarrow> (if you_to_play then first_index_row hands else Some []);
     c \<leftarrow> first_line ''_'' hands doors m (hu \<noteq> 0);
     n \<leftarrow> first_number_row hands doors m (hu \<noteq> 0);
     t \<leftarrow> first_type_row hands doors m (hu \<noteq> 0);
     u \<leftarrow> first_line overline hands doors m (hu \<noteq> 0);
     Some (l @ (if hu = 1 then ''You are really good at this game! \<newline>result:\<newline>'' else ''Your hand: \<newline>'') @
       i @ c @ n @ t @ u)
   }"

subsection \<open>UItest2.c\<close>

definition second_board_card :: "mj \<Rightarrow> string option" where
  "second_board_card on_board =
     (if type on_board \<noteq> 0 \<and> number on_board \<noteq> 0 then do {
        n \<leftarrow> number_cell on_board;
        t \<leftarrow> type_cell prototype_type_glyphs on_board;
        Some (''other player played: \<newline>____\<newline>|'' @ n @ ''|\<newline>|'' @ t @ ''|\<newline>'' @
          overline @ overline @ overline @ overline @ ''\<newline>'')
      }
      else Some [])"

text \<open>A row: the border, the hand, two tabs, the border again, the door.\<close>

definition second_row :: "string \<Rightarrow> string \<Rightarrow> (mj \<Rightarrow> string option) \<Rightarrow> mj list \<Rightarrow> mj list \<Rightarrow> bool \<Rightarrow> string option" where
  "second_row border gap cell hands doors separate = do {
     h \<leftarrow> hand_row hands separate gap (\<lambda>_. cell) [0..19];
     d \<leftarrow> door_row doors (\<lambda>_. cell) [0..19];
     Some (border @ h @ [CHR 0x09, CHR 0x09] @ border @ d @ ''\<newline>'')
   }"

definition second_rows :: "string list \<Rightarrow> mj list \<Rightarrow> mj list \<Rightarrow> bool \<Rightarrow> bool \<Rightarrow> string option" where
  "second_rows glyphs hands doors separate show_index = do {
     i \<leftarrow> (if show_index then index_row hands separate else Some []);
     c \<leftarrow> second_row ''_'' ''  _'' (\<lambda>_. Some ''___'') hands doors separate;
     n \<leftarrow> second_row ''|'' ''  |'' (\<lambda>m. do { n \<leftarrow> number_cell m; Some (n @ ''|'') }) hands doors separate;
     t \<leftarrow> second_row ''|'' ''  |'' (\<lambda>m. do { t \<leftarrow> type_cell glyphs m; Some (t @ ''|'') }) hands doors separate;
     u \<leftarrow> second_row overline (''  '' @ overline) (\<lambda>_. Some (overline @ overline @ overline)) hands doors separate;
     Some (i @ c @ n @ t @ u)
   }"

definition second_print_deck :: "mj list \<Rightarrow> mj list \<Rightarrow> mj \<Rightarrow> bool \<Rightarrow> bool \<Rightarrow> string option" where
  "second_print_deck hands doors on_board separate show_index = do {
     b \<leftarrow> second_board_card on_board;
     r \<leftarrow> second_rows prototype_type_glyphs hands doors separate show_index;
     Some (b @ r)
   }"

subsection \<open>Their main programs\<close>

definition trial_card :: "int \<Rightarrow> int \<Rightarrow> mj" where
  "trial_card t n = \<lparr>type = t, number = n, priority = 0\<rparr>"

definition trial_hand :: "mj list" where
  "trial_hand = [trial_card 1 1, trial_card 1 2, trial_card 1 3, trial_card 2 1, trial_card 2 2, trial_card 2 3, trial_card 3 1, trial_card 3 2, trial_card 3 3, trial_card 4 7] @
     replicate 10 null_mj"

definition trial_door :: "mj list" where
  "trial_door = [trial_card 1 8, trial_card 1 8, trial_card 1 8, trial_card 2 6, trial_card 2 6, trial_card 2 6] @ replicate 14 null_mj"

definition first_main :: "string option" where
  "first_main = map_option (\<lambda>out. replicate 10 (CHR 0x0A) @ out) (first_print_deck trial_hand trial_door (trial_card 3 7) 1 False)"

definition second_main :: "string option" where
  "second_main = map_option (\<lambda>out. replicate 10 (CHR 0x0A) @ out) (second_print_deck trial_hand trial_door (trial_card 3 7) True True)"


subsection \<open>Properties\<close>

lemma frame_row_second:
  assumes "at doors 0 = Some d" and "type d \<noteq> 0" and "number d \<noteq> 0"
  shows "frame_row border gap cell hands doors separate = second_row border gap cell hands doors separate"
  using assms by (simp add: frame_row_def second_row_def door_border_def del: at_Some)

text \<open>
  The board display of the game is the second trial. When the door is not empty, the
  server's and the client's \<open>print_deck\<close> print, after their own card on the table and heading, the
  very rows of UItest2.c with their own table of types, and fail where it fails.
\<close>

theorem display_is_second_trial:
  assumes "at doors 0 = Some d" and "type d \<noteq> 0" and "number d \<noteq> 0"
  shows "print_rows glyphs heading hands doors on_board separate show_index =
     do { b \<leftarrow> board_card glyphs on_board;
          r \<leftarrow> second_rows glyphs hands doors separate show_index;
          Some (b @ heading @ ''Your decks: \<newline>'' @ r) }"
proof -
  show ?thesis
    unfolding print_rows_def second_rows_def cap_row_def number_row_def type_row_def under_row_def
      frame_row_second [OF assms]
    by (simp add: Option.bind_assoc)
qed

text \<open>Both trials print their hand without leaving an array.\<close>

lemma trials_print: "first_main \<noteq> None" "second_main \<noteq> None"
  by code_simp+

theorem display_is_second_trial_witness:
  "print_deck trial_hand trial_door (trial_card 3 7) True True =
     do { b \<leftarrow> board_card type_glyphs (trial_card 3 7);
          r \<leftarrow> second_rows type_glyphs trial_hand trial_door True True;
          Some (b @ [] @ ''Your decks: \<newline>'' @ r) }"
  unfolding print_deck_def
  by (rule display_is_second_trial [of _ "trial_card 1 8"]) (simp_all add: trial_door_def trial_card_def)

end
