(* ===== verification/Gathering.thy ===== *)
theory Gathering
  imports ServerMain
begin

text \<open>
  Who takes part: the four seats that the waiting loop of the server fills
  (\<open>connection_establish\<close>), and the answers that end a round (\<open>game_set_display\<close>).
\<close>

subsection \<open>Filling the seats\<close>






















subsection \<open>Answers after a round\<close>

text \<open>The four descriptors are different and waited for.\<close>

definition four_waiting :: "(int \<Rightarrow> player) \<Rightarrow> int set \<Rightarrow> bool" where
  "four_waiting ps fds \<longleftrightarrow> inj_on (\<lambda>p. player_fd (ps p)) {0..3} \<and> (\<lambda>p. player_fd (ps p)) ` {0..3} \<subseteq> fds"

text \<open>The players whose descriptor is no longer waited for, and the acknowledgements to them.\<close>

definition heard :: "(int \<Rightarrow> player) \<Rightarrow> int set \<Rightarrow> int list" where
  "heard ps fds = filter (\<lambda>p. player_fd (ps p) \<notin> fds) [0, 1, 2, 3]"

definition acks_to :: "(int \<Rightarrow> player) \<Rightarrow> int list \<Rightarrow> (int \<times> string) list" where
  "acks_to ps qs = map (\<lambda>p. (player_fd (ps p), ack_line)) qs"

text \<open>
  What holds during the loop: the log has grown by one acknowledgement to each player heard, they
  are counted, and not more of them want to go on.
\<close>

definition answering :: "(int \<Rightarrow> player) \<Rightarrow> (int \<times> string) list \<Rightarrow> int set \<times> int \<times> int \<Rightarrow> server \<Rightarrow> bool" where
  "answering ps log = (\<lambda>(fds, responses, newgames) s.
     players s = ps \<and> responses = int (length (heard ps fds)) \<and> 0 \<le> newgames \<and> newgames \<le> responses \<and>
     (\<exists>a. sent s = log @ a \<and> mset a = mset (acks_to ps (heard ps fds))))"

lemma heard_next:
  assumes "inj_on (\<lambda>p. player_fd (ps p)) {0..3}" and "i \<in> {0..3}" and "player_fd (ps i) \<in> fds"
  shows "mset (heard ps (fds - {player_fd (ps i)})) = add_mset i (mset (heard ps fds))"
proof -
  have d: "player_fd (ps p) = player_fd (ps q) \<longleftrightarrow> p = q" if "p \<in> {0..3}" "q \<in> {0..3}" for p q
    using assms(1) that by (auto dest: inj_onD)
  have i: "i = 0 \<or> i = 1 \<or> i = 2 \<or> i = 3" using assms(2) by auto
  then show ?thesis
    using assms(3) d [of 0 1] d [of 0 2] d [of 0 3] d [of 1 2] d [of 1 3] d [of 2 3]
    by (elim disjE) (auto simp: heard_def)
qed

text \<open>One turn of the inner loop; the descriptors of later players are still waited for.\<close>

definition still_there :: "(int \<Rightarrow> player) \<Rightarrow> int set \<Rightarrow> int \<Rightarrow> int set \<Rightarrow> bool" where
  "still_there ps testset i fds \<longleftrightarrow> (\<forall>j. i \<le> j \<and> j \<le> 3 \<and> player_fd (ps j) \<in> testset \<longrightarrow> player_fd (ps j) \<in> fds)"

lemma answer_of_step:
  assumes inj: "inj_on (\<lambda>p. player_fd (ps p)) {0..3}" and i: "0 \<le> i" "i < 4"
  shows "partial (\<lambda>s. answering ps log acc s \<and> still_there ps testset i (fst acc)) (answer_of testset i acc)
     (\<lambda>acc s. answering ps log acc s \<and> still_there ps testset (i + 1) (fst acc))"
proof (rule tripleI)
  fix s t acc'
  assume I: "answering ps log acc s \<and> still_there ps testset i (fst acc)" and run: "answer_of testset i acc s = (Inr acc', t)"
  obtain fds r n where acc: "acc = (fds, r, n)" by (cases acc)
  have ps: "players s = ps" using I by (simp add: answering_def acc)
  let ?fd = "player_fd (ps i)"
  show "answering ps log acc' t \<and> still_there ps testset (i + 1) (fst acc')"
  proof (cases "?fd \<in> testset")
    case False
    then have "acc' = acc" "t = s" using run ps by (simp_all add: answer_of_def player_of_def acc)
    then show ?thesis using I by (auto simp: still_there_def)
  next
    case True
    then have fd: "?fd \<in> fds" using I i by (auto simp: still_there_def acc)
    have run': "thenp (hear i) (bindp said_yes (\<lambda>y. thenp clear_recvline (
       ret (fds - {?fd}, r + 1, if y then n + 1 else n)))) s = (Inr acc', t)"
      using run True ps by (simp add: answer_of_def player_of_def acc)
    from run' [unfolded thenp_apply] obtain v u where u: "hear i s = (Inr v, u)"
      and rest: "bindp said_yes (\<lambda>y. thenp clear_recvline (ret (fds - {?fd}, r + 1, if y then n + 1 else n))) u = (Inr acc', t)"
      by (rule bindp_InrE) (simp only: thenp_apply bindp.simps)
    have h: "read_and_ack ?fd s = (Inr v, u)" using u ps by (simp add: hear_def player_of_def)
    have su: "sent u = sent s @ [(?fd, ack_line)]" "players u = ps"
      using server_chan.recv_Inr [OF h] same_game [OF server_chan.recv_more [OF h]] ps by auto
    have t: "sent t = sent u" "players t = ps" "fst acc' = fds - {?fd}" "fst (snd acc') = r + 1"
      "snd (snd acc') = n \<or> snd (snd acc') = n + 1"
      using rest su(2) by (auto simp: said_yes_def clear_recvline_def set_recvline_def)
    have m: "mset (heard ps (fds - {?fd})) = add_mset i (mset (heard ps fds))"
      by (rule heard_next [OF inj _ fd]) (use i in auto)
    from arg_cong [OF m, of size] have len: "length (heard ps (fds - {?fd})) = Suc (length (heard ps fds))" by simp
    from I obtain a where a: "sent s = log @ a" "mset a = mset (acks_to ps (heard ps fds))"
      by (auto simp: answering_def acc)
    have "mset (acks_to ps (heard ps (fds - {?fd}))) = add_mset (?fd, ack_line) (mset a)"
      using m a(2) by (simp add: acks_to_def)
    then have "answering ps log acc' t"
      using I t su a(1) len by (cases acc') (auto simp: answering_def acc intro: exI [of _ "a @ [(?fd, ack_line)]"])
    moreover have "still_there ps testset (i + 1) (fst acc')"
      using I i inj t(3) by (auto simp: still_there_def acc dest: inj_onD)
    ultimately show ?thesis ..
  qed
qed simp

lemma answers_step:
  assumes inj: "inj_on (\<lambda>p. player_fd (ps p)) {0..3}" and sub: "testset \<subseteq> fst acc"
  shows "partial (answering ps log acc) (foldp [0, 1, 2, 3] (answer_of testset) acc) (answering ps log)"
proof -
  have up: "[0..4 - 1] = [0, 1, 2, 3 :: int]" by (simp add: upto_rec1)
  have there: "still_there ps testset 0 (fst acc)" using sub by (auto simp: still_there_def)
  have "triple (\<lambda>s. answering ps log acc s \<and> still_there ps testset 0 (fst acc)) (foldp [0..4 - 1] (answer_of testset) acc)
      (\<lambda>acc s. answering ps log acc s \<and> still_there ps testset 4 (fst acc)) (\<lambda>_ _. True)"
    by (rule triple_foldp_upto [where J = "\<lambda>i acc s. answering ps log acc s \<and> still_there ps testset i (fst acc)"])
      (auto intro: answer_of_step [OF inj])
  then show ?thesis unfolding up by (rule triple_conseq) (use there in auto)
qed

lemma answer_loop_hears:
  assumes inj: "inj_on (\<lambda>p. player_fd (ps p)) {0..3}"
  shows "partial (answering ps log acc) (answer_loop fuel acc)
     (\<lambda>n s. \<exists>fds. answering ps log (fds, 4, n) s)"
proof (induction fuel arbitrary: acc)
  case 0
  then show ?case by (simp add: triple_def)
next
  case (Suc fuel)
  obtain fds r n where acc: "acc = (fds, r, n)" by (cases acc)
  show ?case
  proof (cases "r = 4")
    case True
    then show ?thesis by (auto simp: triple_def acc)
  next
    case False
    then have eq: "answer_loop (Suc fuel) acc = bindp (select_in fds) (\<lambda>testset.
        bindp (foldp [0, 1, 2, 3] (answer_of testset) acc) (answer_loop fuel))"
      by (intro ext) (simp add: acc)
    have sel: "partial (answering ps log acc) (select_in fds) (\<lambda>testset s. answering ps log acc s \<and> testset \<subseteq> fst acc)"
      by (rule tripleI) (auto simp: select_in_def acc answering_def split: list.splits)
    show ?thesis
      unfolding eq
      by (rule triple_bindp [OF sel], rule triple_pure, rule triple_bindp [OF answers_step [OF inj]])
        (use Suc in \<open>simp_all add: split_paired_all\<close>)
  qed
qed


lemma tell_all_run:
  "partial (\<lambda>s. like s0 s \<and> sent s = log) (tell_all msg)
   (\<lambda>_ s. like s0 s \<and> sent s = log @ map (\<lambda>p. (player_fd (players s0 p), vsnprintf_line msg)) [0, 1, 2, 3])"
proof -
  have one: "partial (\<lambda>s. like s0 s \<and> sent s = l) (thenp (tell i msg) (ret ()))
     (\<lambda>_ s. like s0 s \<and> sent s = l @ [(player_fd (players s0 i), vsnprintf_line msg)])" for l i
  proof (rule triple_thenp)
    show "partial (\<lambda>s. like s0 s \<and> sent s = l) (tell i msg)
        (\<lambda>_ s. like s0 s \<and> sent s = l @ [(player_fd (players s0 i), vsnprintf_line msg)])"
    proof (rule tripleI)
      fix s t a assume I: "like s0 s \<and> sent s = l" and run: "tell i msg s = (Inr a, t)"
      from run have w: "write_message_wait_ack (player_fd (players s i)) msg s = (Inr a, t)"
        by (simp add: tell_def player_of_def)
      show "like s0 t \<and> sent t = l @ [(player_fd (players s0 i), vsnprintf_line msg)]"
        using server_chan.send_Inr [OF w] server_chan.send_more [OF w] I same_game [of s s0] by simp
    qed simp
  qed (simp add: triple_def)
  have cons: "forp (x # xs) f = bindp (f x) (\<lambda>_. forp xs f)" for x :: int and xs and f :: "int \<Rightarrow> (server, unit) prog"
    by (rule ext) simp
  show ?thesis
    unfolding tell_all_def cons
    by (rule triple_bindp [OF one], rule triple_bindp [OF one], rule triple_bindp [OF one], rule triple_bindp [OF one])
      (simp add: triple_def)
qed

lemma heard_all: "length (heard ps fds) = 4 \<Longrightarrow> heard ps fds = [0, 1, 2, 3]"
  by (auto simp: heard_def split: if_splits)

lemma heard_none: "(\<lambda>p. player_fd (ps p)) ` {0..3} \<subseteq> fds \<Longrightarrow> heard ps fds = []"
  by (auto simp: heard_def)

subsection \<open>Properties\<close>


text \<open>
  Property C25: everyone is asked and heard once. When the four players have different descriptors that are
  waited for and \<open>game_set_display\<close> returns, it has sent the end of the round to the four in order,
  then acknowledged exactly one answer of each, in some order, and then sent the same decision to all: the
  start of a round when it returns 1, and that there is none when it returns 0.
\<close>

theorem answers_once:
  assumes "inj_on (\<lambda>p. player_fd (players s p)) {0..3}" and "(\<lambda>p. player_fd (players s p)) ` {0..3} \<subseteq> rset s"
    and "game_set_display s = (Inr v, t)"
  shows "\<exists>a. sent t = sent s @ map (\<lambda>p. (player_fd (players s p), vsnprintf_line (end_text (winner s)))) [0, 1, 2, 3] @ a @
       map (\<lambda>p. (player_fd (players s p), vsnprintf_line
         (if v = 1 then ''start!\<newline>'' else ''Some players don't want to play, no more game!\<newline>''))) [0, 1, 2, 3] \<and>
     mset a = mset (map (\<lambda>p. (player_fd (players s p), ack_line)) [0, 1, 2, 3]) \<and> (v = 0 \<or> v = 1)"
proof -
  let ?ps = "players s"
  let ?to = "\<lambda>line. map (\<lambda>p. (player_fd (?ps p), vsnprintf_line line)) [0, 1, 2, 3]"
  let ?log = "sent s @ ?to (end_text (winner s))"
  from assms(3) obtain u where u: "tell_all (end_text (winner s)) s = (Inr (), u)"
    and rest: "bindp (answer_loop (Suc (Suc (length (selects u)))) (rset u, 0, 0)) (\<lambda>newgames.
      if newgames = 4 then thenp (tell_all ''start!\<newline>'') (ret 1)
      else thenp (tell_all ''Some players don't want to play, no more game!\<newline>'') (ret 0)) u = (Inr v, t)"
    by (auto simp: game_set_display_def simp del: bindp.simps answer_loop.simps elim!: bindp_InrE)
  have lu: "like s u" "sent u = ?log" using triple_Inr [OF tell_all_run [of s "sent s"] _ u] by simp_all
  have "answering ?ps ?log (rset u, 0, 0) u"
    using lu same_game [OF lu(1)] more_fields(8) [OF lu(1)] heard_none [OF assms(2)]
    by (auto simp: answering_def acks_to_def)
  obtain n w where w: "answer_loop (Suc (Suc (length (selects u)))) (rset u, 0, 0) u = (Inr n, w)"
    and fin: "(if n = 4 then thenp (tell_all ''start!\<newline>'') (ret 1)
      else thenp (tell_all ''Some players don't want to play, no more game!\<newline>'') (ret 0)) w = (Inr v, t)"
    using rest by (rule bindp_InrE)
  from triple_Inr [OF answer_loop_hears [OF assms(1)] \<open>answering ?ps ?log (rset u, 0, 0) u\<close> w]
  obtain fds where A: "answering ?ps ?log (fds, 4, n) w" by blast
  then have "heard ?ps fds = [0, 1, 2, 3]" by (intro heard_all) (simp add: answering_def)
  with A obtain a where a: "sent w = ?log @ a" "mset a = mset (acks_to ?ps [0, 1, 2, 3])" "players w = ?ps"
    by (auto simp: answering_def)
  have out: "sent t = sent w @ ?to line" if "tell_all line w = (Inr (), t)" for line
    using triple_Inr [OF tell_all_run [of w "sent w"] _ that] a(3) by simp
  show ?thesis
  proof (cases "n = 4")
    case True
    with fin have "tell_all ''start!\<newline>'' w = (Inr (), t)" "v = 1"
      by (auto simp del: bindp.simps elim!: bindp_InrE)
    with out [OF this(1)] a show ?thesis by (intro exI [of _ a]) (simp add: acks_to_def)
  next
    case False
    with fin have "tell_all ''Some players don't want to play, no more game!\<newline>'' w = (Inr (), t)" "v = 0"
      by (auto simp del: bindp.simps elim!: bindp_InrE)
    with out [OF this(1)] a show ?thesis by (intro exI [of _ a]) (simp add: acks_to_def)
  qed
qed




definition four_answers :: server where
  "four_answers = \<lparr>net = (\<lambda>_. [Bytes ''ACK\<newline>'', Bytes ''YES!\<newline>'', Bytes ''ACK\<newline>'']), read_cnt = 0, read_ptr = [],
     sent = [], console = [], recvline = [],
     players = (\<lambda>p. player_gameinfo_init \<lparr>player_fd = p + 5, flower_index = 0, door_index = 0, sea_index = 0,
       normal_capacity = 0, decks = [], flowers = [], door = [], sea = []\<rparr>),
     shuffled_mjs = [], discarded_mj = null_mj, take_index = 144, winner = 2, rand_seq = (\<lambda>_. 0), rand_pos = 0,
     rset = {5, 6, 7, 8}, selects = [[5, 6, 7, 8]]\<rparr>"

theorem answers_once_witness:
  "\<exists>t a. game_set_display four_answers = (Inr 1, t) \<and> mset a = {#(5, ack_line), (6, ack_line), (7, ack_line), (8, ack_line)#} \<and>
     (\<exists>l r. sent t = l @ a @ r)"
proof -
  obtain v t where run: "game_set_display four_answers = (v, t)" by (metis prod.exhaust)
  have "fst (game_set_display four_answers) = Inr 1" by code_simp
  then have r: "game_set_display four_answers = (Inr 1, t)" using run by simp
  have "{0..3} = {0, 1, 2, 3 :: int}" by auto
  then have inj: "inj_on (\<lambda>p. player_fd (players four_answers p)) {0..3}"
    and sub: "(\<lambda>p. player_fd (players four_answers p)) ` {0..3} \<subseteq> rset four_answers"
    by (simp_all add: four_answers_def player_gameinfo_init_def)
  from answers_once [OF inj sub r] obtain a l m where
    "sent t = sent four_answers @ l @ a @ m"
    and a: "mset a = mset (map (\<lambda>p. (player_fd (players four_answers p), ack_line)) [0, 1, 2, 3])" by metis
  then have e: "\<exists>l r. sent t = l @ a @ r" by (metis append.assoc)
  have "map (\<lambda>p. (player_fd (players four_answers p), ack_line)) [0, 1, 2, 3] = [(5, ack_line), (6, ack_line), (7, ack_line), (8, ack_line)]"
    by (simp add: four_answers_def player_gameinfo_init_def)
  with a r e show ?thesis by auto
qed

end
