(* ===== verification/Choices.thy ===== *)
theory Choices
  imports Mirror
begin

text \<open>
  What the client lets its player do: the tile that \<open>client_discard\<close> discards and the line it
  sends for it, and the input on which its loop never ends.
\<close>

lemma scanf_stdin_run:
  "scanf_stdin s = (case scanf_d (stdin_buf s) (net s 0) of (r, b, es) \<Rightarrow>
     (Inr r, s\<lparr>stdin_buf := b, net := (net s)(0 := es)\<rparr>))"
  by (simp add: scanf_stdin_def)

definition choosing_from :: "player \<Rightarrow> (int \<times> string) list \<Rightarrow> client \<Rightarrow> bool" where
  "choosing_from q log c \<longleftrightarrow> me c = q \<and> sent c = log"

lemma choose_loop_in_hand:
  "partial (choosing_from q log) (choose_loop fuel) (\<lambda>i c. choosing_from q log c \<and> 0 \<le> i \<and> i \<le> normal_capacity q)"
proof (induction fuel)
  case 0
  then show ?case by (simp add: triple_def)
next
  case (Suc fuel)
  show ?case
  proof (rule tripleI)
    fix s t i assume q: "choosing_from q log s" and run: "choose_loop (Suc fuel) s = (Inr i, t)"
    obtain r b es where sc: "scanf_d (stdin_buf s) (net s 0) = (r, b, es)" by (metis surj_pair)
    let ?u = "s\<lparr>console := console s @ [''Choose a mj and discard it...!\<newline>''], stdin_buf := b, net := (net s)(0 := es)\<rparr>"
    let ?v = "?u\<lparr>console := console ?u @ [''Invalid index, please choose again.\<newline>'']\<rparr>"
    have again: "choosing_from q log t \<and> 0 \<le> i \<and> i \<le> normal_capacity q" if "choose_loop fuel ?v = (Inr i, t)"
      using triple_Inr [OF Suc _ that] q by (simp add: choosing_from_def)
    show "choosing_from q log t \<and> 0 \<le> i \<and> i \<le> normal_capacity q"
      using run q again
      by (cases r) (auto simp: scanf_stdin_run sc printf_def my_def pressed_ctrl_d_def leave_def choosing_from_def
        split: if_splits)
  qed simp
qed

lemma choose_index_in_hand:
  "partial (choosing_from q log) choose_index (\<lambda>i c. choosing_from q log c \<and> 0 \<le> i \<and> i \<le> normal_capacity q)"
  unfolding choose_index_def by (rule partial_bindp [OF stays_getp choose_loop_in_hand])

lemma index_line:
  assumes "0 \<le> i" and "i \<le> 16"
  shows "is_line (show_int i @ ''\<newline>'')" "NUL \<notin> set (show_int i @ ''\<newline>'')" "int_range i"
proof -
  show "int_range i" using assms by (simp add: int_range_def)
  have "nat i \<le> 16" using assms by (simp add: nat_le_iff)
  then have "nat i div 10 < 10" by simp
  then have "length (show_int i) \<le> 2" using assms
    by (simp add: show_int_def show_nat.simps [of "nat i"] show_nat.simps [of "nat i div 10"])
  then show "is_line (show_int i @ ''\<newline>'')" "NUL \<notin> set (show_int i @ ''\<newline>'')"
    using show_int_no_newline [of i] show_int_no_NUL [of i] not_sym [OF newline_simps(2)] by (auto simp: is_line_def MAXLINE_def)
qed

lemma discard_run_client:
  assumes "client_discard c = (Inr v, d)" and "hand_drawn (me c)"
  obtains i m where "0 \<le> i" and "i \<le> normal_capacity (me c)" and "at (decks (me c)) i = Some m"
    and "sent d = sent c @ [(player_fd (me c), show_int i @ ''\<newline>'')]" and "kind (board d) = kind m"
    and "client_remove_tile i (me c) = Some (me d)"
proof -
  obtain u where u: "show_hand True True c = (Inr (), u)"
    "bindp choose_index (\<lambda>index. bindp my (\<lambda>q. bindp (liftp (at (decks q) index)) (\<lambda>m.
      thenp (modp (\<lambda>s. s\<lparr>board := (board s)\<lparr>type := type m, number := number m\<rparr>,
        message := (case chosen_text m of None \<Rightarrow> message s | Some t \<Rightarrow> t)\<rparr>)) (
      thenp (say (show_int index @ ''\<newline>'')) (thenp (update_me (client_remove_tile index)) (ret 0)))))) u = (Inr v, d)"
    using assms(1) unfolding client_discard_def thenp_def [of "show_hand a b" for a b] by (rule bindp_InrE) simp
  have cu: "choosing_from (me c) (sent c) u"
    using u(1) by (auto simp: show_hand_def printf_def choosing_from_def simp del: bindp.simps elim!: bindp_InrE)
  obtain i w where w: "choose_index u = (Inr i, w)" "bindp my (\<lambda>q. bindp (liftp (at (decks q) i)) (\<lambda>m.
      thenp (modp (\<lambda>s. s\<lparr>board := (board s)\<lparr>type := type m, number := number m\<rparr>,
        message := (case chosen_text m of None \<Rightarrow> message s | Some t \<Rightarrow> t)\<rparr>)) (
      thenp (say (show_int i @ ''\<newline>'')) (thenp (update_me (client_remove_tile i)) (ret 0))))) w = (Inr v, d)"
    using u(2) by (rule bindp_InrE)
  from triple_Inr [OF choose_index_in_hand cu w(1)]
  have i: "me w = me c" "sent w = sent c" "0 \<le> i" "i \<le> normal_capacity (me c)" by (auto simp: choosing_from_def)
  obtain m where m: "at (decks (me c)) i = Some m"
    using w(2) i(1) by (cases "at (decks (me c)) i") (simp_all add: my_def del: at_Some at_None)
  let ?w = "w\<lparr>board := (board w)\<lparr>type := type m, number := number m\<rparr>,
        message := (case chosen_text m of None \<Rightarrow> message w | Some t \<Rightarrow> t)\<rparr>"
  obtain x k where x: "client_write_message_wait_ack (player_fd (me c)) (show_int i @ ''\<newline>'') ?w = (Inr k, x)"
    "thenp (update_me (client_remove_tile i)) (ret 0) x = (Inr v, d)"
    using w(2) m i(1) by (simp add: my_def say_def del: at_Some split: prod.splits sum.splits)
  have mx: "me x = me c" "board x = board ?w"
    using client_more [OF client_chan.send_more [OF x(1)]] i(1) by simp_all
  have "i \<le> 16" using i(4) assms(2) by (simp add: hand_drawn_def)
  note l = index_line [OF i(3) this]
  have "vsnprintf_line (show_int i @ ''\<newline>'') = show_int i @ ''\<newline>''"
    by (rule vsnprintf_short) (use l in \<open>auto simp: is_line_def\<close>)
  then have sx: "sent x = sent c @ [(player_fd (me c), show_int i @ ''\<newline>'')]"
    using client_chan.send_Inr [OF x(1)] i(2) by simp
  obtain q where q: "client_remove_tile i (me c) = Some q" "d = x\<lparr>me := q\<rparr>"
    using x(2) mx(1) by (cases "client_remove_tile i (me c)") (simp_all add: update_me_def my_def)
  show thesis using i(3,4) m sx q mx(2) by (intro that [of i m]) (simp_all add: kind_def)
qed

subsection \<open>Properties\<close>

text \<open>
  Property C26: the client discards a tile that it holds. Whatever is typed, when \<open>client_discard\<close>
  returns on a hand with a drawn tile, the one line it has sent is the index of a tile of the hand or of the
  drawn tile, which the server's \<open>sscanf\<close> reads back; that tile is taken from the client's hand and shown as
  the card on the table. So no discard of this client from such a hand has an index that the
  server fails to check. (The indices of an eat are sent as they are typed.)
\<close>

theorem client_chooses_in_hand:
  assumes "client_discard c = (Inr v, d)" and "hand_drawn (me c)"
  shows "\<exists>i m. 0 \<le> i \<and> i \<le> normal_capacity (me c) \<and> at (decks (me c)) i = Some m \<and> playable m \<and>
     sent d = sent c @ [(player_fd (me c), show_int i @ ''\<newline>'')] \<and> read_index (show_int i @ ''\<newline>'') = Some i \<and>
     kind (board d) = kind m \<and> client_remove_tile i (me c) = Some (me d)"
proof -
  obtain i m where d: "0 \<le> i" "i \<le> normal_capacity (me c)" "at (decks (me c)) i = Some m"
    "sent d = sent c @ [(player_fd (me c), show_int i @ ''\<newline>'')]" "kind (board d) = kind m"
    "client_remove_tile i (me c) = Some (me d)" by (rule discard_run_client [OF assms])
  have "i \<le> 16" using d(2) assms(2) by (simp add: hand_drawn_def)
  then have "int_range i" using index_line(3) d(1) by blast
  then have "read_index (show_int i @ ''\<newline>'') = Some i" using scan_number [of i] by (simp add: read_index_def)
  moreover have "playable m" using d(1-3) assms(2) by (auto simp: hand_drawn_def at_eq)
  ultimately show ?thesis using d by blast
qed

text \<open>
  Property C27: input that is no number is never consumed. When the terminal's buffer begins with a byte that
  is no digit, no sign and no space, the loop of \<open>client_discard\<close> does not end for any number of turns:
  every \<open>scanf\<close> fails on the same byte, so the client asks for ever and never hears the server again.
\<close>

theorem client_stuck_on_text:
  assumes "stdin_buf s = c # b" and "\<not> is_space c" and "\<not> is_digit c" and "c \<noteq> CHR ''-''" and "c \<noteq> CHR ''+''"
  shows "fst (choose_loop fuel s) = Inl Diverges"
proof -
  have sp: "grab_chars is_space [] (c # b) es = ([], c # b, es)" for es
    using assms(2) by (simp add: grab_chars.simps [of is_space "[]"])
  have dg: "grab_chars is_digit [] (c # b) es = ([], c # b, es)" for es
    using assms(3) by (simp add: grab_chars.simps [of is_digit "[]"])
  have sc: "scanf_d (c # b) es = (ScanNone, c # b, es)" for es
    using assms(4,5) by (simp add: scanf_d_def scan_sign_def sp dg)
  show ?thesis
    using assms(1)
  proof (induction fuel arbitrary: s)
    case (Suc fuel)
    then show ?case by (simp add: scanf_stdin_run sc printf_def my_def)
  qed simp
qed


text \<open>A client with three tiles, at whose terminal something has been typed.\<close>

definition typed :: "string \<Rightarrow> client" where
  "typed b = \<lparr>net = (\<lambda>fd. if fd = 3 then [Bytes ''ACK\<newline>''] else []), read_cnt = 0, read_ptr = [], sent = [],
     console = [], recvline = [], me = (seat 2 [tile 1 3, tile 4 7, tile 2 5])\<lparr>player_fd := 3\<rparr>,
     board = null_mj, message = [], id_num = 0, client_rset = {}, client_selects = [], stdin_buf = b,
     closed_fds = [], server_addr = []\<rparr>"

theorem client_chooses_in_hand_witness:
  "\<exists>d. client_discard (typed ''99 1\<newline>'') = (Inr 0, d) \<and>
     (\<exists>i. 0 \<le> i \<and> i \<le> 2 \<and> sent d = [(3, show_int i @ ''\<newline>'')])"
proof -
  let ?c = "typed ''99 1\<newline>''"
  obtain r d where run: "client_discard ?c = (r, d)" by (metis prod.exhaust)
  have "fst (client_discard ?c) = Inr 0" by code_simp
  then have r: "client_discard ?c = (Inr 0, d)" using run by simp
  have me: "me ?c = (seat 2 [tile 1 3, tile 4 7, tile 2 5])\<lparr>player_fd := 3\<rparr>" by (simp add: typed_def)
  have "hand_drawn (me ?c)" unfolding me using seat_drawn by (simp add: hand_drawn_def)
  from client_chooses_in_hand [OF r this] obtain i where
    "0 \<le> i" "i \<le> normal_capacity (me ?c)" "sent d = sent ?c @ [(player_fd (me ?c), show_int i @ ''\<newline>'')]" by blast
  moreover have "normal_capacity (me ?c) = 2" "player_fd (me ?c) = 3" "sent ?c = []"
    by (simp_all add: typed_def seat_def)
  ultimately show ?thesis using r by auto
qed

theorem client_stuck_on_text_witness: "fst (choose_loop 1000 (typed ''x\<newline>'')) = Inl Diverges"
  by (rule client_stuck_on_text [of _ "CHR ''x''" "''\<newline>''"]) (simp_all add: typed_def is_space_def is_digit_def)

end
