(* ===== verification/Session.thy ===== *)
theory Session
  imports Turns Choices
begin

text \<open>
  Both ends of a connection at once. The server and a client run as two programs over streams of
  bytes; a session ties them together: what the one still has to read is what the other still writes.
  Since every message is acknowledged, the two runs can be cut at the same places, and a relational
  logic (\<open>in_step\<close>) proves that they agree at each cut.
\<close>

subsection \<open>Two runs in step\<close>

text \<open>
  A session of the server with the player \<open>seat_no\<close>: the descriptors of all seats, everything that server and
  client have written when their runs are over, and the bytes that follow on either stream.
\<close>

record session =
  seat_no :: int
  seat_fds :: "int \<Rightarrow> int"
  server_log :: "(int \<times> string) list"
  client_log :: "(int \<times> string) list"
  after_server :: string
  after_client :: string

definition said_to :: "int \<Rightarrow> (int \<times> string) list \<Rightarrow> string" where
  "said_to fd log = concat (map snd (filter (\<lambda>m. fst m = fd) log))"

lemma said_to_simps [simp]:
  "said_to fd [] = []" "said_to fd ((fd, l) # log) = l @ said_to fd log"
  "fd' \<noteq> fd \<Longrightarrow> said_to fd ((fd', l) # log) = said_to fd log"
  "said_to fd (log @ log') = said_to fd log @ said_to fd log'"
  "said_to fd (map (Pair fd) ls) = concat ls" "said_to fd (replicate n (fd, l)) = concat (replicate n l)"
  by (auto simp: said_to_def comp_def)

text \<open>
  A client whose server waits for it before it goes on, and whose terminal delivers a line at a time:
  each result of \<open>read\<close> is one line, so nothing is left in the buffer that socket and terminal share.
\<close>

definition line_event :: "nat \<Rightarrow> read_event \<Rightarrow> bool" where
  "line_event n e \<longleftrightarrow> (\<exists>l. e = Bytes (l @ [newline]) \<and> newline \<notin> set l \<and> length l + 1 < n)"

definition tidy :: "client \<Rightarrow> bool" where
  "tidy c \<longleftrightarrow> read_cnt c \<le> 0 \<and> player_fd (me c) \<noteq> 0 \<and>
     (\<forall>e \<in> set (net c (player_fd (me c))). line_event MAXLINE e) \<and> (\<forall>e \<in> set (net c 0). line_event 64 e)"

text \<open>What the client hears, and the whole link.\<close>

definition hearing :: "session \<Rightarrow> server \<Rightarrow> client \<Rightarrow> bool" where
  "hearing x s c \<longleftrightarrow> (\<forall>i. player_fd (players s i) = seat_fds x i) \<and>
     (\<exists>log. server_log x = sent s @ log \<and> hears (said_to (seat_fds x (seat_no x)) log @ after_server x) c)"

definition linked :: "session \<Rightarrow> server \<Rightarrow> client \<Rightarrow> bool" where
  "linked x s c \<longleftrightarrow> hearing x s c \<and> buffer_ok s \<and> tidy c \<and>
     (\<exists>log. client_log x = sent c @ log \<and>
        pending (seat_fds x (seat_no x)) s = said_to (player_fd (me c)) log @ after_client x)"

text \<open>
  From states with \<open>P\<close>, two runs that return, and whose output is part of the session's, end in states
  with \<open>Q\<close> of their values.
\<close>

definition in_step :: "session \<Rightarrow> (server \<Rightarrow> client \<Rightarrow> bool) \<Rightarrow> (server, 'a) prog \<Rightarrow> (client, 'b) prog \<Rightarrow>
    ('a \<Rightarrow> 'b \<Rightarrow> server \<Rightarrow> client \<Rightarrow> bool) \<Rightarrow> bool" where
  "in_step x P m k Q \<longleftrightarrow> (\<forall>s c v w t d. P s c \<and> m s = (Inr v, t) \<and> k c = (Inr w, d) \<and>
     (\<exists>log. server_log x = sent t @ log) \<and> (\<exists>log. client_log x = sent d @ log) \<longrightarrow> Q v w t d)"

text \<open>Programs that only append to what was written.\<close>

definition grown :: "(int \<times> string) list \<Rightarrow> 'z io_scheme \<Rightarrow> bool" where
  "grown l s \<longleftrightarrow> (\<exists>log. sent s = l @ log)"

abbreviation growing :: "('z io_scheme, 'a) prog \<Rightarrow> bool" where
  "growing m \<equiv> (\<forall>l. keeps (grown l) m)"

lemma growingD:
  assumes "growing m" and "m s = (Inr v, t)" and "\<exists>log. all_sent = sent t @ log"
  shows "\<exists>log. all_sent = sent s @ log"
proof -
  have "grown (sent s) t" using keepsD [of "grown (sent s)" m s] assms(1,2) by (simp add: grown_def)
  then show ?thesis using assms(3) by (auto simp: grown_def)
qed

named_theorems grows "programs that only append to what was written"

lemma growing_bindp: "growing m \<Longrightarrow> (\<And>a. growing (f a)) \<Longrightarrow> growing (bindp m f)"
  by (intro allI keeps_bindp) auto

lemma growing_thenp: "growing m \<Longrightarrow> growing k \<Longrightarrow> growing (thenp m k)"
  by (intro allI keeps_thenp) auto

lemma growing_if: "(b \<Longrightarrow> growing m) \<Longrightarrow> (\<not> b \<Longrightarrow> growing k) \<Longrightarrow> growing (if b then m else k)"
  by simp

lemma growing_basic [grows]:
  "growing (ret v)" "growing (failp e)" "growing (getp h)" "growing (liftp z)"
  by (simp_all add: keeps_ret keeps_failp keeps_getp keeps_liftp)

lemma growing_modp: "(\<And>s. sent (f s) = sent s) \<Longrightarrow> growing (modp f)"
  by (auto intro!: keeps_modp simp: grown_def)

lemma growing_case_option:
  "growing m \<Longrightarrow> (\<And>z. growing (k z)) \<Longrightarrow> growing (case y of None \<Rightarrow> m | Some z \<Rightarrow> k z)"
  by (cases y) auto

lemma growing_case_prod: "(\<And>a b. growing (k a b)) \<Longrightarrow> growing (case z of (a, b) \<Rightarrow> k a b)"
  by (cases z) auto

lemmas growing_intros = growing_bindp growing_thenp growing_if growing_case_option growing_case_prod

subsection \<open>Rules\<close>

lemma in_stepD:
  assumes "in_step x P m k Q" and "P s c" and "m s = (Inr v, t)" and "k c = (Inr w, d)"
    and "\<exists>log. server_log x = sent t @ log" and "\<exists>log. client_log x = sent d @ log"
  shows "Q v w t d"
  using assms unfolding in_step_def by blast

lemma in_stepI:
  assumes "\<And>s c v w t d. P s c \<Longrightarrow> m s = (Inr v, t) \<Longrightarrow> k c = (Inr w, d) \<Longrightarrow>
    \<exists>log. server_log x = sent t @ log \<Longrightarrow> \<exists>log. client_log x = sent d @ log \<Longrightarrow> Q v w t d"
  shows "in_step x P m k Q"
  using assms unfolding in_step_def by blast

lemma in_step_bind:
  assumes "in_step x P m k R" and "\<And>a b. in_step x (R a b) (f a) (g b) Q"
    and "\<And>a. growing (f a)" and "\<And>b. growing (g b)"
  shows "in_step x P (bindp m f) (bindp k g) Q"
proof (rule in_stepI)
  fix s c v w t d
  assume P: "P s c" and m: "bindp m f s = (Inr v, t)" and k: "bindp k g c = (Inr w, d)"
    and S: "\<exists>log. server_log x = sent t @ log" and C: "\<exists>log. client_log x = sent d @ log"
  obtain a u where a: "m s = (Inr a, u)" "f a u = (Inr v, t)" using m by (rule bindp_InrE)
  obtain b e where b: "k c = (Inr b, e)" "g b e = (Inr w, d)" using k by (rule bindp_InrE)
  have "R a b u e"
    by (rule in_stepD [OF assms(1) P a(1) b(1) growingD [OF assms(3) a(2) S] growingD [OF assms(4) b(2) C]])
  from in_stepD [OF assms(2) this a(2) b(2) S C] show "Q v w t d" .
qed

lemma in_step_then:
  assumes "in_step x P m k R" and "\<And>a b. in_step x (R a b) m' k' Q" and "growing m'" and "growing k'"
  shows "in_step x P (thenp m m') (thenp k k') Q"
  unfolding thenp_def using assms by (rule in_step_bind)

text \<open>A property that one side keeps whatever the other does.\<close>

lemma in_step_keep_left:
  assumes "in_step x P m k Q" and "partial J m (\<lambda>_. J)"
  shows "in_step x (\<lambda>s c. P s c \<and> J s) m k (\<lambda>v w s c. Q v w s c \<and> J s)"
  using assms by (blast intro!: in_stepI dest: in_stepD triple_Inr)

text \<open>A step of one side alone.\<close>

lemma in_step_left:
  assumes "\<And>c. partial (\<lambda>s. P s c) m (\<lambda>a s. R a s c)" and "\<And>a. in_step x (R a) (f a) k Q"
  shows "in_step x P (bindp m f) k Q"
proof (rule in_stepI)
  fix s c v w t d
  assume P: "P s c" and m: "bindp m f s = (Inr v, t)" and k: "k c = (Inr w, d)"
    and S: "\<exists>log. server_log x = sent t @ log" and C: "\<exists>log. client_log x = sent d @ log"
  obtain a u where a: "m s = (Inr a, u)" "f a u = (Inr v, t)" using m by (rule bindp_InrE)
  have "R a u c" using triple_Inr [OF assms(1) P a(1)] .
  from in_stepD [OF assms(2) this a(2) k S C] show "Q v w t d" .
qed

text \<open>A step of the server that writes: what it wrote is part of the session.\<close>

lemma in_step_left_out:
  assumes "\<And>c. partial (\<lambda>s. P s c) m (\<lambda>a s. (\<exists>log. server_log x = sent s @ log) \<longrightarrow> R a s c)"
    and "\<And>a. in_step x (R a) (f a) k Q" and "\<And>a. growing (f a)"
  shows "in_step x P (bindp m f) k Q"
proof (rule in_stepI)
  fix s c v w t d
  assume P: "P s c" and m: "bindp m f s = (Inr v, t)" and k: "k c = (Inr w, d)"
    and S: "\<exists>log. server_log x = sent t @ log" and C: "\<exists>log. client_log x = sent d @ log"
  obtain a u where a: "m s = (Inr a, u)" "f a u = (Inr v, t)" using m by (rule bindp_InrE)
  have "R a u c" using triple_Inr [OF assms(1) P a(1)] growingD [OF assms(3) a(2) S] by blast
  from in_stepD [OF assms(2) this a(2) k S C] show "Q v w t d" .
qed

lemma in_step_right:
  assumes "\<And>s. partial (P s) k (\<lambda>b c. R b s c)" and "\<And>b. in_step x (R b) m (g b) Q"
  shows "in_step x P m (bindp k g) Q"
proof (rule in_stepI)
  fix s c v w t d
  assume P: "P s c" and m: "m s = (Inr v, t)" and k: "bindp k g c = (Inr w, d)"
    and S: "\<exists>log. server_log x = sent t @ log" and C: "\<exists>log. client_log x = sent d @ log"
  obtain b e where b: "k c = (Inr b, e)" "g b e = (Inr w, d)" using k by (rule bindp_InrE)
  have "R b s e" using triple_Inr [OF assms(1) P b(1)] .
  from in_stepD [OF assms(2) this m b(2) S C] show "Q v w t d" .
qed

lemma in_step_left_get: "(\<And>a. in_step x (\<lambda>s c. P s c \<and> a = h s) (f a) k Q) \<Longrightarrow> in_step x P (bindp (getp h) f) k Q"
  by (rule in_step_left [where R = "\<lambda>a s c. P s c \<and> a = h s"]) (auto simp: triple_def)

lemma in_step_left_lift: "(\<And>a. z = Some a \<Longrightarrow> in_step x P (f a) k Q) \<Longrightarrow> in_step x P (bindp (liftp z) f) k Q"
  by (cases z) (auto simp: in_step_def)

lemma in_step_right_get: "(\<And>b. in_step x (\<lambda>s c. P s c \<and> b = h c) m (g b) Q) \<Longrightarrow> in_step x P m (bindp (getp h) g) Q"
  by (rule in_step_right [where R = "\<lambda>b s c. P s c \<and> b = h c"]) (auto simp: triple_def)

lemma in_step_right_lift: "(\<And>b. z = Some b \<Longrightarrow> in_step x P m (g b) Q) \<Longrightarrow> in_step x P m (bindp (liftp z) g) Q"
  by (cases z) (auto simp: in_step_def)

lemma in_step_pre: "in_step x P' m k Q \<Longrightarrow> (\<And>s c. P s c \<Longrightarrow> P' s c) \<Longrightarrow> in_step x P m k Q"
  unfolding in_step_def by blast

lemma in_step_post: "in_step x P m k Q' \<Longrightarrow> (\<And>v w s c. Q' v w s c \<Longrightarrow> Q v w s c) \<Longrightarrow> in_step x P m k Q"
  unfolding in_step_def by blast

lemma in_step_pure: "(\<And>s c. P s c \<Longrightarrow> b) \<Longrightarrow> (b \<Longrightarrow> in_step x P m k Q) \<Longrightarrow> in_step x P m k Q"
  unfolding in_step_def by blast

lemma in_step_ret: "(\<And>s c. P s c \<Longrightarrow> Q v w s c) \<Longrightarrow> in_step x P (ret v) (ret w) Q"
  by (auto simp: in_step_def)

subsection \<open>Output only grows\<close>

context exchange
begin

lemma growing_send: "growing (send fd l)"
proof (intro allI keepsI)
  fix log s r t assume "grown log s" and "send fd l s = (r, t)"
  then show "grown log t" by (cases r) (auto simp: grown_def dest!: send_Inr send_Inl)
qed

lemma growing_recv: "growing (recv fd)"
proof (intro allI keepsI)
  fix log s r t assume "grown log s" and "recv fd s = (r, t)"
  then show "grown log t" by (cases r) (auto simp: grown_def dest!: recv_Inr recv_Inl)
qed

end

lemma growing_world [grows]:
  "growing (printf l)" "growing clear_recvline" "growing (set_message m)" "growing (player_of p)" "growing said_yes"
  "growing (update_player p f)" "growing my" "growing (recv_is l n)" "growing both_unread" "growing socket_unread"
  "growing (update_me g)" "growing clear_discarded" "growing clear_board"
  unfolding printf_def clear_recvline_def set_recvline_def set_message_def player_of_def said_yes_def update_player_def
    set_player_def my_def recv_is_def both_unread_def socket_unread_def update_me_def clear_discarded_def clear_board_def
  by (intro growing_intros grows growing_modp; simp)+

lemma growing_talk [grows]: "growing (tell p l)" "growing (hear p)" "growing (say l)" "growing listen_server"
  unfolding tell_def hear_def say_def listen_server_def
  by (intro growing_intros grows server_chan.growing_send server_chan.growing_recv client_chan.growing_send client_chan.growing_recv)+

subsection \<open>Reading in a tidy client\<close>

text \<open>What a read of the terminal, and every step inside the client, leaves alone.\<close>

definition aside :: "client \<Rightarrow> client \<Rightarrow> bool" where
  "aside c d \<longleftrightarrow> (tidy c \<longrightarrow> tidy d \<and> net d (player_fd (me c)) = net c (player_fd (me c))) \<and>
     sent d = sent c \<and> me d = me c \<and> board d = board c"

text \<open>Such a read takes one line off its descriptor and leaves nothing behind.\<close>

lemma line_read_text:
  assumes "read_cnt s \<le> 0" and "\<forall>e \<in> set (net s fd). line_event n e" and "1 < n" and "n \<le> MAXLINE"
    and "readline fd n s = ((r, l), t)" and "r \<noteq> 0"
  obtains b es where "r = int (length b) + 1" and "l = b @ [newline]" and "newline \<notin> set b" and "length b + 1 < n"
    and "set es \<subseteq> set (net s fd)" and "t = s\<lparr>net := (net s)(fd := es), read_cnt := 0, read_ptr := []\<rparr>"
proof -
  have n: "n = Suc (n - 1)" using assms(3) by simp
  have "\<exists>b es. net s fd = Bytes (b @ [newline]) # es \<and> newline \<notin> set b \<and> length b + 1 < n"
  proof (cases "net s fd")
    case Nil
    then have m: "my_read fd s = ((0, NUL), s\<lparr>net := (net s)(fd := []), read_cnt := 0\<rparr>)"
      using assms(1) by (simp add: my_read_def)
    obtain k where "n - 1 = Suc k" using assms(3) by (cases "n - 1") auto
    then have "r = 0" using assms(5) m by (simp add: readline_def)
    then show ?thesis using assms(6) by simp
  next
    case (Cons a es)
    then show ?thesis using assms(2) by (auto simp: line_event_def)
  qed
  then obtain b es where b: "net s fd = Bytes (b @ [newline]) # es" "newline \<notin> set b" "length b + 1 < n" by blast
  have "readline fd n s = ((int (length b) + 1, b @ [newline]), s\<lparr>net := (net s)(fd := es), read_cnt := 0, read_ptr := []\<rparr>)"
    by (rule readline_chunk [OF _ b]) (use assms(1,4) b(3) n in auto)
  then show thesis using that [of b es] b assms(5) by auto
qed

lemma line_read:
  assumes "read_cnt s \<le> 0" and "\<forall>e \<in> set (net s fd). line_event n e" and "1 < n" and "n \<le> MAXLINE"
    and "readline fd n s = ((r, l), t)" and "r \<noteq> 0"
  obtains es where "set es \<subseteq> set (net s fd)" and "t = s\<lparr>net := (net s)(fd := es), read_cnt := 0, read_ptr := []\<rparr>"
  using line_read_text [OF assms] by metis

lemma tidy_read:
  assumes "tidy c" and "fd = player_fd (me c) \<and> n = MAXLINE \<or> fd = 0 \<and> n = 64" and "readline fd n c = ((r, l), d)" and "r \<noteq> 0"
  shows "tidy d" and "\<And>i. i \<noteq> fd \<Longrightarrow> net d i = net c i" and "sent d = sent c" and "io.more d = io.more c"
    and "buffered d = []"
proof -
  have n: "1 < n" "n \<le> MAXLINE" using assms(2) by (auto simp: MAXLINE_def)
  have e: "read_cnt c \<le> 0" "\<forall>e \<in> set (net c fd). line_event n e" using assms(1,2) by (auto simp: tidy_def)
  obtain es where es: "set es \<subseteq> set (net c fd)" "d = c\<lparr>net := (net c)(fd := es), read_cnt := 0, read_ptr := []\<rparr>"
    by (rule line_read [OF e n assms(3,4)])
  show "tidy d" using assms(1) es by (auto simp: tidy_def)
  show "\<And>i. i \<noteq> fd \<Longrightarrow> net d i = net c i" "sent d = sent c" "io.more d = io.more c" "buffered d = []"
    by (simp_all add: es(2) buffered_def)
qed

lemma tidy_world [simp]:
  "tidy (c\<lparr>sent := a\<rparr>) = tidy c" "tidy (c\<lparr>console := o1\<rparr>) = tidy c" "tidy (c\<lparr>recvline := r\<rparr>) = tidy c"
  "tidy (c\<lparr>message := r\<rparr>) = tidy c" "tidy (c\<lparr>board := m\<rparr>) = tidy c" "tidy (c\<lparr>stdin_buf := r\<rparr>) = tidy c"
  "player_fd q = player_fd (me c) \<Longrightarrow> tidy (c\<lparr>me := q\<rparr>) = tidy c"
  by (simp_all add: tidy_def)

lemma tidy_buffer: "tidy c \<Longrightarrow> buffer_ok c \<and> buffered c = []"
  by (simp add: tidy_def buffer_ok_def buffered_def)

lemma tidy_listen: "partial tidy listen_server (\<lambda>_. tidy)"
proof (rule tripleI)
  fix c r d assume c: "tidy c" and run: "listen_server c = (Inr r, d)"
  obtain n l u where u: "readline (player_fd (me c)) MAXLINE c = ((n, l), u)" by (metis surj_pair)
  then have "n \<noteq> 0" "d = u\<lparr>recvline := l, sent := sent u @ [(player_fd (me c), ack_line)]\<rparr>"
    using run by (auto simp: listen_server_def my_def client_read_and_ack_def readline_recv_def write_fd_def printf_def split: if_splits)
  then show "tidy d" using tidy_read(1) [OF c _ u] by simp
qed simp

lemma tidy_say: "partial tidy (say l) (\<lambda>_. tidy)"
proof (rule tripleI)
  fix c r d assume c: "tidy c" and run: "say l c = (Inr r, d)"
  let ?c = "c\<lparr>sent := sent c @ [(player_fd (me c), vsnprintf_line l)]\<rparr>"
  obtain n k u where u: "readline (player_fd (me c)) MAXLINE ?c = ((n, k), u)" by (metis surj_pair)
  then have "n \<noteq> 0" "d = u\<lparr>recvline := []\<rparr>"
    using run by (auto simp: say_def my_def client_write_message_wait_ack_def readline_recv_def write_fd_def printf_def
        clear_recvline_def set_recvline_def split: if_splits)
  then show "tidy d" using tidy_read(1) [of ?c, OF _ _ u] c by simp
qed simp

lemma hears_aside:
  assumes "tidy c" and "aside c d" and "hears y c"
  shows "hears y d"
  using assms tidy_buffer [of c] tidy_buffer [of d] by (auto simp: aside_def hears_def pending_def)

lemma linked_aside: "linked x s c \<Longrightarrow> aside c d \<Longrightarrow> linked x s d"
  using hears_aside [of c d] by (auto simp: linked_def hearing_def aside_def)

subsection \<open>Messages\<close>

text \<open>
  What depends on the server's game, the client's tiles and the tile on its board alone, and so is not
  changed by a message.
\<close>

definition framed :: "(server \<Rightarrow> player \<Rightarrow> mj \<Rightarrow> bool) \<Rightarrow> bool" where
  "framed F \<longleftrightarrow> (\<forall>s t q b. F s q b \<and> io.more t = io.more s \<longrightarrow> F t q b)"

abbreviation link :: "session \<Rightarrow> (server \<Rightarrow> player \<Rightarrow> mj \<Rightarrow> bool) \<Rightarrow> server \<Rightarrow> client \<Rightarrow> bool" where
  "link x F s c \<equiv> linked x s c \<and> F s (me c) (board c)"

lemma framedD: "framed F \<Longrightarrow> F s (me c) (board c) \<Longrightarrow> io.more t = io.more s \<Longrightarrow> io.more d = io.more c \<Longrightarrow> F t (me d) (board d)"
  using client_more [of d c] unfolding framed_def by metis

lemma whole_line: "is_line l \<Longrightarrow> NUL \<notin> set l \<Longrightarrow> vsnprintf_line l = l"
  by (rule vsnprintf_short) (auto simp: is_line_def)

lemma tell_listen:
  assumes "framed F" and "is_line l" and "NUL \<notin> set l"
  shows "in_step x (link x F) (tell (seat_no x) l) listen_server
     (\<lambda>_ _ s c. link x F s c \<and> recvline c = l)"
proof (rule in_stepI, elim conjE)
  fix s c v w t d
  assume L: "linked x s c" and F: "F s (me c) (board c)" and m: "tell (seat_no x) l s = (Inr v, t)" and k: "listen_server c = (Inr w, d)"
    and S: "\<exists>log. server_log x = sent t @ log" and C: "\<exists>log. client_log x = sent d @ log"
  let ?fd = "seat_fds x (seat_no x)"
  let ?me = "player_fd (me c)"
  have fds: "\<And>i. player_fd (players s i) = seat_fds x i" using L by (simp add: linked_def hearing_def)
  then have send: "write_message_wait_ack ?fd l s = (Inr v, t)" using m by (simp add: tell_def player_of_def)
  have st: "sent t = sent s @ [(?fd, l)]" "io.more t = io.more s"
    using server_chan.send_Inr [OF send] server_chan.send_more [OF send] whole_line [OF assms(2,3)] by simp_all
  with S obtain log where log: "server_log x = sent s @ (?fd, l) # log" by auto
  then have "hears (l @ said_to ?fd log @ after_server x) c" using L by (auto simp: linked_def hearing_def)
  then obtain e where e: "listen_server c = (Inr 0, e)" "recvline e = l" "hears (said_to ?fd log @ after_server x) e"
    "io.more e = io.more c" "sent e = sent c @ [(?me, ack_line)]"
    using listen_hears [OF _ assms(2)] by metis
  then have d: "d = e" using k by simp
  obtain log' where log': "client_log x = sent c @ (?me, ack_line) # log'" using C e(5) d by auto
  then have p: "buffer_ok s" "pending ?fd s = ack_line @ said_to ?me log' @ after_client x"
    using L by (auto simp: linked_def)
  have t: "buffer_ok t" "pending ?fd t = said_to ?me log' @ after_client x"
    using server_chan.send_acked [OF p, of l] send by auto
  have me: "me d = me c" using client_more [OF e(4)] d by simp
  have "\<And>i. player_fd (players t i) = seat_fds x i" using fds more_fields(1) [OF st(2)] by simp
  moreover have "tidy d" using triple_Inr [OF tidy_listen _ k] L by (simp add: linked_def)
  ultimately have "linked x t d"
    using t log log' e(3,5) st(1) me d by (simp add: linked_def hearing_def)
  moreover have "F t (me d) (board d)" using framedD [OF assms(1) F st(2)] e(4) d by simp
  ultimately show "link x F t d \<and> recvline d = l" using e(2) d by simp
qed

lemma hear_say:
  assumes "framed F" and "is_line l" and "NUL \<notin> set l"
  shows "in_step x (link x F) (hear (seat_no x)) (say l)
     (\<lambda>_ _ s c. link x F s c \<and> recvline s = l)"
proof (rule in_stepI, elim conjE)
  fix s c v w t d
  assume L: "linked x s c" and F: "F s (me c) (board c)" and m: "hear (seat_no x) s = (Inr v, t)" and k: "say l c = (Inr w, d)"
    and S: "\<exists>log. server_log x = sent t @ log" and C: "\<exists>log. client_log x = sent d @ log"
  let ?fd = "seat_fds x (seat_no x)"
  let ?me = "player_fd (me c)"
  have fds: "\<And>i. player_fd (players s i) = seat_fds x i" using L by (simp add: linked_def hearing_def)
  then have recv: "read_and_ack ?fd s = (Inr v, t)" using m by (simp add: hear_def player_of_def)
  have send: "client_write_message_wait_ack ?me l c = (Inr w, d)" using k by (simp add: say_def my_def)
  have sd: "sent d = sent c @ [(?me, l)]" "io.more d = io.more c"
    using client_chan.send_Inr [OF send] client_chan.send_more [OF send] whole_line [OF assms(2,3)] by simp_all
  have st: "sent t = sent s @ [(?fd, ack_line)]" "io.more t = io.more s"
    using server_chan.recv_Inr [OF recv] server_chan.recv_more [OF recv] by simp_all
  obtain b where b: "l = b @ [newline]" "newline \<notin> set b" "length b + 1 < MAXLINE" using assms(2) by (auto simp: is_line_def)
  obtain log where log: "server_log x = sent s @ (?fd, ack_line) # log" using S st(1) by auto
  then have h: "buffer_ok c" "pending ?me c = ack_line @ said_to ?fd log @ after_server x"
    using L by (auto simp: linked_def hearing_def hears_def)
  obtain log' where log': "client_log x = sent c @ (?me, l) # log'" using C sd(1) by auto
  then have p: "buffer_ok s" "pending ?fd s = b @ newline # said_to ?me log' @ after_client x"
    using L b(1) by (auto simp: linked_def)
  have t: "recvline t = l" "buffer_ok t" "pending ?fd t = said_to ?me log' @ after_client x"
    using server_chan.recv_line [OF p b(2,3)] recv b(1) by auto
  have d: "buffer_ok d" "pending ?me d = said_to ?fd log @ after_server x"
    using client_chan.send_acked [OF h, of l] send by auto
  have me: "me d = me c" using client_more [OF sd(2)] by simp
  have "\<And>i. player_fd (players t i) = seat_fds x i" using fds more_fields(1) [OF st(2)] by simp
  moreover have "tidy d" using triple_Inr [OF tidy_say _ k] L by (simp add: linked_def)
  ultimately have "linked x t d"
    using t d log log' st(1) sd(1) me by (simp add: linked_def hearing_def hears_def)
  moreover have "F t (me d) (board d)" by (rule framedD [OF assms(1) F st(2) sd(2)])
  ultimately show "link x F t d \<and> recvline t = l" using t(1) by simp
qed

subsection \<open>Steps inside the client\<close>

abbreviation sideways :: "(client, 'a) prog \<Rightarrow> bool" where
  "sideways m \<equiv> (\<forall>c. partial (aside c) m (\<lambda>_. aside c))"

lemma aside_refl [simp]: "aside c c"
  by (simp add: aside_def)

lemma aside_trans: "aside c d \<Longrightarrow> aside d e \<Longrightarrow> aside c e"
  by (auto simp: aside_def)

lemma sidewaysI: "(\<And>c r d. m c = (Inr r, d) \<Longrightarrow> aside c d) \<Longrightarrow> sideways m"
  by (intro allI tripleI) (auto intro: aside_trans)

lemma sidewaysD: "sideways m \<Longrightarrow> m c = (Inr r, d) \<Longrightarrow> aside c d"
  using triple_Inr [of "aside c" m "\<lambda>_. aside c"] by force

lemma sideways_bindp: "sideways m \<Longrightarrow> (\<And>a. sideways (f a)) \<Longrightarrow> sideways (bindp m f)"
  by (intro allI triple_bindp) auto

lemma sideways_thenp: "sideways m \<Longrightarrow> sideways k \<Longrightarrow> sideways (thenp m k)"
  by (intro allI triple_thenp) auto

lemma sideways_if: "(b \<Longrightarrow> sideways m) \<Longrightarrow> (\<not> b \<Longrightarrow> sideways k) \<Longrightarrow> sideways (if b then m else k)"
  by simp

named_theorems side "programs that read no message and leave the tiles alone"

lemma sideways_basic [side]:
  "sideways (ret v)" "sideways (failp e)" "sideways (getp h)" "sideways (liftp z)" "sideways my"
  by (auto intro!: sidewaysI simp: my_def)

lemma sideways_modp: "(\<And>c. aside c (f c)) \<Longrightarrow> sideways (modp f)"
  by (rule sidewaysI) auto

lemma sideways_world [side]:
  "sideways (printf l)" "sideways clear_recvline" "sideways (set_message m)" "sideways (recv_is l n)"
  "sideways both_unread"
  unfolding printf_def clear_recvline_def set_recvline_def set_message_def recv_is_def both_unread_def
  by (intro sideways_modp side; simp add: aside_def)+

lemmas sideways_intros = sideways_bindp sideways_thenp sideways_if

lemma sideways_show [side]: "sideways (append_message m)" "sideways (show_hand a b)"
  unfolding append_message_def show_hand_def by (intro sideways_intros side)+

lemma sideways_leave [side]: "sideways (leave m n)" "sideways pressed_ctrl_d"
  unfolding pressed_ctrl_d_def by (rule sidewaysI; simp add: leave_def my_def printf_def)+

lemma readline_stdin_aside:
  assumes "readline_stdin 64 c = (Inr (n, l), d)" and "n \<noteq> 0"
  shows "aside c d"
proof -
  have r: "readline 0 64 c = ((n, l), d)" using assms(1) by (auto simp: readline_stdin_def split: prod.splits)
  have "tidy d \<and> net d (player_fd (me c)) = net c (player_fd (me c))" if "tidy c"
    using tidy_read(1,2) [OF that _ r assms(2)] that by (simp add: tidy_def)
  then show ?thesis using same_but_readD(1,4) [OF readline_same [OF r]] client_more [of d c] by (simp add: aside_def)
qed

lemma growing_readline [grows]: "growing (readline_stdin n)"
  by (auto intro!: keepsI simp: readline_stdin_def grown_def dest!: same_but_readD(1) [OF readline_same] split: prod.splits)

lemma growing_leave [grows]: "growing (leave m n)" "growing pressed_ctrl_d"
  unfolding pressed_ctrl_d_def leave_def by (intro growing_intros grows growing_modp; simp)+

lemma growing_question [grows]: "growing (question z prompt)"
proof -
  have "growing (question_loop k z prompt)" for k
  proof (induction k arbitrary: z)
    case 0
    show ?case by (auto intro!: keepsI)
  next
    case (Suc k)
    have eq: "question_loop (Suc k) z prompt = thenp (printf prompt) (bindp (readline_stdin 64) (\<lambda>(n, answer).
        if n = 0 then pressed_ctrl_d else if n < 0 \<and> \<not> z then failp Undefined
        else if strncmp_eq answer ''Y\<newline>'' 2 \<or> strncmp_eq answer ''\<newline>'' 1 then ret True
        else if strncmp_eq answer ''n\<newline>'' 2 then ret False else question_loop k True prompt))"
      by (rule ext) simp
    show ?case unfolding eq by (intro growing_intros grows Suc)
  qed
  then show ?thesis unfolding question_def by (intro growing_intros grows)
qed

lemma sideways_question [side]: "sideways (question z prompt)"
proof -
  have "sideways (question_loop k z prompt)" for k
  proof (induction k arbitrary: z)
    case 0
    show ?case by (rule sidewaysI) simp
  next
    case (Suc k)
    have eq: "question_loop (Suc k) z prompt = thenp (printf prompt) (bindp (readline_stdin 64) (\<lambda>(n, answer).
        if n = 0 then pressed_ctrl_d else if n < 0 \<and> \<not> z then failp Undefined
        else if strncmp_eq answer ''Y\<newline>'' 2 \<or> strncmp_eq answer ''\<newline>'' 1 then ret True
        else if strncmp_eq answer ''n\<newline>'' 2 then ret False else question_loop k True prompt))"
      by (rule ext) simp
    have "sideways (bindp (readline_stdin 64) (\<lambda>(n, answer).
        if n = 0 then pressed_ctrl_d else if n < 0 \<and> \<not> z then failp Undefined
        else if strncmp_eq answer ''Y\<newline>'' 2 \<or> strncmp_eq answer ''\<newline>'' 1 then ret True
        else if strncmp_eq answer ''n\<newline>'' 2 then ret False else question_loop k True prompt))"
    proof (rule sidewaysI, erule bindp_InrE)
      fix c r d a e
      assume a: "readline_stdin 64 c = (Inr a, e)" and rest: "(case a of (n, answer) \<Rightarrow>
        if n = 0 then pressed_ctrl_d else if n < 0 \<and> \<not> z then failp Undefined
        else if strncmp_eq answer ''Y\<newline>'' 2 \<or> strncmp_eq answer ''\<newline>'' 1 then ret True
        else if strncmp_eq answer ''n\<newline>'' 2 then ret False else question_loop k True prompt) e = (Inr r, d)"
      obtain n l where n: "a = (n, l)" by (cases a)
      then have "n \<noteq> 0" using rest by (auto simp: pressed_ctrl_d_def leave_def printf_def my_def)
      moreover have "aside e d"
        using rest n sidewaysD [OF Suc, of True e] by (auto split: if_splits simp: pressed_ctrl_d_def leave_def printf_def my_def)
      ultimately show "aside c d" using readline_stdin_aside a n aside_trans by blast
    qed
    then show ?case unfolding eq by (rule sideways_thenp [OF sideways_world(1)])
  qed
  then show ?thesis unfolding question_def by (intro sideways_intros side)
qed

lemma fill_stdin_events: "fill_stdin b es = (x, fs) \<Longrightarrow> set fs \<subseteq> set es"
  by (induction b es rule: fill_stdin.induct) auto

lemma grab_chars_events: "grab_chars P acc b es = (r, b', es') \<Longrightarrow> set es' \<subseteq> set es"
proof (induction P acc b es arbitrary: r b' es' rule: grab_chars.induct)
  case (1 P acc b es)
  obtain x fs where x: "fill_stdin b es = (x, fs)" by (metis surj_pair)
  note sub = fill_stdin_events [OF x]
  show ?case
  proof (cases x)
    case Nil
    then show ?thesis using 1(2) sub x by (simp add: grab_chars.simps [of P acc b es])
  next
    case (Cons a y)
    then show ?thesis
      using 1(2) sub x 1(1) [OF x [symmetric] Cons, of r b' es'] by (auto simp: grab_chars.simps [of P acc b es] split: if_splits)
  qed
qed

lemma scanf_d_events: "scanf_d b es = (r, b', es') \<Longrightarrow> set es' \<subseteq> set es"
  unfolding scanf_d_def
  by (auto simp: Let_def split: prod.splits if_splits dest!: grab_chars_events fill_stdin_events)

lemma sideways_scanf [side]: "sideways scanf_stdin"
proof (rule sidewaysI)
  fix c r d assume run: "scanf_stdin c = (Inr r, d)"
  obtain x b es where sc: "scanf_d (stdin_buf c) (net c 0) = (x, b, es)" by (metis surj_pair)
  then have "d = c\<lparr>stdin_buf := b, net := (net c)(0 := es)\<rparr>" using run by (simp add: scanf_stdin_run)
  then show "aside c d" using scanf_d_events [OF sc] by (auto simp: aside_def tidy_def)
qed

lemma case_scanned:
  "sideways a \<Longrightarrow> sideways b \<Longrightarrow> sideways h \<Longrightarrow> (\<And>i. sideways (g i)) \<Longrightarrow>
     sideways (case r of ScanEof \<Rightarrow> a | ScanNone \<Rightarrow> b | ScanOverflow \<Rightarrow> h | ScanValue i \<Rightarrow> g i)"
  "growing a \<Longrightarrow> growing b \<Longrightarrow> growing h \<Longrightarrow> (\<And>i. growing (g i)) \<Longrightarrow>
     growing (case r of ScanEof \<Rightarrow> a | ScanNone \<Rightarrow> b | ScanOverflow \<Rightarrow> h | ScanValue i \<Rightarrow> g i)"
  for r :: scanned and a b h :: "(client, 'a) prog"
  by (cases r; simp)+

lemma choose_side: "sideways choose_index" "growing choose_index"
proof -
  have eq: "choose_loop (Suc k) = thenp (printf ''Choose a mj and discard it...!\<newline>'') (bindp scanf_stdin (\<lambda>r. bindp my (\<lambda>q.
     case r of ScanEof \<Rightarrow> pressed_ctrl_d | ScanOverflow \<Rightarrow> failp Undefined
     | ScanNone \<Rightarrow> thenp (printf ''Invalid index, please choose again.\<newline>'') (choose_loop k)
     | ScanValue index \<Rightarrow> if 0 \<le> index \<and> index < normal_capacity q + 1 then ret index
         else thenp (printf ''Invalid index, please choose again.\<newline>'') (choose_loop k))))" for k
    by (rule ext) simp
  have "sideways (choose_loop k)" for k
  proof (induction k)
    case (Suc k)
    show ?case unfolding eq by (intro sideways_intros side case_scanned Suc)
  qed (auto intro!: sidewaysI)
  then show "sideways choose_index" unfolding choose_index_def by (intro sideways_intros side)
  have g: "growing scanf_stdin"
    by (auto intro!: keepsI simp: scanf_stdin_run grown_def split: prod.splits)
  have "growing (choose_loop k)" for k
  proof (induction k)
    case (Suc k)
    show ?case unfolding eq by (intro growing_intros grows case_scanned Suc g)
  qed (auto intro!: keepsI)
  then show "growing choose_index" unfolding choose_index_def by (intro growing_intros grows)
qed

declare choose_side(1) [side] choose_side(2) [grows]

subsection \<open>The client's handlers only append\<close>

lemma growing_show [grows]: "growing (append_message m)" "growing (show_hand a b)" "growing receive_tile"
  unfolding append_message_def show_hand_def receive_tile_def by (intro growing_intros grows)+

lemma growing_client_draw [grows]: "growing client_draw"
proof -
  have "growing (client_draw_loop k)" for k
  proof (induction k)
    case (Suc k)
    have eq: "client_draw_loop (Suc k) = bindp my (\<lambda>q. bindp (liftp (at (decks q) (normal_capacity q))) (\<lambda>m.
        if type m = FLOWER then thenp (update_me (push_flower m)) (thenp receive_tile (client_draw_loop k)) else ret 0))"
      by (rule ext) simp
    show ?case unfolding eq by (intro growing_intros grows Suc)
  qed (auto intro!: keepsI)
  then show ?thesis unfolding client_draw_def by (intro growing_intros grows)
qed

lemma growing_handlers [grows]: "growing client_is_hu" "growing client_discard" "growing client_quiet_gang"
  unfolding client_is_hu_def client_discard_def client_quiet_gang_def
  by (intro growing_intros grows growing_modp; simp)+

lemma growing_quiet_loop [grows]: "growing (client_quiet_loop k)"
proof (induction k)
  case (Suc k)
  have eq: "client_quiet_loop (Suc k) = bindp client_quiet_gang (\<lambda>g. if g = 1 then thenp client_draw (bindp client_is_hu
      (\<lambda>h. if h = 1 then ret (Leave 1) else client_quiet_loop k)) else thenp client_discard (ret Continue))"
    by (rule ext) simp
  show ?case unfolding eq by (intro growing_intros grows Suc)
qed (auto intro!: keepsI)

lemma growing_your_turn [grows]: "growing on_your_turn"
  unfolding on_your_turn_def by (intro growing_intros grows)

subsection \<open>The server's operations only append\<close>

lemma growing_tell_others [grows]: "growing (tell_others p l)" "growing (show_deck p a b)" "growing take_tile"
  unfolding tell_others_def show_deck_def take_tile_def by (intro growing_intros grows growing_modp; simp)+

lemma growing_grab [grows]: "growing (drawn_tile p)" "growing (grab_tile p)"
  unfolding grab_tile_def drawn_tile_def by (intro growing_intros grows)+

lemma growing_draw [grows]: "growing (draw p)"
proof -
  have "growing (draw_loop k p)" for k
  proof (induction k)
    case (Suc k)
    have eq: "draw_loop (Suc k) p = bindp (drawn_tile p) (\<lambda>m. if type m = FLOWER then
        thenp (update_player p (push_flower m)) (thenp (grab_tile p) (draw_loop k p)) else ret 0)"
      by (rule ext) simp
    show ?case unfolding eq by (intro growing_intros grows Suc)
  qed (auto intro!: keepsI)
  then show ?thesis unfolding draw_def by (intro growing_intros grows)
qed

lemma growing_turn [grows]: "growing (is_hu p)" "growing (quiet_gang p)" "growing (broadcast_discard_mj p)"
  unfolding is_hu_def quiet_gang_def broadcast_discard_mj_def
  by (intro growing_intros grows growing_modp; simp)+

lemma growing_discard [grows]: "growing (discard p)"
  unfolding discard_def by (intro growing_intros grows growing_modp; simp)

lemma growing_gang_loop [grows]: "growing (quiet_gang_loop k p)"
proof (induction k)
  case (Suc k)
  have eq: "quiet_gang_loop (Suc k) p = bindp (quiet_gang p) (\<lambda>g. if g = 1 then
      thenp (draw p) (bindp (is_hu p) (\<lambda>h. if h = 1 then ret True else quiet_gang_loop k p)) else ret False)"
    by (rule ext) simp
  show ?case unfolding eq by (intro growing_intros grows Suc)
qed (auto intro!: keepsI)

end
