(* ===== verification/TurnStep.thy ===== *)
theory TurnStep
  imports Session
begin

text \<open>
  A whole turn of both ends in step: the part of each message of \<open>draw_n_discard\<close> with what the client
  does at it, and their composition. The server's run and the client's are the two programs of a
  session; each part is a rule of \<open>in_step\<close>.
\<close>

subsection \<open>A turn, part by part\<close>

text \<open>The client has the hand of the server's player, with \<open>n\<close> tiles, and the wall is sound.\<close>

definition playing :: "session \<Rightarrow> int \<Rightarrow> server \<Rightarrow> player \<Rightarrow> mj \<Rightarrow> bool" where
  "playing x n s q b \<longleftrightarrow> mirrors (players s (seat_no x)) q \<and> normal_capacity (players s (seat_no x)) = n \<and>
     (\<forall>m \<in> set (shuffled_mjs s). good m)"

lemma framed_playing: "framed (playing x n)"
  by (auto simp: framed_def playing_def dest: same_game)

lemma in_step_side_keeping:
  assumes "sideways k" and "\<And>b. in_step x (\<lambda>s c. link x F s c \<and> J s) m (g b) Q"
  shows "in_step x (\<lambda>s c. link x F s c \<and> J s) m (bindp k g) Q"
proof (rule in_step_right [where R = "\<lambda>_ s c. link x F s c \<and> J s"])
  show "partial (\<lambda>c. link x F s c \<and> J s) k (\<lambda>_ c. link x F s c \<and> J s)" for s
  proof (rule tripleI)
    fix c b d assume c: "link x F s c \<and> J s" and "k c = (Inr b, d)"
    then have a: "aside c d" using sidewaysD [OF assms(1)] by blast
    then show "link x F s d \<and> J s" using linked_aside [OF _ a] c by (simp add: aside_def)
  qed simp
qed (rule assms(2))

lemma in_step_side:
  "sideways k \<Longrightarrow> (\<And>b. in_step x (link x F) m (g b) Q) \<Longrightarrow> in_step x (link x F) m (bindp k g) Q"
  using in_step_side_keeping [where J = "\<lambda>_. True", of k x F m g Q] by simp

lemma in_step_side_then:
  "sideways k \<Longrightarrow> in_step x (link x F) m k' Q \<Longrightarrow> in_step x (link x F) m (thenp k k') Q"
  unfolding thenp_def by (rule in_step_side)

lemma is_line_iff: "is_line l \<longleftrightarrow> l \<noteq> [] \<and> last l = newline \<and> newline \<notin> set (butlast l) \<and> length l < MAXLINE"
proof (cases l rule: rev_cases)
  case (snoc b c)
  then show ?thesis by (auto simp: is_line_def)
qed (simp add: is_line_def)

lemma turn_lines:
  "is_line ''your turn\<newline>''" "is_line ''can hu\<newline>''" "is_line ''cannot hu\<newline>''" "is_line ''YES!\<newline>''" "is_line ''NO!\<newline>''"
  "is_line ''You can quietly-gang.\<newline>''" "is_line ''You cannot quietly-gang.\<newline>''"
  "NUL \<notin> set ''your turn\<newline>''" "NUL \<notin> set ''can hu\<newline>''" "NUL \<notin> set ''cannot hu\<newline>''" "NUL \<notin> set ''YES!\<newline>''"
  "NUL \<notin> set ''NO!\<newline>''" "NUL \<notin> set ''You can quietly-gang.\<newline>''" "NUL \<notin> set ''You cannot quietly-gang.\<newline>''"
  by (simp_all add: is_line_iff newline_def NUL_def MAXLINE_def del: newline_simps)

lemma turn_answers:
  "\<not> strncmp_eq ''NO!\<newline>'' ''YES!\<newline>'' 5" "\<not> strncmp_eq ''cannot hu\<newline>'' ''can hu\<newline>'' 7"
  "\<not> strncmp_eq ''You cannot quietly-gang.\<newline>'' ''You can quietly-gang.\<newline>'' 22"
  by code_simp+

text \<open>The server's own steps: clearing its line, naming the winner.\<close>

lemma linked_server:
  assumes "linked x s c" and "players t = players s" and "sent t = sent s"
    and "net t = net s" and "read_cnt t = read_cnt s" and "read_ptr t = read_ptr s"
  shows "linked x t c"
proof -
  have "pending fd t = pending fd s" for fd using assms(4-6) by (simp add: pending_def buffered_def)
  moreover have "buffer_ok t = buffer_ok s" using assms(5,6) by (simp add: buffer_ok_def)
  ultimately show ?thesis using assms(1-3) by (simp add: linked_def hearing_def)
qed

lemma linked_client:
  assumes "linked x s c" and "me d = me c" and "sent d = sent c"
    and "net d = net c" and "read_cnt d = read_cnt c" and "read_ptr d = read_ptr c"
  shows "linked x s d"
proof -
  have "pending fd d = pending fd c" for fd using assms(4-6) by (simp add: pending_def buffered_def)
  moreover have "buffer_ok d = buffer_ok c" using assms(5,6) by (simp add: buffer_ok_def)
  ultimately have "hears y d = hears y c" for y using assms(2) by (simp add: hears_def)
  then show ?thesis using assms by (simp add: linked_def hearing_def tidy_def)
qed

text \<open>The answer to a question: the client asks its player and says yes or no, and the server hears it.\<close>

lemma answer_keeping:
  assumes "framed F" and "partial J (hear (seat_no x)) (\<lambda>_. J)"
    and "in_step x (\<lambda>s c. link x F s c \<and> J s) m1 k1 Q" and "in_step x (\<lambda>s c. link x F s c \<and> J s) m2 k2 Q"
    and "growing m1" and "growing m2" and "growing k1" and "growing k2"
  shows "in_step x (\<lambda>s c. link x F s c \<and> J s) (thenp (hear (seat_no x)) (bindp said_yes (\<lambda>y. if y then m1 else m2)))
     (bindp (question z prompt) (\<lambda>y. if y then thenp (say ''YES!\<newline>'') k1 else thenp (say ''NO!\<newline>'') k2)) Q"
proof (rule in_step_side_keeping [OF sideways_question])
  fix y
  let ?l = "if y then ''YES!\<newline>'' else ''NO!\<newline>''"
  let ?P = "\<lambda>s c. link x F s c \<and> J s"
  have eq: "(if y then thenp (say ''YES!\<newline>'') k1 else thenp (say ''NO!\<newline>'') k2) = thenp (say ?l) (if y then k1 else k2)"
    by simp
  have said: "strncmp_eq ?l ''YES!\<newline>'' 5 = y" using turn_answers(1) by (cases y) simp_all
  show "in_step x ?P (thenp (hear (seat_no x)) (bindp said_yes (\<lambda>y. if y then m1 else m2)))
     (if y then thenp (say ''YES!\<newline>'') k1 else thenp (say ''NO!\<newline>'') k2) Q"
    unfolding eq
  proof (rule in_step_then [OF in_step_keep_left [OF hear_say [OF assms(1), of ?l] assms(2)]])
    show "is_line ?l" "NUL \<notin> set ?l" using turn_lines by simp_all
    show "growing (bindp said_yes (\<lambda>y. if y then m1 else m2))" "growing (if y then k1 else k2)"
      by (intro growing_intros grows assms(5-8))+
    let ?R = "\<lambda>s c. (link x F s c \<and> recvline s = ?l) \<and> J s"
    show "in_step x ?R (bindp said_yes (\<lambda>y. if y then m1 else m2)) (if y then k1 else k2) Q"
      unfolding said_yes_def
    proof (rule in_step_left_get)
      fix a
      show "in_step x (\<lambda>s c. ?R s c \<and> a = strncmp_eq (recvline s) ''YES!\<newline>'' 5) (if a then m1 else m2) (if y then k1 else k2) Q"
      proof (rule in_step_pure [where b = "a = y"])
        assume "a = y"
        then show "in_step x (\<lambda>s c. ?R s c \<and> a = strncmp_eq (recvline s) ''YES!\<newline>'' 5)
            (if a then m1 else m2) (if y then k1 else k2) Q"
          by (cases y) (auto intro: in_step_pre [OF assms(3)] in_step_pre [OF assms(4)])
      qed (use said in auto)
    qed
  qed
qed

lemma answer_in_step:
  assumes "framed F"
    and "in_step x (link x F) m1 k1 Q" and "in_step x (link x F) m2 k2 Q"
    and "growing m1" and "growing m2" and "growing k1" and "growing k2"
  shows "in_step x (link x F) (thenp (hear (seat_no x)) (bindp said_yes (\<lambda>y. if y then m1 else m2)))
     (bindp (question z prompt) (\<lambda>y. if y then thenp (say ''YES!\<newline>'') k1 else thenp (say ''NO!\<newline>'') k2)) Q"
  using answer_keeping [where J = "\<lambda>_. True", OF assms(1) _ _ _ assms(4-7)] assms(2,3) by (simp add: triple_def split: prod.splits sum.splits)

text \<open>Two different lines that the client tells apart by their beginning.\<close>

lemma offer_keeping:
  assumes "framed F" and "\<And>l. partial J (tell (seat_no x) l) (\<lambda>_. J)"
    and "is_line yes" "NUL \<notin> set yes" "is_line no" "NUL \<notin> set no" and "\<not> strncmp_eq no yes k"
    and "in_step x (\<lambda>s c. link x F s c \<and> J s) m1 k1 Q" and "in_step x (\<lambda>s c. link x F s c \<and> J s) m2 k2 Q"
    and "growing m1" "growing m2" "growing k1" "growing k2"
  shows "in_step x (\<lambda>s c. link x F s c \<and> J s) (if b then thenp (tell (seat_no x) yes) m1 else thenp (tell (seat_no x) no) m2)
     (thenp listen_server (bindp (recv_is yes k) (\<lambda>can. if can then k1 else k2))) Q"
proof -
  let ?l = "if b then yes else no"
  let ?R = "\<lambda>s c. (link x F s c \<and> recvline c = ?l) \<and> J s"
  have eq: "(if b then thenp (tell (seat_no x) yes) m1 else thenp (tell (seat_no x) no) m2) =
      thenp (tell (seat_no x) ?l) (if b then m1 else m2)" by simp
  have is_yes: "strncmp_eq ?l yes k = b" using assms(7) by (cases b) simp_all
  show ?thesis
    unfolding eq
  proof (rule in_step_then [OF in_step_keep_left [OF tell_listen [OF assms(1), of ?l] assms(2)]])
    show "is_line ?l" "NUL \<notin> set ?l" using assms(3-6) by simp_all
    show "growing (if b then m1 else m2)" "growing (bindp (recv_is yes k) (\<lambda>can. if can then k1 else k2))"
      by (intro growing_intros grows assms(10-13))+
    show "in_step x ?R (if b then m1 else m2) (bindp (recv_is yes k) (\<lambda>can. if can then k1 else k2)) Q"
      unfolding recv_is_def
    proof (rule in_step_right_get)
      fix a
      show "in_step x (\<lambda>s c. ?R s c \<and> a = strncmp_eq (recvline c) yes k) (if b then m1 else m2) (if a then k1 else k2) Q"
      proof (rule in_step_pure [where b = "a = b"])
        assume "a = b"
        then show "in_step x (\<lambda>s c. ?R s c \<and> a = strncmp_eq (recvline c) yes k) (if b then m1 else m2) (if a then k1 else k2) Q"
          by (cases b) (auto intro: in_step_pre [OF assms(8)] in_step_pre [OF assms(9)])
      qed (use is_yes in auto)
    qed
  qed
qed

lemma offer_in_step:
  assumes "framed F" and "is_line yes" "NUL \<notin> set yes" "is_line no" "NUL \<notin> set no" and "\<not> strncmp_eq no yes k"
    and "in_step x (link x F) m1 k1 Q" and "in_step x (link x F) m2 k2 Q"
    and "growing m1" "growing m2" "growing k1" "growing k2"
  shows "in_step x (link x F) (if b then thenp (tell (seat_no x) yes) m1 else thenp (tell (seat_no x) no) m2)
     (thenp listen_server (bindp (recv_is yes k) (\<lambda>can. if can then k1 else k2))) Q"
  using offer_keeping [where J = "\<lambda>_. True", OF assms(1) _ assms(2-6) _ _ assms(9-12)] assms(7,8)
  by (simp add: triple_def split: prod.splits sum.splits)

lemma in_step_clear_left: "in_step x (link x F) m k Q \<Longrightarrow> framed F \<Longrightarrow> in_step x (link x F) (thenp clear_recvline m) k Q"
  unfolding thenp_def clear_recvline_def set_recvline_def
  by (rule in_step_left [where R = "\<lambda>_. link x F"])
    (auto simp: triple_def framed_def intro: linked_server)

lemma in_step_clear_right: "in_step x (link x F) m k Q \<Longrightarrow> in_step x (link x F) m (thenp clear_recvline k) Q"
  by (rule in_step_side_then [OF sideways_world(2)])

text \<open>The offer to win.\<close>

lemma is_hu_in_step:
  "in_step x (link x (playing x n)) (is_hu (seat_no x)) client_is_hu
     (\<lambda>h g s c. link x (playing x n) s c \<and> (h = 1 \<and> g = 1 \<and> winner s = seat_no x \<or> h \<noteq> 1 \<and> g \<noteq> 1))"
  (is "in_step _ ?P _ _ ?Q")
proof -
  have won: "in_step x ?P (thenp (modp (\<lambda>s. s\<lparr>winner := seat_no x\<rparr>)) (ret 1)) (ret 1) ?Q"
    unfolding thenp_def
    by (rule in_step_left [where R = "\<lambda>_ s c. ?P s c \<and> winner s = seat_no x"])
      (auto simp: triple_def playing_def intro: linked_server in_step_ret)
  have no: "in_step x ?P (ret 0) (ret 0) ?Q" by (rule in_step_ret) simp
  have g: "growing (thenp clear_recvline (ret (1 :: int)) :: (client, int) prog)"
    "growing (thenp clear_recvline (ret (0 :: int)) :: (client, int) prog)"
    "growing (thenp clear_recvline (ret (0 :: int)) :: (server, int) prog)"
    "growing (thenp clear_recvline (thenp (modp (\<lambda>s. s\<lparr>winner := seat_no x\<rparr>)) (ret (1 :: int))) :: (server, int) prog)"
    by (intro growing_intros grows growing_modp; simp)+
  have main: "in_step x ?P
     (if h = 1 then thenp (tell (seat_no x) ''can hu\<newline>'') (thenp (hear (seat_no x)) (bindp said_yes (\<lambda>y. if y then
          thenp clear_recvline (thenp (modp (\<lambda>s. s\<lparr>winner := seat_no x\<rparr>)) (ret 1)) else thenp clear_recvline (ret 0))))
      else thenp (tell (seat_no x) ''cannot hu\<newline>'') (ret 0)) client_is_hu ?Q" for h :: int
    unfolding client_is_hu_def
    by (intro offer_in_step answer_in_step framed_playing turn_lines turn_answers in_step_clear_left in_step_clear_right
        won no growing_intros grows g sideways_question growing_modp)
      simp
  show ?thesis
    unfolding is_hu_def player_of_def
    by (intro in_step_left_get in_step_left_lift in_step_pre [OF main]) simp
qed

text \<open>What the messages to the other players leave alone.\<close>

text \<open>The seats are at the table with connections of their own.\<close>

definition own_lines :: "session \<Rightarrow> bool" where
  "own_lines x \<longleftrightarrow> (\<forall>k \<in> {1, 2, 3}. seat_fds x ((seat_no x + k) mod 4) \<noteq> seat_fds x (seat_no x))"

definition not_said :: "int \<Rightarrow> server \<Rightarrow> server \<Rightarrow> bool" where
  "not_said fd s t \<longleftrightarrow> io.more t = io.more s \<and> (\<exists>log. sent t = sent s @ log \<and> said_to fd log = [])"

lemma not_said_tell:
  assumes "player_fd (players s p) \<noteq> fd"
  shows "partial (not_said fd s) (tell p l) (\<lambda>_. not_said fd s)"
proof (rule tripleI)
  fix u v t assume u: "not_said fd s u" and "tell p l u = (Inr v, t)"
  then have w: "write_message_wait_ack (player_fd (players s p)) l u = (Inr v, t)"
    using same_game [of u s] by (simp add: tell_def player_of_def not_said_def)
  obtain log where "sent u = sent s @ log" "said_to fd log = []" using u by (auto simp: not_said_def)
  then have "sent t = sent s @ log @ [(player_fd (players s p), vsnprintf_line l)]"
    "said_to fd (log @ [(player_fd (players s p), vsnprintf_line l)]) = []"
    using server_chan.send_Inr [OF w] assms by simp_all
  then show "not_said fd s t"
    using u server_chan.send_more [OF w] unfolding not_said_def by metis
qed simp

text \<open>
  All players answer the server a line at a time, so what one of them sends is not mixed with what
  another does (the read buffer is one for all).
\<close>

definition orderly :: "session \<Rightarrow> server \<Rightarrow> bool" where
  "orderly x s \<longleftrightarrow> read_cnt s \<le> 0 \<and> (\<forall>i. player_fd (players s i) = seat_fds x i) \<and>
     (\<forall>i. \<forall>e \<in> set (net s (seat_fds x i)). line_event MAXLINE e)"

lemma orderly_seat: "orderly x s \<Longrightarrow> read_cnt s \<le> 0 \<and> (\<forall>e \<in> set (net s (player_fd (players s p))). line_event MAXLINE e)"
  by (simp add: orderly_def)

lemma max_line: "1 < MAXLINE"
  by (simp add: MAXLINE_def)

lemma tell_orderly:
  assumes "orderly x s" and "tell p l s = (Inr v, t)"
  shows "orderly x t" and "\<And>i. i \<noteq> player_fd (players s p) \<Longrightarrow> net t i = net s i"
proof -
  let ?fd = "player_fd (players s p)"
  let ?s = "s\<lparr>sent := sent s @ [(?fd, vsnprintf_line l)], console := console s @ [''Sending: '' @ vsnprintf_line l]\<rparr>"
  obtain n k u where u: "readline ?fd MAXLINE ?s = ((n, k), u)" by (metis surj_pair)
  then have "n \<noteq> 0" "t = u\<lparr>recvline := []\<rparr>"
    using assms(2) by (auto simp: tell_def player_of_def write_message_wait_ack_def readline_recv_def write_fd_def printf_def
        clear_recvline_def set_recvline_def split: if_splits)
  moreover obtain es where "set es \<subseteq> set (net ?s ?fd)" "u = ?s\<lparr>net := (net ?s)(?fd := es), read_cnt := 0, read_ptr := []\<rparr>"
    by (rule line_read [OF _ _ max_line order_refl u]) (use orderly_seat [OF assms(1), of p] calculation(1) in auto)
  ultimately show "orderly x t" "\<And>i. i \<noteq> ?fd \<Longrightarrow> net t i = net s i" using assms(1) by (auto simp: orderly_def)
qed

lemma hear_orderly: "partial (orderly x) (hear p) (\<lambda>_. orderly x)"
proof (rule tripleI)
  fix s v t assume s: "orderly x s" and run: "hear p s = (Inr v, t)"
  let ?fd = "player_fd (players s p)"
  obtain n k u where u: "readline ?fd MAXLINE s = ((n, k), u)" by (metis surj_pair)
  then have "n \<noteq> 0" "t = u\<lparr>recvline := k, sent := sent u @ [(?fd, ack_line)]\<rparr>"
    using run by (auto simp: hear_def player_of_def read_and_ack_def readline_recv_def write_fd_def printf_def split: if_splits)
  moreover obtain es where "set es \<subseteq> set (net s ?fd)" "u = s\<lparr>net := (net s)(?fd := es), read_cnt := 0, read_ptr := []\<rparr>"
    by (rule line_read [OF _ _ max_line order_refl u]) (use orderly_seat [OF s, of p] calculation(1) in auto)
  ultimately show "orderly x t" using s by (auto simp: orderly_def)
qed simp

text \<open>What the server has done that the player of the session does not notice.\<close>

definition unnoticed :: "session \<Rightarrow> server \<Rightarrow> server \<Rightarrow> bool" where
  "unnoticed x s t \<longleftrightarrow> orderly x t \<and> not_said (seat_fds x (seat_no x)) s t \<and>
     net t (seat_fds x (seat_no x)) = net s (seat_fds x (seat_no x))"

lemma unnoticed_tell:
  assumes "seat_fds x p \<noteq> seat_fds x (seat_no x)"
  shows "partial (unnoticed x s) (tell p l) (\<lambda>_. unnoticed x s)"
proof (rule tripleI)
  fix u v t assume u: "unnoticed x s u" and run: "tell p l u = (Inr v, t)"
  have fds: "player_fd (players u p) = seat_fds x p" "player_fd (players s p) = seat_fds x p"
    using u same_game [of u s] by (auto simp: unnoticed_def orderly_def not_said_def)
  have "not_said (seat_fds x (seat_no x)) s t"
    using triple_Inr [OF not_said_tell _ run] u assms fds(2) by (auto simp: unnoticed_def)
  then show "unnoticed x s t" using tell_orderly [OF _ run] u assms fds(1) by (auto simp: unnoticed_def)
qed simp

lemma unnoticed_others: "own_lines x \<Longrightarrow> partial (unnoticed x s) (tell_others (seat_no x) l) (\<lambda>_. unnoticed x s)"
  unfolding tell_others_def own_lines_def by (intro triple_thenp [OF unnoticed_tell] unnoticed_tell) simp_all

lemma linked_unnoticed:
  assumes "linked x s c" and "orderly x s" and "unnoticed x s t" and "\<exists>log. server_log x = sent t @ log"
  shows "linked x t c"
proof -
  obtain log where log: "sent t = sent s @ log" "said_to (seat_fds x (seat_no x)) log = []" and more: "io.more t = io.more s"
    using assms(3) by (auto simp: unnoticed_def not_said_def)
  obtain rest where "server_log x = sent t @ rest" using assms(4) by blast
  then have "hearing x t c" using assms(1) log more_fields(1) [OF more] by (auto simp: linked_def hearing_def)
  moreover have "read_cnt s \<le> 0" "read_cnt t \<le> 0" using assms(2,3) by (auto simp: unnoticed_def orderly_def)
  then have "buffer_ok t" "pending (seat_fds x (seat_no x)) t = pending (seat_fds x (seat_no x)) s"
    using assms(3) by (auto simp: buffer_ok_def pending_def buffered_def unnoticed_def)
  ultimately show ?thesis using assms(1) by (simp add: linked_def)
qed

text \<open>What a change of the tiles leaves alone.\<close>

definition same_seat :: "(player \<Rightarrow> player option) \<Rightarrow> bool" where
  "same_seat f \<longleftrightarrow> (\<forall>q q'. f q = Some q' \<longrightarrow> player_fd q' = player_fd q)"

lemma same_seat_push: "same_seat (push_door_times k d)"
proof -
  have "push_door_times k d q = Some q' \<Longrightarrow> player_fd q' = player_fd q" for q q'
    by (induction k arbitrary: q) (auto simp: push_door_def bind_eq_Some_conv)
  then show ?thesis by (simp add: same_seat_def)
qed

lemma same_seat_clear: "same_seat (clear_loop d is n)"
proof -
  have "player_fd q' = player_fd q" if "clear_loop d is n q = Some q'" for q q'
    using that
  proof (induction "is" arbitrary: n q)
    case (Cons i "is")
    then obtain m where m: "at (decks q) i = Some m" by (cases "at (decks q) i") (simp_all del: at_Some at_None)
    show ?case
    proof (cases "client_mj_compare d m = 0")
      case True
      then obtain q1 where q1: "clear_deck i q = Some q1" "(if n - 1 = 0 then Some q1 else clear_loop d is (n - 1) q1) = Some q'"
        using Cons.prems m by (cases "clear_deck i q") (simp_all del: at_Some at_None)
      have "player_fd q1 = player_fd q" using q1(1) by (auto simp: clear_deck_def put_deck_def bind_eq_Some_conv)
      moreover have "player_fd q' = player_fd q1" using q1(2) Cons.IH [of "n - 1" q1] by (simp split: if_splits)
      ultimately show ?thesis by simp
    next
      case False
      then have "clear_loop d is n q = Some q'" using Cons.prems m by (simp del: at_Some at_None)
      then show ?thesis by (rule Cons.IH)
    qed
  qed simp
  then show ?thesis by (simp add: same_seat_def)
qed

lemma same_seat_compact: "same_seat (compact_loop b is n)"
proof -
  have "player_fd q' = player_fd q" if "compact_loop b is n q = Some q'" for q q'
    using that
  proof (induction "is" arbitrary: n q)
    case (Cons i "is")
    then obtain m where m: "at (decks q) i = Some m" by (cases "at (decks q) i") (simp_all del: at_Some at_None)
    show ?case
    proof (cases "type m = 0 \<and> number m = 0")
      case True
      then obtain q1 where q1: "swap_deck i (normal_capacity q - b + n) q = Some q1"
          "(if n - 1 = 0 then Some q1 else compact_loop b is (n - 1) q1) = Some q'"
        using Cons.prems m by (cases "swap_deck i (normal_capacity q - b + n) q") (simp_all del: at_Some at_None)
      have "player_fd q1 = player_fd q" using q1(1) by (auto simp: swap_deck_def bind_eq_Some_conv)
      moreover have "player_fd q' = player_fd q1" using q1(2) Cons.IH [of "n - 1" q1] by (simp split: if_splits)
      ultimately show ?thesis by simp
    next
      case False
      then have "compact_loop b is n q = Some q'" using Cons.prems m by (auto simp del: at_Some at_None split: if_splits)
      then show ?thesis by (rule Cons.IH)
    qed
  qed simp
  then show ?thesis by (simp add: same_seat_def)
qed

lemma same_seat_meld: "same_seat (client_gang_tiles d)" "same_seat (client_pong_tiles d)"
  using same_seat_push same_seat_clear same_seat_compact
  by (auto simp: same_seat_def client_gang_is client_pong_is sort_deck_def bind_eq_Some_conv)

lemma orderly_update: "orderly x s \<Longrightarrow> player_fd q = player_fd (players s p) \<Longrightarrow> orderly x (s\<lparr>players := (players s)(p := q)\<rparr>)"
  by (auto simp: orderly_def)

text \<open>The server's parts of a turn keep the order of the answers.\<close>

lemma orderly_tell: "partial (orderly x) (tell p l) (\<lambda>_. orderly x)"
  by (rule tripleI) (auto intro: tell_orderly(1))

lemma orderly_world:
  assumes "orderly x s" and "net t = net s" "read_cnt t = read_cnt s" "players t = players s"
  shows "orderly x t"
  using assms by (simp add: orderly_def)

lemma orderly_change:
  assumes "\<And>q q'. f q = Some q' \<Longrightarrow> player_fd q' = player_fd q"
  shows "partial (orderly x) (update_player p f) (\<lambda>_. orderly x)"
  by (rule tripleI) (auto simp: update_player_run dest: assms intro: orderly_update split: option.splits)

lemma orderly_is_hu: "partial (orderly x) (is_hu p) (\<lambda>_. orderly x)"
proof -
  have quiet: "partial (orderly x) clear_recvline (\<lambda>_. orderly x)" "partial (orderly x) said_yes (\<lambda>_. orderly x)"
    "partial (orderly x) (modp (\<lambda>s. s\<lparr>winner := w\<rparr>)) (\<lambda>_. orderly x)" "partial (orderly x) (player_of p) (\<lambda>_. orderly x)"
    "partial (orderly x) (liftp z) (\<lambda>_. orderly x)" for w and z :: "int option"
    by (rule tripleI; auto simp: clear_recvline_def set_recvline_def said_yes_def player_of_def intro: orderly_world)+
  show ?thesis
    unfolding is_hu_def
    by (intro triple_bindp [OF quiet(4)] triple_bindp [OF quiet(5)] triple_if triple_thenp [OF orderly_tell] triple_thenp [OF hear_orderly]
        triple_bindp [OF quiet(2)] triple_thenp [OF quiet(1)] triple_thenp [OF quiet(3)] triple_ret)
qed

lemma orderly_draw: "partial (orderly x) (draw p) (\<lambda>_. orderly x)"
proof -
  have quiet: "partial (orderly x) (drawn_tile p) (\<lambda>_. orderly x)" "partial (orderly x) take_tile (\<lambda>_. orderly x)"
    "partial (orderly x) (getp h) (\<lambda>_. orderly x)" for h :: "server \<Rightarrow> nat"
    by (rule tripleI; auto simp: drawn_tile_def player_of_def take_tile_run simp del: at_Some intro: orderly_world split: option.splits)+
  have one: "partial (orderly x) (grab_tile p) (\<lambda>_. orderly x)"
    unfolding grab_tile_def
    by (intro triple_bindp [OF quiet(2)] triple_thenp [OF orderly_change] triple_bindp [OF quiet(1)] orderly_tell)
      (auto simp: put_deck_def bind_eq_Some_conv)
  have "partial (orderly x) (draw_loop j p) (\<lambda>_. orderly x)" for j
  proof (induction j)
    case 0
    then show ?case by (simp add: triple_def)
  next
    case (Suc j)
    have eq: "draw_loop (Suc j) p = bindp (drawn_tile p) (\<lambda>m. if type m = FLOWER then
        thenp (update_player p (push_flower m)) (thenp (grab_tile p) (draw_loop j p)) else ret 0)"
      by (rule ext) simp
    show ?case
      unfolding eq
      by (intro triple_bindp [OF quiet(1)] triple_if triple_thenp [OF orderly_change] triple_thenp [OF one] Suc)
        (auto simp: push_flower_def bind_eq_Some_conv triple_def)
  qed
  then show ?thesis unfolding draw_def by (intro triple_thenp [OF one] triple_bindp [OF quiet(3)])
qed

text \<open>The quiet gang. When it is accepted, both lay down the tiles, and only the client expects another one.\<close>

lemma gang_tiles_fd: "gang_tiles m q = Some q' \<Longrightarrow> player_fd q' = player_fd q"
proof -
  have claim: "player_fd q' = player_fd q" if "claim_loop m is n q = Some q'" for "is" n q q'
    using that
  proof (induction "is" arbitrary: n q)
    case (Cons i "is")
    then obtain d where d: "at (decks q) i = Some d" by (cases "at (decks q) i") (simp_all del: at_Some at_None)
    show ?case
    proof (cases "mj_compare m d = 0")
      case True
      then obtain q1 q2 where q: "push_door m q = Some q1" "clear_deck i q1 = Some q2"
          "(if n - 1 = 0 then Some q2 else claim_loop m is (n - 1) q2) = Some q'"
        using Cons.prems d by (auto simp: bind_eq_Some_conv simp del: at_Some mj_compare_0)
      have "player_fd q2 = player_fd q"
        using q(1,2) by (auto simp: push_door_def clear_deck_def put_deck_def bind_eq_Some_conv)
      then show ?thesis using q(3) Cons.IH by (auto split: if_splits)
    next
      case False
      then have "claim_loop m is n q = Some q'" using Cons.prems d by (simp del: at_Some mj_compare_0)
      then show ?thesis by (rule Cons.IH)
    qed
  qed simp
  show "gang_tiles m q = Some q' \<Longrightarrow> player_fd q' = player_fd q"
    using same_seat_compact claim
    by (auto simp: gang_tiles_def same_seat_def push_door_def sort_deck_def Let_def bind_eq_Some_conv)
qed

lemma in_step_side_then_keeping:
  "sideways k \<Longrightarrow> in_step x (\<lambda>s c. link x F s c \<and> J s) m k' Q \<Longrightarrow> in_step x (\<lambda>s c. link x F s c \<and> J s) m (thenp k k') Q"
  unfolding thenp_def by (rule in_step_side_keeping)

lemma quiet_gang_made:
  assumes "own_lines x"
  shows "in_step x (\<lambda>s c. linked x s c \<and> orderly x s)
     (thenp (update_player (seat_no x) (gang_tiles m)) (thenp (tell_others (seat_no x) l) (thenp clear_discarded (thenp clear_recvline (ret (0 :: int))))))
     (thenp (update_me (\<lambda>q. do { m \<leftarrow> at (decks q) (normal_capacity q); client_gang_tiles m q })) (thenp clear_board (ret (1 :: int))))
     (\<lambda>g h s c. g = 0 \<and> h = 1 \<and> linked x s c)"
  unfolding thenp_def
proof (rule in_step_left [where R = "\<lambda>_ s c. linked x s c \<and> orderly x s"])
  show "partial (\<lambda>s. linked x s c \<and> orderly x s) (update_player (seat_no x) (gang_tiles m)) (\<lambda>_ s. linked x s c \<and> orderly x s)" for c
    by (rule tripleI) (auto simp: update_player_run linked_def hearing_def hears_def pending_def buffered_def buffer_ok_def
        dest: gang_tiles_fd intro: orderly_update split: option.splits)
  let ?k = "bindp (update_me (\<lambda>q. do { m \<leftarrow> at (decks q) (normal_capacity q); client_gang_tiles m q }))
    (\<lambda>_. bindp clear_board (\<lambda>_. ret (1 :: int)))"
  let ?Q = "\<lambda>(g :: int) (h :: int) s c. g = 0 \<and> h = 1 \<and> linked x s c"
  have client: "in_step x (linked x) (ret 0) ?k ?Q"
  proof (rule in_step_right [where R = "\<lambda>_. linked x"])
    show "partial (linked x s) (update_me (\<lambda>q. do { m \<leftarrow> at (decks q) (normal_capacity q); client_gang_tiles m q })) (\<lambda>_. linked x s)" for s
      using same_seat_meld(1) unfolding same_seat_def
      by (intro tripleI) (auto simp: update_me_run linked_def hearing_def hears_def pending_def buffered_def buffer_ok_def bind_eq_Some_conv
          split: option.splits)
    show "in_step x (linked x) (ret 0) (bindp clear_board (\<lambda>_. ret 1)) ?Q"
      by (rule in_step_right [where R = "\<lambda>_. linked x"])
        (auto simp: triple_def clear_board_def intro: linked_client in_step_ret)
  qed
  have server: "in_step x (linked x) (bindp clear_discarded (\<lambda>_. bindp clear_recvline (\<lambda>_. ret 0))) ?k ?Q"
    unfolding clear_discarded_def clear_recvline_def set_recvline_def
  proof (rule in_step_left [where R = "\<lambda>_. linked x"])
    show "partial (\<lambda>s. linked x s c) (modp (\<lambda>s. s\<lparr>discarded_mj := clear_mj (discarded_mj s)\<rparr>)) (\<lambda>_ s. linked x s c)" for c
      by (rule triple_modp, erule linked_server) simp_all
    show "in_step x (linked x) (bindp (modp (recvline_update (\<lambda>_. []))) (\<lambda>_. ret 0)) ?k ?Q"
    proof (rule in_step_left [where R = "\<lambda>_. linked x"])
      show "partial (\<lambda>s. linked x s c) (modp (recvline_update (\<lambda>_. []))) (\<lambda>_ s. linked x s c)" for c
        by (rule triple_modp, erule linked_server) simp_all
    qed (rule client)
  qed
  show "in_step x (\<lambda>s c. linked x s c \<and> orderly x s)
      (bindp (tell_others (seat_no x) l) (\<lambda>_. bindp clear_discarded (\<lambda>_. bindp clear_recvline (\<lambda>_. ret 0)))) ?k ?Q"
  proof (rule in_step_left_out [OF _ server], rule tripleI)
    fix c s v t
    assume s: "linked x s c \<and> orderly x s" and run: "tell_others (seat_no x) l s = (Inr v, t)"
    have "unnoticed x s s" using s by (simp add: unnoticed_def not_said_def)
    from triple_Inr [OF unnoticed_others [OF assms] this run] have "unnoticed x s t" .
    then show "(\<exists>log. server_log x = sent t @ log) \<longrightarrow> linked x t c" using linked_unnoticed s by blast
  qed (simp, intro growing_intros grows)
qed

lemma quiet_gang_in_step:
  assumes "own_lines x"
  shows "in_step x (\<lambda>s c. link x (playing x n) s c \<and> orderly x s) (quiet_gang (seat_no x)) client_quiet_gang
     (\<lambda>g h s c. g = 0 \<and> (link x (playing x n) s c \<and> h = 0 \<or> linked x s c \<and> h = 1))"
  (is "in_step _ ?P _ _ ?Q")
proof -
  let ?gang = "\<lambda>m. thenp (update_player (seat_no x) (gang_tiles m)) (thenp (tell_others (seat_no x)
    (''(Announce) player '' @ show_int (seat_no x) @ '' quietly-ganged something...\<newline>'')) (thenp clear_discarded (thenp clear_recvline (ret 0))))"
  let ?meld = "thenp (update_me (\<lambda>q. do { m \<leftarrow> at (decks q) (normal_capacity q); client_gang_tiles m q })) (thenp clear_board (ret (1 :: int)))"
  have gang: "in_step x ?P (?gang m) ?meld ?Q" for m
    by (rule in_step_pre [OF in_step_post [OF quiet_gang_made [OF assms]]]) auto
  have no: "in_step x ?P (ret 0) (ret 0) ?Q" by (rule in_step_ret) simp
  have g: "growing (?gang m)" "growing ?meld" for m by (intro growing_intros grows)+
  have ans: "in_step x ?P (thenp (hear (seat_no x)) (bindp said_yes (\<lambda>y. if y then ?gang m else ret 0)))
      (bindp (question z prompt) (\<lambda>y. if y then thenp (say ''YES!\<newline>'') ?meld else thenp (say ''NO!\<newline>'') (ret 0))) ?Q" for m z prompt
    by (rule answer_keeping [OF framed_playing hear_orderly gang no]) (intro growing_intros grows g)+
  have main: "in_step x ?P
     (if b then thenp (tell (seat_no x) ''You can quietly-gang.\<newline>'') (thenp (hear (seat_no x)) (bindp said_yes (\<lambda>y. if y then
          ?gang m else ret 0)))
      else thenp (tell (seat_no x) ''You cannot quietly-gang.\<newline>'') (ret 0)) client_quiet_gang ?Q" for b and m
    unfolding client_quiet_gang_def
    by (rule offer_keeping [OF framed_playing orderly_tell turn_lines(6) turn_lines(13) turn_lines(7) turn_lines(14) turn_answers(3)
          in_step_side_then_keeping [OF sideways_world(2) ans] in_step_side_then_keeping [OF sideways_world(2) no]])
      (intro growing_intros grows g)+
  show ?thesis
    unfolding quiet_gang_def player_of_def
  proof (intro in_step_left_get in_step_left_lift)
    fix q cnt
    show "in_step x (\<lambda>s c. ?P s c \<and> q = players s (seat_no x)) (bindp (drawn_tile (seat_no x)) (\<lambda>m.
        bindp (liftp (count_get cnt (mj_index m))) (\<lambda>c. if 3 \<le> c then thenp (tell (seat_no x) ''You can quietly-gang.\<newline>'')
          (thenp (hear (seat_no x)) (bindp said_yes (\<lambda>y. if y then ?gang m else ret 0)))
        else thenp (tell (seat_no x) ''You cannot quietly-gang.\<newline>'') (ret 0)))) client_quiet_gang ?Q"
    proof (rule in_step_left [where R = "\<lambda>_. ?P"])
      show "partial (\<lambda>s. ?P s c \<and> q = players s (seat_no x)) (drawn_tile (seat_no x)) (\<lambda>_ s. ?P s c)" for c
        by (rule tripleI) (auto simp: drawn_tile_def player_of_def simp del: at_Some)
    qed (intro in_step_left_lift main)
  qed
qed

text \<open>
  After it the server waits for an index and the client for a tile: the line that the server then hears is the
  client's acknowledgement, which is no index.
\<close>

lemma ack_no_index: "read_index ack_line = None"
  by code_simp

lemma client_draw_acks:
  assumes "client_draw c = (Inr v, d)" and "\<exists>log. client_log x = sent d @ log"
  shows "\<exists>log. client_log x = sent c @ (player_fd (me c), ack_line) # log"
proof -
  obtain g b where g: "receive_tile c = (Inr b, g)" "bindp socket_unread (\<lambda>k. client_draw_loop (Suc k)) g = (Inr v, d)"
    using assms(1) unfolding client_draw_def thenp_def by (rule bindp_InrE)
  have draws: "growing (client_draw_loop j)" for j
  proof (induction j)
    case (Suc j)
    have eq: "client_draw_loop (Suc j) = bindp my (\<lambda>q. bindp (liftp (at (decks q) (normal_capacity q))) (\<lambda>m.
        if type m = FLOWER then thenp (update_me (push_flower m)) (thenp receive_tile (client_draw_loop j)) else ret 0))"
      by (rule ext) simp
    show ?case unfolding eq by (intro growing_intros grows Suc)
  qed (auto intro!: keepsI)
  have "growing (bindp socket_unread (\<lambda>k. client_draw_loop (Suc k)))" by (intro growing_intros grows draws)
  from growingD [OF this g(2) assms(2)] have out: "\<exists>log. client_log x = sent g @ log" .
  obtain e a where e: "listen_server c = (Inr a, e)" "bindp (getp recvline) (\<lambda>l. bindp (update_me (\<lambda>q. do {
       m \<leftarrow> at (decks q) (normal_capacity q);
       m' \<leftarrow> scan_tile l m;
       put_deck (normal_capacity q) m' q })) (\<lambda>_. clear_recvline)) e = (Inr b, g)" (is "?T e = _")
    using g(1) unfolding receive_tile_def thenp_def by (rule bindp_InrE)
  have "growing ?T" by (intro growing_intros grows)
  from growingD [OF this e(2) out] have "\<exists>log. client_log x = sent e @ log" .
  moreover have "client_read_and_ack (player_fd (me c)) c = (Inr a, e)" using e(1) by (simp add: listen_server_def my_def)
  ultimately show ?thesis using client_chan.recv_Inr [of "player_fd (me c)" c a e] by auto
qed

lemma gang_never_on:
  assumes "growing k"
  shows "in_step x (linked x) (thenp (discard (seat_no x)) m) (thenp client_draw k) Q"
proof (rule in_stepI)
  fix s c v w t d
  assume L: "linked x s c" and m: "thenp (discard (seat_no x)) m s = (Inr v, t)" and k: "thenp client_draw k c = (Inr w, d)"
    and C: "\<exists>log. client_log x = sent d @ log"
  let ?fd = "seat_fds x (seat_no x)"
  obtain e b where e: "client_draw c = (Inr b, e)" "k e = (Inr w, d)" using k unfolding thenp_def by (rule bindp_InrE)
  obtain log where log: "client_log x = sent c @ (player_fd (me c), ack_line) # log"
    using client_draw_acks [OF e(1) growingD [OF assms e(2) C]] by blast
  have fd: "player_fd (players s (seat_no x)) = ?fd" using L by (simp add: linked_def hearing_def)
  have p: "buffer_ok s" "pending ?fd s = ''ACK'' @ newline # said_to (player_fd (me c)) log @ after_client x"
    using L log by (auto simp: linked_def ack_lineD)
  obtain u where u: "hear (seat_no x) s = (Inr 0, u)" "recvline u = ack_line"
    using server_chan.recv_line [OF p] fd ack_lineD by (auto simp: hear_def player_of_def MAXLINE_def)
  have "discard (seat_no x) s = (Inl Undefined, u)" using u ack_no_index by (simp add: discard_def)
  then show "Q v w t d" using m by simp
qed

text \<open>
  The acknowledgements of a run that only writes: when \<open>N\<close> messages have been written, what follows
  them is next.
\<close>

definition paid :: "int \<Rightarrow> int \<Rightarrow> nat \<Rightarrow> string \<Rightarrow> server \<Rightarrow> bool" where
  "paid p fd N y s \<longleftrightarrow> player_fd (players s p) = fd \<and>
     (length (sent s) \<le> N \<longrightarrow> buffer_ok s \<and> pending fd s = concat (replicate (N - length (sent s)) ack_line) @ y)"

lemma paid_tell: "partial (paid p fd N y) (tell p l) (\<lambda>_. paid p fd N y)"
proof (rule tripleI)
  fix s v t assume P: "paid p fd N y s" and run: "tell p l s = (Inr v, t)"
  have send: "write_message_wait_ack fd l s = (Inr v, t)" using P run by (simp add: paid_def tell_def player_of_def)
  have st: "length (sent t) = Suc (length (sent s))" "players t = players s"
    using server_chan.send_Inr [OF send] more_fields(1) [OF server_chan.send_more [OF send]] by simp_all
  have "buffer_ok t \<and> pending fd t = concat (replicate (N - length (sent t)) ack_line) @ y" if "length (sent t) \<le> N"
  proof -
    have "N - length (sent s) = Suc (N - length (sent t))" using that st(1) by simp
    then have p: "buffer_ok s" "pending fd s = ack_line @ concat (replicate (N - length (sent t)) ack_line) @ y"
      using P that st(1) by (simp_all add: paid_def)
    show ?thesis using server_chan.send_acked [OF p, of l] send by auto
  qed
  then show "paid p fd N y t" using P st(2) by (simp add: paid_def)
qed simp

lemma paid_update:
  assumes "\<And>q q'. f q = Some q' \<Longrightarrow> player_fd q' = player_fd q"
  shows "partial (paid p fd N y) (update_player p f) (\<lambda>_. paid p fd N y)"
  by (rule tripleI) (auto simp: update_player_run paid_def buffer_ok_def pending_def buffered_def dest: assms split: option.splits)

lemma paid_take: "partial (paid p fd N y) take_tile (\<lambda>_. paid p fd N y)"
  by (rule tripleI) (auto simp: take_tile_run paid_def buffer_ok_def pending_def buffered_def split: option.splits)

lemma paid_drawn: "partial (paid p fd N y) (drawn_tile p) (\<lambda>_. paid p fd N y)"
  by (rule tripleI) (auto simp: drawn_tile_def player_of_def simp del: at_Some)

lemma paid_grab: "partial (paid p fd N y) (grab_tile p) (\<lambda>_. paid p fd N y)"
  unfolding grab_tile_def
  by (intro triple_bindp [OF paid_take] triple_thenp [OF paid_update] triple_bindp [OF paid_drawn] paid_tell)
    (auto simp: put_deck_def bind_eq_Some_conv)

lemma paid_draw: "partial (paid p fd N y) (draw p) (\<lambda>_. paid p fd N y)"
proof -
  have "partial (paid p fd N y) (draw_loop k p) (\<lambda>_. paid p fd N y)" for k
  proof (induction k)
    case 0
    then show ?case by (simp add: triple_def)
  next
    case (Suc k)
    have eq: "draw_loop (Suc k) p = bindp (drawn_tile p) (\<lambda>m. if type m = FLOWER then
        thenp (update_player p (push_flower m)) (thenp (grab_tile p) (draw_loop k p)) else ret 0)"
      by (rule ext) simp
    show ?case
      unfolding eq
      by (intro triple_bindp [OF paid_drawn] triple_if triple_thenp [OF paid_update] triple_thenp [OF paid_grab] Suc)
        (auto simp: push_flower_def bind_eq_Some_conv triple_def)
  qed
  then show ?thesis
    unfolding draw_def by (intro triple_thenp [OF paid_grab] triple_bindp [OF triple_getp, of _ "\<lambda>_. paid p fd N y"])
qed

lemma tidy_draw: "partial tidy client_draw (\<lambda>_. tidy)"
proof -
  have up: "partial tidy (update_me f) (\<lambda>_. tidy)" if "\<And>q q'. f q = Some q' \<Longrightarrow> player_fd q' = player_fd q" for f
    by (rule tripleI) (auto simp: update_me_run dest: that split: option.splits)
  have quiet: "partial tidy my (\<lambda>_. tidy)" "partial tidy (getp h) (\<lambda>_. tidy)" "partial tidy (liftp z) (\<lambda>_. tidy)"
    "partial tidy clear_recvline (\<lambda>_. tidy)" "partial tidy socket_unread (\<lambda>_. tidy)"
    for h :: "client \<Rightarrow> 'a" and z :: "'b option"
    by (rule tripleI; auto simp: my_def clear_recvline_def set_recvline_def socket_unread_def)+
  have one: "partial tidy receive_tile (\<lambda>_. tidy)"
    unfolding receive_tile_def
    by (intro triple_thenp [OF tidy_listen] triple_bindp [OF quiet(2)] triple_thenp [OF up] quiet(4))
      (auto simp: put_deck_def bind_eq_Some_conv)
  have "partial tidy (client_draw_loop k) (\<lambda>_. tidy)" for k
  proof (induction k)
    case 0
    then show ?case by (simp add: triple_def)
  next
    case (Suc k)
    have eq: "client_draw_loop (Suc k) = bindp my (\<lambda>q. bindp (liftp (at (decks q) (normal_capacity q))) (\<lambda>m.
        if type m = FLOWER then thenp (update_me (push_flower m)) (thenp receive_tile (client_draw_loop k)) else ret 0))"
      by (rule ext) simp
    show ?case
      unfolding eq
      by (intro triple_bindp [OF quiet(1)] triple_bindp [OF quiet(3)] triple_if triple_thenp [OF up] triple_thenp [OF one] Suc)
        (auto simp: push_flower_def bind_eq_Some_conv triple_def)
  qed
  then show ?thesis unfolding client_draw_def by (intro triple_thenp [OF one] triple_bindp [OF quiet(5)])
qed

lemma draw_in_step:
  "in_step x (link x (playing x n)) (draw (seat_no x)) client_draw (\<lambda>_ _. link x (playing x n))"
proof (rule in_stepI, elim conjE)
  fix s c v w t d
  assume L: "linked x s c" and F: "playing x n s (me c) (board c)" and m: "draw (seat_no x) s = (Inr v, t)"
    and k: "client_draw c = (Inr w, d)"
    and S: "\<exists>log. server_log x = sent t @ log" and C: "\<exists>log. client_log x = sent d @ log"
  let ?p = "seat_no x"
  let ?fd = "seat_fds x ?p"
  let ?me = "player_fd (me c)"
  have fds: "\<And>i. player_fd (players s i) = seat_fds x i" using L by (simp add: linked_def hearing_def)
  have wall: "\<forall>m \<in> set (shuffled_mjs s). good m" using F by (simp add: playing_def)
  obtain ls where ls: "sent t = sent s @ map (Pair ?fd) ls" "follows (players s ?p) ls (players t ?p) (\<lambda>_. client_draw)"
    using draw_follows [OF m wall] fds by auto
  obtain log where log: "server_log x = sent t @ log" using S by blast
  have h: "hears (concat ls @ said_to ?fd log @ after_server x) c" using L log ls(1) by (auto simp: linked_def hearing_def)
  obtain e where e: "client_draw c = (Inr 0, e)" "mirrors (players t ?p) (me e)" "hears (said_to ?fd log @ after_server x) e"
    "player_fd (me e) = ?me" "sent e = sent c @ replicate (length ls) (?me, ack_line)"
    by (rule followsD [OF ls(2) _ h lessI]) (use F in \<open>auto simp: playing_def\<close>)
  then have d: "d = e" using k by simp
  obtain log' where log': "client_log x = sent d @ log'" using C by blast
  have "pending ?fd s = concat (replicate (length ls) ack_line) @ said_to ?me log' @ after_client x" "buffer_ok s"
    using L log' e(5) d by (auto simp: linked_def)
  then have "paid ?p ?fd (length (sent t)) (said_to ?me log' @ after_client x) s"
    using fds ls(1) by (simp add: paid_def)
  from triple_Inr [OF paid_draw this m] have p: "buffer_ok t" "pending ?fd t = said_to ?me log' @ after_client x"
    by (simp_all add: paid_def)
  obtain fs a where run: "same_but ?p s t" "players t ?p = got (players s ?p) fs a" by (rule draw_run [OF m])
  have q: "player_fd (players t ?p) = player_fd (players s ?p)" "normal_capacity (players t ?p) = normal_capacity (players s ?p)"
    using run(2) by (simp_all add: got_def)
  have "\<And>i. player_fd (players t i) = seat_fds x i" using fds q(1) same_butD(2) [OF run(1)] by metis
  moreover have "tidy d" using triple_Inr [OF tidy_draw _ k] L by (simp add: linked_def)
  ultimately have "linked x t d"
    using p log log' e(3,4) d by (simp add: linked_def hearing_def)
  moreover have "playing x n t (me d) (board d)"
    using F e(2) d q(2) same_butD(1,3) [OF run(1)] by (simp add: playing_def)
  ultimately show "link x (playing x n) t d" by simp
qed

text \<open>The discard. Afterwards the server talks to the other players.\<close>

definition discarded :: "session \<Rightarrow> int \<Rightarrow> server \<Rightarrow> client \<Rightarrow> bool" where
  "discarded x n s c \<longleftrightarrow> hearing x s c \<and> mirrors (players s (seat_no x)) (me c) \<and>
     normal_capacity (players s (seat_no x)) = n \<and> kind (board c) = kind (discarded_mj s)"

lemma broadcast_not_said:
  assumes "own_lines x" and "\<And>i. player_fd (players s i) = seat_fds x i" and "broadcast_discard_mj (seat_no x) s = (Inr v, t)"
  shows "not_said (seat_fds x (seat_no x)) s t"
proof -
  let ?P = "not_said (seat_fds x (seat_no x)) s"
  have one: "partial ?P (tell ((seat_no x + k) mod 4) l) (\<lambda>_. ?P)" if "k \<in> {1, 2, 3}" for k l
    using that assms(1,2) unfolding own_lines_def by (intro not_said_tell) auto
  have "partial ?P (broadcast_discard_mj (seat_no x)) (\<lambda>_. ?P)"
    unfolding broadcast_discard_mj_def tell_others_def
  proof (rule triple_bindp)
    show "partial ?P (getp discarded_mj) (\<lambda>_. ?P)" by (simp add: triple_def)
    fix d
    show "partial ?P (case discard_text (seat_no x) d of None \<Rightarrow> ret 0 | Some msg \<Rightarrow>
        thenp (thenp (tell ((seat_no x + 1) mod 4) msg) (thenp (tell ((seat_no x + 2) mod 4) msg) (tell ((seat_no x + 3) mod 4) msg)))
          (ret 0)) (\<lambda>_. ?P)"
    proof (cases "discard_text (seat_no x) d")
      case (Some msg)
      show ?thesis
        unfolding Some option.case
        by (intro triple_thenp [OF triple_thenp [OF one triple_thenp [OF one one]]] triple_ret) simp_all
    qed (simp add: triple_def)
  qed
  from triple_Inr [OF this _ assms(3)] show ?thesis by (simp add: not_said_def)
qed

text \<open>Both take the tile at the announced index.\<close>

definition choosing :: "session \<Rightarrow> int \<Rightarrow> int \<Rightarrow> mj \<Rightarrow> server \<Rightarrow> player \<Rightarrow> mj \<Rightarrow> bool" where
  "choosing x n i m s q b \<longleftrightarrow> playing x n s q b \<and> at (decks q) i = Some m \<and> kind b = kind m"

lemma choosing_framed: "framed (choosing x n i m)"
  using framed_playing unfolding framed_def choosing_def by blast

lemma removes_in_step:
  assumes "own_lines x" and "int_range i"
  shows "in_step x (\<lambda>s c. link x (choosing x n i m) s c \<and> recvline s = show_int i @ [newline])
     (bindp (getp recvline) (\<lambda>l. bindp (liftp (read_index l)) (\<lambda>index. bindp (player_of (seat_no x)) (\<lambda>q.
        bindp (liftp (at (decks q) index)) (\<lambda>m. thenp (modp (\<lambda>s. s\<lparr>discarded_mj := (discarded_mj s)\<lparr>type := type m, number := number m\<rparr>\<rparr>))
          (thenp clear_recvline (thenp (update_player (seat_no x) (remove_tile index)) (thenp (broadcast_discard_mj (seat_no x)) (ret 0)))))))))
     (thenp (update_me (client_remove_tile i)) (ret 0)) (\<lambda>_ _. discarded x n)"
proof (rule in_stepI, elim conjE)
  fix s :: server and c :: client and v w t d
  let ?p = "seat_no x"
  let ?q = "players s ?p"
  assume L: "linked x s c" and F: "choosing x n i m s (me c) (board c)" and l: "recvline s = show_int i @ [newline]"
    and run: "bindp (getp recvline) (\<lambda>l. bindp (liftp (read_index l)) (\<lambda>index. bindp (player_of ?p) (\<lambda>q.
        bindp (liftp (at (decks q) index)) (\<lambda>m. thenp (modp (\<lambda>s. s\<lparr>discarded_mj := (discarded_mj s)\<lparr>type := type m, number := number m\<rparr>\<rparr>))
          (thenp clear_recvline (thenp (update_player ?p (remove_tile index)) (thenp (broadcast_discard_mj ?p) (ret 0)))))))) s = (Inr v, t)"
    and k: "thenp (update_me (client_remove_tile i)) (ret 0) c = (Inr w, d)"
    and S: "\<exists>log. server_log x = sent t @ log"
  have idx: "read_index (recvline s) = Some i" using l scan_number [OF assms(2)] by (simp add: read_index_def)
  obtain a where a: "at (decks ?q) i = Some a"
    using run idx by (cases "at (decks ?q) i") (simp_all add: player_of_def del: at_Some at_None)
  obtain q' where q': "remove_tile i ?q = Some q'"
    using run idx a by (cases "remove_tile i ?q")
      (simp_all add: player_of_def clear_recvline_def set_recvline_def update_player_run del: at_Some at_None)
  let ?s = "s\<lparr>discarded_mj := (discarded_mj s)\<lparr>type := type a, number := number a\<rparr>, recvline := [], players := (players s)(?p := q')\<rparr>"
  obtain r where b: "broadcast_discard_mj ?p ?s = (Inr r, t)"
    using run idx a q' by (cases "broadcast_discard_mj ?p ?s"; cases "fst (broadcast_discard_mj ?p ?s)")
      (simp_all add: player_of_def clear_recvline_def set_recvline_def update_player_run del: at_Some at_None)
  have M: "mirrors ?q (me c)" "normal_capacity ?q = n" "kind (board c) = kind m" "at (decks (me c)) i = Some m"
    using F by (simp_all add: choosing_def playing_def)
  obtain c' where c': "client_remove_tile i (me c) = Some c'" "mirrors q' c'"
    using mirrors_run [where f = "remove_tile i", OF M(1) remove_tile_face q'] by (auto simp: client_remove_is)
  then have d: "d = c\<lparr>me := c'\<rparr>" using k by (simp add: update_me_run)
  have "same_capacity (remove_tile i)" by (rule capacity_remove)
  then have cap: "normal_capacity q' = n" using same_capacityD q' M(2) by metis
  have fd: "player_fd q' = player_fd ?q" "player_fd c' = player_fd (me c)"
    using q' c'(1) by (auto simp: client_remove_is remove_tile_def swap_deck_def clear_deck_def put_deck_def sort_deck_def bind_eq_Some_conv)
  have fds: "player_fd (players ?s j) = seat_fds x j" for j
    using L fd(1) by (auto simp: linked_def hearing_def)
  from broadcast_not_said [OF assms(1) fds b] obtain log where
    log: "sent t = sent s @ log" "said_to (seat_fds x ?p) log = []" and more: "io.more t = io.more ?s"
    by (auto simp: not_said_def)
  obtain rest where rest: "server_log x = sent t @ rest" using S by blast
  have "hears (said_to (seat_fds x ?p) rest @ after_server x) c" using L rest log by (auto simp: linked_def hearing_def)
  then have "hears (said_to (seat_fds x ?p) rest @ after_server x) d"
    by (rule hears_more) (simp_all add: d fd io.truncate_def)
  then have "hearing x t d" using rest fds more_fields(1) [OF more] by (auto simp: hearing_def)
  moreover have "kind a = kind m" using mirrors_at [OF M(1) a] M(4) by (metis option.inject)
  then have "kind (board d) = kind (discarded_mj t)" using M(3) more_fields(3) [OF more] by (simp add: d kind_def)
  ultimately show "discarded x n t d"
    using c'(2) cap more_fields(1) [OF more] by (simp add: discarded_def d)
qed

lemma discard_in_step:
  assumes "own_lines x" and "n \<le> 16"
  shows "in_step x (link x (playing x n)) (discard (seat_no x)) client_discard (\<lambda>_ _. discarded x n)"
  unfolding client_discard_def
proof (rule in_step_side_then [OF sideways_show(2)])
  have index: "partial (link x (playing x n) s) choose_index (\<lambda>i c. link x (playing x n) s c \<and> 0 \<le> i \<and> i \<le> n)" for s
  proof (rule tripleI)
    fix c i d assume c: "link x (playing x n) s c" and run: "choose_index c = (Inr i, d)"
    have a: "aside c d" by (rule sidewaysD [OF choose_side(1) run])
    have "choosing_from (me c) (sent c) c" by (simp add: choosing_from_def)
    from triple_Inr [OF choose_index_in_hand this run] have "0 \<le> i" "i \<le> normal_capacity (me c)" by simp_all
    moreover have "normal_capacity (me c) = n" using c mirrors_capacity by (auto simp: playing_def)
    ultimately show "link x (playing x n) s d \<and> 0 \<le> i \<and> i \<le> n"
      using linked_aside [OF _ a] c a by (simp add: aside_def)
  qed simp
  show "in_step x (link x (playing x n)) (discard (seat_no x)) (bindp choose_index (\<lambda>index.
     bindp my (\<lambda>q. bindp (liftp (at (decks q) index)) (\<lambda>m.
     thenp (modp (\<lambda>s. s\<lparr>board := (board s)\<lparr>type := type m, number := number m\<rparr>,
       message := (case chosen_text m of None \<Rightarrow> message s | Some t \<Rightarrow> t)\<rparr>)) (
     thenp (say (show_int index @ ''\<newline>'')) (thenp (update_me (client_remove_tile index)) (ret 0))))))) (\<lambda>_ _. discarded x n)"
    unfolding my_def
  proof (rule in_step_right [OF index], intro in_step_right_get in_step_right_lift)
    fix i and q :: player and m assume m: "at (decks q) i = Some m"
    let ?P = "\<lambda>s c. (link x (playing x n) s c \<and> 0 \<le> i \<and> i \<le> n) \<and> q = me c"
    show "in_step x ?P (discard (seat_no x)) (
       thenp (modp (\<lambda>s. s\<lparr>board := (board s)\<lparr>type := type m, number := number m\<rparr>,
         message := (case chosen_text m of None \<Rightarrow> message s | Some t \<Rightarrow> t)\<rparr>)) (
       thenp (say (show_int i @ ''\<newline>'')) (thenp (update_me (client_remove_tile i)) (ret 0)))) (\<lambda>_ _. discarded x n)"
    proof (rule in_step_pure [where b = "0 \<le> i \<and> i \<le> n"])
      assume i: "0 \<le> i \<and> i \<le> n"
      then have i16: "0 \<le> i" "i \<le> 16" using assms(2) by simp_all
      note line = index_line(1,2) [OF i16] and r = index_line(3) [OF i16]
      show ?thesis
        unfolding thenp_def [of "modp f" for f]
      proof (rule in_step_right [where R = "\<lambda>_. link x (choosing x n i m)"])
        show "partial (?P s) (modp (\<lambda>s. s\<lparr>board := (board s)\<lparr>type := type m, number := number m\<rparr>,
           message := (case chosen_text m of None \<Rightarrow> message s | Some t \<Rightarrow> t)\<rparr>)) (\<lambda>_. link x (choosing x n i m) s)" for s
          by (rule tripleI) (use m in \<open>auto simp: choosing_def playing_def kind_def simp del: at_Some intro: linked_client\<close>)
        show "in_step x (link x (choosing x n i m)) (discard (seat_no x))
           (thenp (say (show_int i @ ''\<newline>'')) (thenp (update_me (client_remove_tile i)) (ret 0))) (\<lambda>_ _. discarded x n)"
          unfolding discard_def
          by (rule in_step_then [OF hear_say [OF choosing_framed line]],
              rule in_step_pre [OF removes_in_step [OF assms(1) r, where m = m]])
            (simp, (intro growing_intros grows growing_modp; simp)+)
      qed
    qed simp
  qed
qed

subsection \<open>The whole turn\<close>

lemma growing_claims [grows]: "growing client_pong" "growing client_gang" "growing hu_or_discard"
  unfolding client_pong_def client_gang_def hu_or_discard_def by (intro growing_intros grows)+

lemma client_eat_loop_Suc:
  "client_eat_loop (Suc k) a e = thenp listen_server (
     bindp (recv_is ''Type which 2 of the mjs you want to eat with: \<newline>'' 47) (\<lambda>asked.
     if asked then bindp (getp recvline) (\<lambda>l. thenp (printf (cstr l)) (thenp clear_recvline (
       bindp (readline_stdin 64) (\<lambda>(n, b). if n = 0 then pressed_ctrl_d
         else let answer = (if n < 0 then b @ drop (length b) a else b) in
           bindp (liftp (scan_indices answer e)) (\<lambda>e. bindp (liftp (format_only (cstr answer))) (\<lambda>msg.
           thenp (say msg) (thenp listen_server (bindp (recv_is ''eatable.\<newline>'' 10) (\<lambda>ok. bindp (getp board) (\<lambda>d.
           if ok then update_me (client_eat_tiles (fst e) (snd e) d)
           else bindp (getp recvline) (\<lambda>l. thenp (printf (cstr l)) (thenp clear_recvline (client_eat_loop k answer e)))))))))))))
     else client_eat_loop k a e))"
  by (rule ext) simp

lemma growing_eat_loop [grows]: "growing (client_eat_loop k a e)"
proof (induction k arbitrary: a e)
  case (Suc k)
  show ?case unfolding client_eat_loop_Suc Let_def by (intro growing_intros grows Suc)
qed (auto intro!: keepsI)

lemma growing_eat [grows]: "growing client_eat"
  unfolding client_eat_def by (intro growing_intros grows)

lemma growing_dispatch: "growing dispatch"
  unfolding dispatch_def on_discard_def on_announce_def on_nobody_def on_hu_def on_other_def
  by (intro growing_intros grows growing_modp; simp)

lemma show_deck_run: "show_deck p a b s = (Inr v, t) \<Longrightarrow> \<exists>txt. t = s\<lparr>console := txt\<rparr>"
  by (auto simp: show_deck_def player_of_def printf_def split: prod.splits sum.splits)

text \<open>The rest of a turn after the offer to win.\<close>

lemma tail_in_step:
  assumes "own_lines x" and "n \<le> 16"
  shows "in_step x (\<lambda>s c. link x (playing x n) s c \<and> orderly x s) (turn_tail (seat_no x)) (bindp both_unread (\<lambda>k. client_quiet_loop (Suc k)))
     (\<lambda>v r s c. v = 0 \<and> r = Continue \<and> discarded x n s c)"
  (is "in_step _ ?P _ _ ?Q")
proof -
  let ?p = "seat_no x"
  let ?last = "thenp (discard ?p) (thenp (show_deck ?p False False) (ret (0 :: int)))"
  let ?L = "link x (playing x n)"
  have finish: "in_step x ?L ?last (thenp client_discard (ret Continue)) ?Q"
  proof (rule in_step_then [OF discard_in_step [OF assms]])
    show "in_step x (discarded x n) (thenp (show_deck ?p False False) (ret 0)) (ret Continue) ?Q"
      unfolding thenp_def
    proof (rule in_step_left [where R = "\<lambda>_. discarded x n"])
      show "partial (\<lambda>s. discarded x n s c) (show_deck ?p False False) (\<lambda>_ s. discarded x n s c)" for c
        by (rule tripleI) (auto dest!: show_deck_run simp: discarded_def hearing_def)
    qed (auto intro: in_step_ret)
  qed (intro growing_intros grows)+
  have gang: "quiet_gang_loop (Suc k) ?p = bindp (quiet_gang ?p) (\<lambda>g. if g = 1 then
      thenp (draw ?p) (bindp (is_hu ?p) (\<lambda>h. if h = 1 then ret True else quiet_gang_loop k ?p)) else ret False)" for k
    by (rule ext) simp
  have client: "client_quiet_loop (Suc k) = bindp client_quiet_gang (\<lambda>g. if g = 1 then thenp client_draw (bindp client_is_hu
      (\<lambda>h. if h = 1 then ret (Leave 1) else client_quiet_loop k)) else thenp client_discard (ret Continue))" for k
    by (rule ext) simp
  have assoc: "bindp (bindp m f) g = bindp m (\<lambda>a. bindp (f a) g)" for m :: "(server, int) prog" and f :: "int \<Rightarrow> (server, bool) prog" and g :: "bool \<Rightarrow> (server, int) prog"
    by (rule ext) (simp split: prod.splits sum.splits)
  have main: "in_step x ?P (bindp (quiet_gang_loop (Suc j) ?p) (\<lambda>won. if won then ret 1 else ?last)) (client_quiet_loop (Suc k)) ?Q" for j k
    unfolding gang client assoc
  proof (rule in_step_bind [OF quiet_gang_in_step [OF assms(1)]])
    fix g h :: int
    let ?m = "bindp (if g = 1 then thenp (draw ?p) (bindp (is_hu ?p) (\<lambda>h. if h = 1 then ret True else quiet_gang_loop j ?p)) else ret False)
        (\<lambda>won. if won then ret 1 else ?last)"
    let ?k = "if h = 1 then thenp client_draw (bindp client_is_hu (\<lambda>h. if h = 1 then ret (Leave 1) else client_quiet_loop k))
        else thenp client_discard (ret Continue)"
    let ?R = "\<lambda>s c. g = 0 \<and> (?L s c \<and> h = 0 \<or> linked x s c \<and> h = 1)"
    show "in_step x ?R ?m ?k ?Q"
    proof (rule in_step_pure [where b = "g = 0 \<and> (h = 0 \<or> h = 1)"])
      assume g: "g = 0 \<and> (h = 0 \<or> h = 1)"
      have "bindp (ret False) (\<lambda>won. if won then ret 1 else ?last) = ?last" by (rule ext) simp
      then have m: "?m = ?last" using g by simp
      have "growing (bindp client_is_hu (\<lambda>h. if h = 1 then ret (Leave 1) else client_quiet_loop k))" by (intro growing_intros grows)
      then have made: "in_step x (linked x) ?last (thenp client_draw (bindp client_is_hu
          (\<lambda>h. if h = 1 then ret (Leave 1) else client_quiet_loop k))) ?Q" by (rule gang_never_on)
      show "in_step x ?R ?m ?k ?Q"
        unfolding m using g by (elim conjE disjE) (auto intro: in_step_pre [OF finish] in_step_pre [OF made])
    qed auto
  qed (intro growing_intros grows)+
  show ?thesis
    unfolding thenp_def [of "show_deck ?p False True"] both_unread_def
  proof (rule in_step_left [where R = "\<lambda>_. ?P"])
    show "partial (\<lambda>s. ?P s c) (show_deck ?p False True) (\<lambda>_ s. ?P s c)" for c
      by (rule tripleI) (auto dest!: show_deck_run simp: playing_def intro: linked_server orderly_world)
    show "in_step x ?P (bindp (getp wall_left) (\<lambda>k. bindp (quiet_gang_loop (Suc k) ?p) (\<lambda>won. if won then ret 1 else ?last)))
        (bindp (getp (\<lambda>s. unread (player_fd (me s)) s + unread 0 s)) (\<lambda>k. client_quiet_loop (Suc k))) ?Q"
      by (intro in_step_left_get in_step_right_get in_step_pre [OF main]) auto
  qed
qed

lemma turn_in_step:
  assumes "own_lines x" and "n \<le> 16"
  shows "in_step x (\<lambda>s c. link x (playing x n) s c \<and> orderly x s) (draw_n_discard (seat_no x)) (thenp listen_server dispatch)
     (\<lambda>v r s c. r = Continue \<and>
       (v = 1 \<and> winner s = seat_no x \<and> link x (playing x n) s c \<or> v = 0 \<and> discarded x n s c))"
  (is "in_step _ ?P _ _ ?Q")
  unfolding draw_n_discard_eq
proof (rule in_step_then [OF in_step_keep_left [OF tell_listen [OF framed_playing turn_lines(1,8)] orderly_tell]])
  let ?p = "seat_no x"
  let ?rest = "thenp (draw ?p) (bindp (is_hu ?p) (\<lambda>h. if h = 1 then ret 1 else turn_tail ?p))"
  have won: "in_step x (\<lambda>s c. ?P s c \<and> winner s = ?p) (ret 1) (ret Continue) ?Q" by (rule in_step_ret) simp
  have tail: "in_step x ?P (turn_tail ?p) (bindp both_unread (\<lambda>k. client_quiet_loop (Suc k))) ?Q"
    by (rule in_step_post [OF tail_in_step [OF assms]]) auto
  have hu: "in_step x ?P (bindp (is_hu ?p) (\<lambda>h. if h = 1 then ret 1 else turn_tail ?p))
      (bindp client_is_hu (\<lambda>h. if h = 1 then ret Continue else bindp both_unread (\<lambda>k. client_quiet_loop (Suc k)))) ?Q"
  proof (rule in_step_bind [OF in_step_keep_left [OF is_hu_in_step orderly_is_hu]])
    fix h g :: int
    let ?R = "\<lambda>s c. (link x (playing x n) s c \<and> (h = 1 \<and> g = 1 \<and> winner s = ?p \<or> h \<noteq> 1 \<and> g \<noteq> 1)) \<and> orderly x s"
    show "in_step x ?R (if h = 1 then ret 1 else turn_tail ?p)
        (if g = 1 then ret Continue else bindp both_unread (\<lambda>k. client_quiet_loop (Suc k))) ?Q"
    proof (rule in_step_pure [where b = "h = 1 \<longleftrightarrow> g = 1"])
      assume "h = 1 \<longleftrightarrow> g = 1"
      then show ?thesis by (cases "h = 1") (auto intro: in_step_pre [OF won] in_step_pre [OF tail])
    qed auto
  qed (intro growing_intros grows)+
  have turn: "in_step x ?P ?rest on_your_turn ?Q"
    unfolding on_your_turn_def
    by (intro in_step_side_then_keeping side in_step_then [OF in_step_keep_left [OF draw_in_step orderly_draw]] hu growing_intros grows)
  show "in_step x (\<lambda>s c. (link x (playing x n) s c \<and> recvline c = ''your turn\<newline>'') \<and> orderly x s) ?rest dispatch ?Q"
    unfolding dispatch_def
  proof (rule in_step_right_get, rule in_step_pure)
    fix l
    show "((link x (playing x n) s c \<and> recvline c = ''your turn\<newline>'') \<and> orderly x s) \<and> l = recvline c \<Longrightarrow> strncmp_eq l ''your turn\<newline>'' 10" for s c by simp
    assume yes: "strncmp_eq l ''your turn\<newline>'' 10"
    show "in_step x (\<lambda>s c. ((link x (playing x n) s c \<and> recvline c = ''your turn\<newline>'') \<and> orderly x s) \<and> l = recvline c) ?rest
       (if strncmp_eq l ''your turn\<newline>'' 10 then on_your_turn else if strncmp_eq l ''(Discard) '' 6 then on_discard
        else if strncmp_eq l ''(Announce) '' 11 then on_announce
        else if strncmp_eq l ''You can pong.\<newline>'' 15 then thenp client_pong (ret Continue)
        else if strncmp_eq l ''You can gang.\<newline>'' 15 then thenp client_gang (ret Continue)
        else if strncmp_eq l ''You can eat.\<newline>'' 13 then thenp client_eat (ret Continue)
        else if strncmp_eq l ''no one wants it.\<newline>'' 17 then on_nobody
        else if strncmp_eq l ''(Game) '' 7 then ret RoundOver
        else if strncmp_eq l ''(Hu) '' 5 then on_hu
        else if strncmp_eq l ''(End) '' 6 then ret RoundOver else on_other) ?Q"
      unfolding if_P [OF yes] by (rule in_step_pre [OF turn]) simp
  qed
qed (intro growing_intros grows growing_dispatch)+

subsection \<open>Properties\<close>

text \<open>
  Property C6: server and client stay in step through a turn. The server runs the turn of a player and the
  player's client hears and handles it, each over a stream that delivers what the other writes, and the
  players answer the server a line at a time. Whatever is typed, when both return, the two have come to the
  same verdict: either the server has named this player the winner, or both took the same tile out of the hand
  and have it on the board. In both cases the hand has the size it had, the client holds the hand, flower count
  and door that the server keeps for it, has read just what was written to it, and goes on to the
  next message. A turn with a quiet gang that is offered and accepted is none of these: the two never both return, since
  the server then reads the client's acknowledgement as the index of the discard and finds no number in it.
\<close>

theorem turn_keeps_step:
  assumes "draw_n_discard p s = (Inr v, t)" and "thenp listen_server dispatch c = (Inr r, d)"
    and "mirrors (players s p) (me c)" and "\<forall>m \<in> set (shuffled_mjs s). good m" and "normal_capacity (players s p) \<le> 16"
    and "\<forall>k \<in> {1, 2, 3}. player_fd (players s ((p + k) mod 4)) \<noteq> player_fd (players s p)"
    and "read_cnt s \<le> 0" and "\<forall>i. \<forall>e \<in> set (net s (player_fd (players s i))). line_event MAXLINE e" and "tidy c"
    and "sent t = sent s @ log" and "hears (said_to (player_fd (players s p)) log @ x) c"
    and "sent d = sent c @ log'" and "pending (player_fd (players s p)) s = said_to (player_fd (me c)) log' @ y"
  shows "r = Continue \<and> mirrors (players t p) (me d) \<and> hears x d \<and>
     normal_capacity (players t p) = normal_capacity (players s p) \<and>
     (v = 1 \<and> winner t = p \<or> v = 0 \<and> kind (board d) = kind (discarded_mj t))"
proof -
  define z where "z = \<lparr>seat_no = p, seat_fds = \<lambda>i. player_fd (players s i), server_log = sent t, client_log = sent d,
    after_server = x, after_client = y\<rparr>"
  let ?n = "normal_capacity (players s p)"
  have own: "own_lines z" using assms(6) by (simp add: own_lines_def z_def)
  have "buffer_ok s" using assms(7) by (simp add: buffer_ok_def)
  then have "linked z s c" using assms(9-13) by (simp add: linked_def hearing_def z_def)
  moreover have "playing z ?n s (me c) (board c)" using assms(3,4) by (simp add: playing_def z_def)
  moreover have "orderly z s" using assms(7,8) by (simp add: orderly_def z_def)
  ultimately have P: "link z (playing z ?n) s c \<and> orderly z s" by simp
  have "r = Continue \<and> (v = 1 \<and> winner t = p \<and> link z (playing z ?n) t d \<or> v = 0 \<and> discarded z ?n t d)"
    using in_stepD [OF turn_in_step [OF own assms(5)] P] assms(1,2) by (simp add: z_def)
  moreover have "hears x d" if "hearing z t d" using that by (simp add: hearing_def z_def)
  ultimately show ?thesis by (auto simp: linked_def playing_def discarded_def z_def)
qed

lemma line_event_iff: "line_event n (Bytes l) \<longleftrightarrow> l \<noteq> [] \<and> last l = newline \<and> newline \<notin> set (butlast l) \<and> length l < n"
proof (cases l rule: rev_cases)
  case (snoc b c)
  then show ?thesis by (auto simp: line_event_def)
qed (simp add: line_event_def)

text \<open>A table at which the first player draws, cannot win or gang, and discards the tile at index 0.\<close>

definition turn_table :: server where
  "turn_table = \<lparr>net = (\<lambda>fd. if fd = 5 then map Bytes [ack_line, ack_line, ack_line, ack_line, ''0\<newline>''] else [Bytes ack_line]),
     read_cnt = 0, read_ptr = [], sent = [], console = [], recvline = [],
     players = (\<lambda>p. (seat 1 [tile 1 3])\<lparr>player_fd := p + 5\<rparr>), shuffled_mjs = [tile 2 7], discarded_mj = null_mj,
     take_index = 0, winner = -1, rand_seq = (\<lambda>_. 0), rand_pos = 0, rset = {}, selects = []\<rparr>"

definition turn_client :: client where
  "turn_client = (new_client [])\<lparr>me := other_side (seat 1 [tile 1 3]), net := (\<lambda>fd. if fd = 3 then map Bytes
      [''your turn\<newline>'', ''2 7\<newline>'', ''cannot hu\<newline>'', ''You cannot quietly-gang.\<newline>'', ack_line]
     else if fd = 0 then [Bytes ''0\<newline>''] else [])\<rparr>"

lemma turn_server_run:
  "fst (draw_n_discard 0 turn_table) = Inr 0"
  "sent (snd (draw_n_discard 0 turn_table)) =
     map (Pair 5) [''your turn\<newline>'', ''2 7\<newline>'', ''cannot hu\<newline>'', ''You cannot quietly-gang.\<newline>'', ack_line] @
     map (\<lambda>fd. (fd, ''(Discard) Player 0 discarded 3 TONG.\<newline>'')) [6, 7, 8]"
  by code_simp+

lemma turn_client_run:
  "fst (thenp listen_server dispatch turn_client) = Inr Continue"
  "sent (snd (thenp listen_server dispatch turn_client)) =
     map (Pair 3) [ack_line, ack_line, ack_line, ack_line, ''0\<newline>'']"
  by code_simp+

theorem turn_keeps_step_witness:
  "\<exists>t d. draw_n_discard 0 turn_table = (Inr 0, t) \<and> thenp listen_server dispatch turn_client = (Inr Continue, d) \<and>
     mirrors (players t 0) (me d) \<and> kind (board d) = kind (discarded_mj t)"
proof -
  obtain t where t: "draw_n_discard 0 turn_table = (Inr 0, t)"
    using turn_server_run(1) by (cases "draw_n_discard 0 turn_table") auto
  obtain d where d: "thenp listen_server dispatch turn_client = (Inr Continue, d)"
    using turn_client_run(1) by (cases "thenp listen_server dispatch turn_client") auto
  have s: "players turn_table 0 = (seat 1 [tile 1 3])\<lparr>player_fd := 5\<rparr>" "me turn_client = other_side (seat 1 [tile 1 3])"
    "player_fd (me turn_client) = 3" "normal_capacity (players turn_table 0) = 1" "sent turn_table = []" "sent turn_client = []"
    by (simp_all add: turn_table_def turn_client_def other_side_def new_client_def seat_def)
  have "mirrors (players turn_table 0) (me turn_client)"
    by (simp add: s mirrors_def face_def other_side_def)
  moreover have "\<forall>m \<in> set (shuffled_mjs turn_table). good m"
    by (simp add: turn_table_def good_def playable_def tile_def)
  moreover have "tidy turn_client"
    unfolding tidy_def s(3)
    by (simp add: turn_client_def new_client_def line_event_iff ack_line_def MAXLINE_def newline_def del: newline_simps)
  moreover have "hears (said_to (player_fd (players turn_table 0)) (sent t) @ []) turn_client"
    using turn_server_run(2) t s(1,3)
    by (simp add: hears_def buffer_ok_def pending_def buffered_def turn_client_def new_client_def said_to_def ack_line_def)
  moreover have "pending (player_fd (players turn_table 0)) turn_table = said_to (player_fd (me turn_client)) (sent d) @ []"
    using turn_client_run(2) d s(1,3)
    by (simp add: pending_def buffered_def turn_table_def said_to_def ack_line_def del: thenp_apply)
  moreover have "\<forall>k \<in> {1, 2, 3}. player_fd (players turn_table ((0 + k) mod 4)) \<noteq> player_fd (players turn_table 0)"
    by (simp add: turn_table_def)
  moreover have "read_cnt turn_table \<le> 0" by (simp add: turn_table_def)
  moreover have "\<forall>i. \<forall>e \<in> set (net turn_table (player_fd (players turn_table i))). line_event MAXLINE e"
    by (simp add: turn_table_def line_event_iff ack_line_def MAXLINE_def newline_def del: newline_simps)
  ultimately have "mirrors (players t 0) (me d) \<and> (0 = (1 :: int) \<and> winner t = 0 \<or> kind (board d) = kind (discarded_mj t))"
    using turn_keeps_step [OF t d, where log = "sent t" and x = "[]" and log' = "sent d" and y = "[]"] s(4-6) by auto
  then show ?thesis using t d by auto
qed

end
