(* ===== verification/ClaimStep.thy ===== *)
theory ClaimStep
  imports TurnStep
begin

text \<open>
  Claims on both ends in step: from the offer of a win, a gang, a pong or an eat to what follows it, the offer to win
  with the rest or the discard, with the choice of the tiles to eat and the announcement to the other players in
  between. The rules of \<open>TurnStep\<close> for draw, offered win and discard are used as they are.
\<close>

subsection \<open>Talking to the other players\<close>

lemma announce_in_step:
  assumes "own_lines x" and "framed F" and "in_step x (link x F) m k Q" and "growing m"
  shows "in_step x (\<lambda>s c. link x F s c \<and> orderly x s) (thenp (announce (seat_no x) what) m) k Q"
  unfolding thenp_def announce_def
proof (rule in_step_left_out [OF _ assms(3,4)], rule tripleI)
  fix c s v t
  let ?l = "''(Announce) player '' @ show_int (seat_no x) @ what"
  assume s: "link x F s c \<and> orderly x s" and run: "tell_others (seat_no x) ?l s = (Inr v, t)"
  have "unnoticed x s s" using s by (simp add: unnoticed_def not_said_def)
  from triple_Inr [OF unnoticed_others [OF assms(1)] this run] have t: "unnoticed x s t" .
  then have "F t (me c) (board c)" using s framedD [OF assms(2), of s c t c] by (simp add: unnoticed_def not_said_def)
  then show "(\<exists>log. server_log x = sent t @ log) \<longrightarrow> link x F t c" using linked_unnoticed [OF _ _ t] s by simp
qed simp

subsection \<open>The meld\<close>

text \<open>The tiles are the client's to lay down: the two take the same meld \<open>f\<close> and \<open>g\<close> from the hand.\<close>

definition claiming :: "session \<Rightarrow> int \<Rightarrow> (mj \<Rightarrow> player \<Rightarrow> player option) \<Rightarrow> (mj \<Rightarrow> player \<Rightarrow> player option) \<Rightarrow>
    server \<Rightarrow> player \<Rightarrow> mj \<Rightarrow> bool" where
  "claiming x n f g s q b \<longleftrightarrow> playing x n s q b \<and> kind b = kind (discarded_mj s) \<and>
     f (discarded_mj s) (players s (seat_no x)) = g (discarded_mj s) (players s (seat_no x))"

lemma framed_claiming: "framed (claiming x n f g)"
  by (auto simp: framed_def claiming_def playing_def dest: same_game)

lemma update_in_step:
  fixes P :: "server \<Rightarrow> client \<Rightarrow> bool"
  assumes "\<And>s c. P s c \<Longrightarrow> link x (playing x n) s c \<and> orderly x s"
    and "\<And>s c q. P s c \<Longrightarrow> f (players s (seat_no x)) = Some q \<Longrightarrow>
      player_fd q = player_fd (players s (seat_no x)) \<and> normal_capacity q = n' \<and> (\<exists>c'. g (me c) = Some c' \<and> mirrors q c')"
    and "same_seat g"
  shows "in_step x P (update_player (seat_no x) f) (update_me g) (\<lambda>_ _ s c. link x (playing x n') s c \<and> orderly x s)"
proof (rule in_stepI)
  fix s :: server and c :: client and v w t d
  let ?q = "players s (seat_no x)"
  assume P: "P s c" and run: "update_player (seat_no x) f s = (Inr v, t)" and krun: "update_me g c = (Inr w, d)"
  have L: "linked x s c" "playing x n s (me c) (board c)" "orderly x s" using assms(1) [OF P] by simp_all
  obtain q where q: "f ?q = Some q" "t = s\<lparr>players := (players s)(seat_no x := q)\<rparr>"
    using run by (cases "f ?q") (simp_all add: update_player_run)
  obtain c' where c': "player_fd q = player_fd ?q" "normal_capacity q = n'" "g (me c) = Some c'" "mirrors q c'"
    using assms(2) [OF P q(1)] by blast
  then have d: "d = c\<lparr>me := c'\<rparr>" using krun by (simp add: update_me_run)
  have fd: "player_fd q = player_fd ?q" "player_fd c' = player_fd (me c)"
    using assms(3) c'(1,3) by (auto simp: same_seat_def)
  have "playing x n' t (me d) (board d)" using c'(2,4) L(2) q(2) d by (simp add: playing_def)
  moreover have "linked x t d" using L(1) fd q(2) d
    by (auto simp: linked_def hearing_def hears_def pending_def buffered_def buffer_ok_def)
  ultimately show "link x (playing x n') t d \<and> orderly x t" using L(3) orderly_update [OF _ fd(1)] q(2) by simp
qed

lemma meld_in_step:
  assumes "\<And>d q. g (bare d) (face q) = map_option face (g d q)" and "\<And>d. same_seat (g d)" and "\<And>d. takes_three (f d)"
    and "in_step x (\<lambda>s c. link x (playing x (n - 3)) s c \<and> orderly x s) m k Q" and "growing m" and "growing k"
  shows "in_step x (\<lambda>s c. link x (claiming x n f g) s c \<and> orderly x s)
     (bindp (getp discarded_mj) (\<lambda>d. thenp (update_player (seat_no x) (f d)) m))
     (bindp (getp board) (\<lambda>d. thenp (update_me (g d)) k)) Q"
proof (intro in_step_left_get in_step_right_get)
  fix d b
  let ?P = "\<lambda>s c. ((link x (claiming x n f g) s c \<and> orderly x s) \<and> d = discarded_mj s) \<and> b = board c"
  show "in_step x ?P (thenp (update_player (seat_no x) (f d)) m) (thenp (update_me (g b)) k) Q"
  proof (rule in_step_then [OF update_in_step [where n = n and n' = "n - 3"] assms(4-6)])
    fix s c q assume P: "?P s c" and q: "f d (players s (seat_no x)) = Some q"
    let ?q = "players s (seat_no x)"
    have M: "mirrors ?q (me c)" "kind b = kind d" "g d ?q = Some q" "normal_capacity ?q = n"
      using P q by (auto simp: claiming_def playing_def)
    obtain c' where "g b (me c) = Some c'" "mirrors q c'" using mirrors_target [where f = g, OF M(1,2) assms(1) M(3)] .
    then show "player_fd q = player_fd ?q \<and> normal_capacity q = n - 3 \<and> (\<exists>c'. g b (me c) = Some c' \<and> mirrors q c')"
      using assms(2,3) M(3,4) q unfolding same_seat_def takes_three_def by metis
  qed (use assms(2) in \<open>auto simp: claiming_def\<close>)
qed

text \<open>The discarded tile is taken off both tables.\<close>

lemma cleared_in_step:
  assumes "in_step x (link x (playing x n)) m k Q"
  shows "in_step x (link x (playing x n)) (thenp clear_discarded m) k Q" "in_step x (link x (playing x n)) m (thenp clear_board k) Q"
proof -
  show "in_step x (link x (playing x n)) (thenp clear_discarded m) k Q"
    unfolding thenp_def
    by (rule in_step_left [where R = "\<lambda>_. link x (playing x n)"])
      (auto simp: triple_def clear_discarded_def playing_def intro: linked_server in_step_pre [OF assms])
  show "in_step x (link x (playing x n)) m (thenp clear_board k) Q"
    unfolding thenp_def
    by (rule in_step_right [where R = "\<lambda>_. link x (playing x n)"])
      (auto simp: triple_def clear_board_def playing_def intro: linked_client in_step_pre [OF assms])
qed

subsection \<open>The rest of a claim\<close>

lemma in_step_right_ret: "in_step x P m k (\<lambda>v _. Q v w) \<Longrightarrow> in_step x P m (thenp k (ret w)) Q"
  unfolding in_step_def by (auto split: prod.splits sum.splits)

lemma in_step_right_eq: "(\<And>s c. P s c \<Longrightarrow> k c = k' c) \<Longrightarrow> in_step x P m k' Q \<Longrightarrow> in_step x P m k Q"
  unfolding in_step_def by metis

text \<open>
  The verdict on a claim, when the server turns to the reactions to the next discard: not taken, won, or a new tile on the table.
\<close>

definition claimed_by :: "session \<Rightarrow> int \<Rightarrow> (int \<times> int) option \<Rightarrow> server \<Rightarrow> client \<Rightarrow> bool" where
  "claimed_by x n v s c \<longleftrightarrow>
     v = Some (1, seat_no x) \<and> winner s = seat_no x \<and> link x (playing x n) s c \<or>
     v = Some (0, seat_no x) \<and> discarded x n s c"

lemma claim_turn_in_step:
  assumes "own_lines x" and "n \<le> 16"
  shows "in_step x (link x (playing x n)) (claim_turn (\<lambda>p. ret (0, p)) (seat_no x)) hu_or_discard (\<lambda>v _. claimed_by x n v)"
  (is "in_step _ ?P _ _ ?Q")
  unfolding claim_turn_def hu_or_discard_def
proof (rule in_step_bind [OF is_hu_in_step])
  let ?p = "seat_no x"
  fix h g :: int
  let ?R = "\<lambda>s c. ?P s c \<and> (h = 1 \<and> g = 1 \<and> winner s = ?p \<or> h \<noteq> 1 \<and> g \<noteq> 1)"
  let ?m = "thenp (discard ?p) (bindp (ret (0 :: int, ?p)) (\<lambda>(_, p'). thenp clear_recvline (ret (Some (0, p')))))"
  have won: "in_step x (\<lambda>s c. ?P s c \<and> winner s = ?p) (ret (Some (1, ?p))) (ret ()) ?Q"
    by (rule in_step_ret) (simp add: claimed_by_def)
  have eq: "bindp (ret (0 :: int, ?p)) (\<lambda>(_, p'). thenp clear_recvline (ret (Some (0 :: int, p')))) =
      thenp clear_recvline (ret (Some (0, ?p)))" by (rule ext) simp
  have out: "in_step x ?P ?m (thenp client_discard (ret ())) ?Q"
    unfolding eq
  proof (rule in_step_then [OF discard_in_step [OF assms]])
    show "in_step x (discarded x n) (thenp clear_recvline (ret (Some (0, ?p)))) (ret ()) ?Q"
      unfolding thenp_def
      by (rule in_step_left [where R = "\<lambda>_. discarded x n"])
        (auto simp: triple_def clear_recvline_def set_recvline_def discarded_def hearing_def claimed_by_def intro: in_step_ret)
  qed (intro growing_intros grows)+
  show "in_step x ?R (if h = 1 then ret (Some (1, ?p)) else ?m) (if g = 1 then ret () else thenp client_discard (ret ())) ?Q"
  proof (rule in_step_pure [where b = "h = 1 \<longleftrightarrow> g = 1"])
    assume "h = 1 \<longleftrightarrow> g = 1"
    then show "in_step x ?R (if h = 1 then ret (Some (1, ?p)) else ?m) (if g = 1 then ret () else thenp client_discard (ret ())) ?Q"
      by (cases "h = 1") (auto intro: in_step_pre [OF won] in_step_pre [OF out])
  qed auto
qed (intro growing_intros grows)+

text \<open>The offer of a claim, and the answer.\<close>

lemma ask_eq: "bindp (ask i l) f = thenp (tell i l) (thenp (hear i) (bindp said_yes f))"
  by (rule ext) (simp add: ask_def split: prod.splits sum.splits)

lemma offered_in_step:
  assumes "framed F" and "is_line l" and "NUL \<notin> set l"
    and "\<And>c. recvline c = l \<Longrightarrow> dispatch c = thenp (thenp clear_recvline (bindp (question z prompt) (\<lambda>y.
       if y then thenp (say ''YES!\<newline>'') k else thenp (say ''NO!\<newline>'') (ret ())))) (ret Continue) c"
    and "in_step x (\<lambda>s c. link x F s c \<and> orderly x s) m k (\<lambda>v _. Q v Continue)"
    and "\<And>s c. link x F s c \<Longrightarrow> Q None Continue s c" and "growing m" and "growing k"
  shows "in_step x (\<lambda>s c. link x F s c \<and> orderly x s)
     (bindp (ask (seat_no x) l) (\<lambda>y. if y then m else ret None)) (thenp listen_server dispatch) Q"
  unfolding ask_eq
proof (rule in_step_then [OF in_step_keep_left [OF tell_listen [OF assms(1-3)]]])
  let ?P = "\<lambda>s c. link x F s c \<and> orderly x s"
  let ?k = "bindp (question z prompt) (\<lambda>y. if y then thenp (say ''YES!\<newline>'') k else thenp (say ''NO!\<newline>'') (ret ()))"
  show "partial (orderly x) (tell (seat_no x) l) (\<lambda>_. orderly x)"
    by (rule tripleI) (auto intro: tell_orderly(1))
  have answer: "in_step x ?P (thenp (hear (seat_no x)) (bindp said_yes (\<lambda>y. if y then m else ret None))) ?k (\<lambda>v _. Q v Continue)"
    by (rule answer_keeping [OF assms(1) hear_orderly assms(5)])
      (intro in_step_ret growing_intros grows assms(6-8); simp add: assms(6))+
  show "in_step x (\<lambda>s c. (link x F s c \<and> recvline c = l) \<and> orderly x s)
      (thenp (hear (seat_no x)) (bindp said_yes (\<lambda>y. if y then m else ret None))) dispatch Q"
    by (rule in_step_right_eq [OF assms(4)], simp,
        rule in_step_right_ret, rule in_step_pre [where P' = ?P], unfold thenp_def [of clear_recvline],
        rule in_step_side_keeping [OF sideways_world(2)], rule answer) simp
qed (intro growing_intros grows growing_dispatch assms(7))+

subsection \<open>Gang and pong\<close>

lemma claim_lines:
  "is_line ''You can gang.\<newline>''" "NUL \<notin> set ''You can gang.\<newline>''" "is_line ''You can pong.\<newline>''" "NUL \<notin> set ''You can pong.\<newline>''"
  "is_line ''You can eat.\<newline>''" "NUL \<notin> set ''You can eat.\<newline>''"
  "is_line ''(Hu) You actually can hu already, proceed? [Y/n]\<newline>''" "NUL \<notin> set ''(Hu) You actually can hu already, proceed? [Y/n]\<newline>''"
  by (simp_all add: is_line_iff newline_def NUL_def MAXLINE_def del: newline_simps)

lemma gang_first:
  "\<not> strncmp_eq ''You can gang.\<newline>'' ''your turn\<newline>'' 10" "\<not> strncmp_eq ''You can gang.\<newline>'' ''(Discard) '' 6" "\<not> strncmp_eq ''You can gang.\<newline>'' ''(Announce) '' 11" "\<not> strncmp_eq ''You can gang.\<newline>'' ''You can pong.\<newline>'' 15" "strncmp_eq ''You can gang.\<newline>'' ''You can gang.\<newline>'' 15"
  by code_simp+

lemma pong_first:
  "\<not> strncmp_eq ''You can pong.\<newline>'' ''your turn\<newline>'' 10" "\<not> strncmp_eq ''You can pong.\<newline>'' ''(Discard) '' 6" "\<not> strncmp_eq ''You can pong.\<newline>'' ''(Announce) '' 11" "strncmp_eq ''You can pong.\<newline>'' ''You can pong.\<newline>'' 15"
  by code_simp+

lemma eat_first:
  "\<not> strncmp_eq ''You can eat.\<newline>'' ''your turn\<newline>'' 10" "\<not> strncmp_eq ''You can eat.\<newline>'' ''(Discard) '' 6" "\<not> strncmp_eq ''You can eat.\<newline>'' ''(Announce) '' 11" "\<not> strncmp_eq ''You can eat.\<newline>'' ''You can pong.\<newline>'' 15" "\<not> strncmp_eq ''You can eat.\<newline>'' ''You can gang.\<newline>'' 15"
  "strncmp_eq ''You can eat.\<newline>'' ''You can eat.\<newline>'' 13"
  by code_simp+

lemma hu_first:
  "\<not> strncmp_eq ''(Hu) You actually can hu already, proceed? [Y/n]\<newline>'' ''your turn\<newline>'' 10" "\<not> strncmp_eq ''(Hu) You actually can hu already, proceed? [Y/n]\<newline>'' ''(Discard) '' 6" "\<not> strncmp_eq ''(Hu) You actually can hu already, proceed? [Y/n]\<newline>'' ''(Announce) '' 11" "\<not> strncmp_eq ''(Hu) You actually can hu already, proceed? [Y/n]\<newline>'' ''You can pong.\<newline>'' 15" "\<not> strncmp_eq ''(Hu) You actually can hu already, proceed? [Y/n]\<newline>'' ''You can gang.\<newline>'' 15" "\<not> strncmp_eq ''(Hu) You actually can hu already, proceed? [Y/n]\<newline>'' ''You can eat.\<newline>'' 13" "\<not> strncmp_eq ''(Hu) You actually can hu already, proceed? [Y/n]\<newline>'' ''no one wants it.\<newline>'' 17" "\<not> strncmp_eq ''(Hu) You actually can hu already, proceed? [Y/n]\<newline>'' ''(Game) '' 7"
  "strncmp_eq ''(Hu) You actually can hu already, proceed? [Y/n]\<newline>'' ''(Hu) '' 5"
  by code_simp+

lemma claim_dispatch:
  "recvline c = ''You can gang.\<newline>'' \<Longrightarrow> dispatch c = thenp client_gang (ret Continue) c"
  "recvline c = ''You can pong.\<newline>'' \<Longrightarrow> dispatch c = thenp client_pong (ret Continue) c"
  "recvline c = ''You can eat.\<newline>'' \<Longrightarrow> dispatch c = thenp client_eat (ret Continue) c"
  "recvline c = ''(Hu) You actually can hu already, proceed? [Y/n]\<newline>'' \<Longrightarrow> dispatch c = on_hu c"
  by (simp_all only: dispatch_def bindp.simps getp.simps gang_first pong_first eat_first hu_first if_True if_False prod.case sum.case)

text \<open>What the server has to find in the hand, and what it does at a yes.\<close>

lemma possible_in_step:
  assumes "in_step x P m k Q"
  shows "in_step x (\<lambda>s c. P s c \<and> f (decks (players s p)) (normal_capacity (players s p)) (discarded_mj s) = Some 1)
     (bindp (possible f p) (\<lambda>g. if g = 1 then m else m')) k Q"
  by (rule in_step_left [where R = "\<lambda>g s c. P s c \<and> g = 1"])
    (auto simp: triple_def possible_run intro: in_step_pure [where b = "_ = 1"] in_step_pre [OF assms])

lemma growing_announce [grows]: "growing (announce p what)"
  unfolding announce_def by (rule grows)

lemma growing_claim_turn [grows]: "growing (claim_turn (\<lambda>p. ret (0, p)) q)"
  unfolding claim_turn_def by (intro growing_intros grows growing_case_prod)

lemma gang_in_step:
  assumes "own_lines x" and "n \<le> 16"
  shows "in_step x (\<lambda>s c. link x (claiming x n gang_tiles client_gang_tiles) s c \<and> orderly x s)
     (bindp (getp discarded_mj) (\<lambda>d. thenp (update_player (seat_no x) (gang_tiles d)) (thenp (announce (seat_no x) '' ganged it\<newline>'')
       (thenp clear_discarded (thenp (draw (seat_no x)) (claim_turn (\<lambda>p. ret (0, p)) (seat_no x)))))))
     (bindp (getp board) (\<lambda>d. thenp (update_me (client_gang_tiles d)) (thenp clear_board (thenp client_draw hu_or_discard))))
     (\<lambda>v _. claimed_by x (n - 3) v)"
  by (intro meld_in_step [where f = gang_tiles and g = client_gang_tiles, OF client_gang_face same_seat_meld(1) takes_three(1)] announce_in_step [OF assms(1) framed_playing]
      cleared_in_step in_step_then [OF draw_in_step] claim_turn_in_step assms(1) growing_intros grows)
    (use assms(2) in simp)

lemma pong_in_step:
  assumes "own_lines x" and "n \<le> 16"
  shows "in_step x (\<lambda>s c. link x (claiming x n pong_tiles client_pong_tiles) s c \<and> orderly x s)
     (bindp (getp discarded_mj) (\<lambda>d. thenp (update_player (seat_no x) (pong_tiles d)) (thenp (announce (seat_no x) '' ponged it\<newline>'')
       (thenp clear_discarded (claim_turn (\<lambda>p. ret (0, p)) (seat_no x))))))
     (bindp (getp board) (\<lambda>d. thenp (update_me (client_pong_tiles d)) (thenp clear_board hu_or_discard)))
     (\<lambda>v _. claimed_by x (n - 3) v)"
  by (intro meld_in_step [where f = pong_tiles and g = client_pong_tiles, OF client_pong_face same_seat_meld(2) takes_three(2)] announce_in_step [OF assms(1) framed_playing]
      cleared_in_step claim_turn_in_step assms(1) growing_intros grows)
    (use assms(2) in simp)

subsection \<open>Eating\<close>

text \<open>
  What the client sends are lines without a percent sign: the text typed for an eat is the format of the message.
\<close>

definition plain :: "session \<Rightarrow> bool" where
  "plain x \<longleftrightarrow> (\<forall>m \<in> set (client_log x). is_line (snd m) \<and> CHR ''%'' \<notin> set (snd m))"

lemma format_plain: "format_only l = Some m \<Longrightarrow> CHR ''%'' \<notin> set m \<Longrightarrow> m = l"
proof (induction l arbitrary: m rule: format_only.induct)
  case (2 c r)
  have "c \<noteq> CHR ''%''"
  proof
    assume "c = CHR ''%''"
    then have "CHR ''%'' \<in> set m" using 2(3) by (auto split: list.splits if_splits)
    then show False using 2(4) by simp
  qed
  then show ?case using 2(2) [OF \<open>c \<noteq> CHR ''%''\<close>] 2(3,4) by auto
qed simp

lemma format_chars: "format_only l = Some m \<Longrightarrow> set m \<subseteq> set l \<and> length m \<le> length l"
proof (induction l arbitrary: m rule: format_only.induct)
  case (2 c r)
  show ?case
  proof (cases "c = CHR ''%''")
    case True
    then obtain r' t where "r = CHR ''%'' # r'" "format_only r' = Some t" "m = CHR ''%'' # t"
      using 2(3) by (auto split: list.splits if_splits)
    then show ?thesis using 2(1) [OF True] True by fastforce
  next
    case False
    then obtain t where "format_only r = Some t" "m = c # t" using 2(3) by auto
    then show ?thesis using 2(2) [OF False] by auto
  qed
qed simp

lemma format_sent:
  assumes "format_only (cstr a) = Some m" and "length a < MAXLINE"
  shows "vsnprintf_line m = m"
proof -
  have c: "NUL \<notin> set (cstr a)" "length (cstr a) \<le> length a"
    by (auto simp: cstr_def dest: set_takeWhileD) (simp add: length_takeWhile_le)
  then have "NUL \<notin> set m" "length m < MAXLINE" using format_chars [OF assms(1)] assms(2) by auto
  then show ?thesis by (intro vsnprintf_short) auto
qed

text \<open>The typed line is heard as it was typed.\<close>

lemma typed_in_step:
  assumes "plain x" and "framed F" and "format_only (cstr a) = Some m" and "a = b @ [newline]" and "newline \<notin> set b" and "length a < MAXLINE"
  shows "in_step x (\<lambda>s c. link x F s c \<and> orderly x s) (hear (seat_no x)) (say m)
     (\<lambda>_ _ s c. (link x F s c \<and> recvline s = a) \<and> orderly x s)"
proof (rule in_stepI)
  fix s c v w t d
  assume P: "link x F s c \<and> orderly x s" and run: "hear (seat_no x) s = (Inr v, t)" "say m c = (Inr w, d)"
    and out: "\<exists>log. server_log x = sent t @ log" "\<exists>log. client_log x = sent d @ log"
  have send: "client_write_message_wait_ack (player_fd (me c)) m c = (Inr w, d)" using run(2) by (simp add: say_def my_def)
  have "(player_fd (me c), m) \<in> set (client_log x)"
    using client_chan.send_Inr [OF send] out(2) format_sent [OF assms(3,6)] by auto
  then have m: "is_line m" "CHR ''%'' \<notin> set m" using assms(1) by (auto simp: plain_def)
  have eq: "m = cstr a" by (rule format_plain [OF assms(3) m(2)])
  then have "NUL \<notin> set m" by (auto simp: cstr_def dest: set_takeWhileD)
  moreover have "newline \<in> set (cstr a)" using m(1) eq by (auto simp: is_line_def)
  then have "cstr a = a"
    using assms(4,5) by (auto simp: cstr_def takeWhile_append split: if_splits dest!: set_takeWhileD)
  ultimately show "(link x F t d \<and> recvline t = a) \<and> orderly x t"
    using in_stepD [OF in_step_keep_left [OF hear_say [OF assms(2) m(1)] hear_orderly] P run out] eq by simp
qed

text \<open>The two indices: where the client has more than it sent, the server gives up.\<close>

lemma same_indices:
  assumes "read_two a = Some (i, j)" and "scan_indices a e = Some e'" and "eat_temp deck i j d = Some t"
  shows "e' = (i, j)"
  using assms by (cases e) (auto simp: read_two_def scan_indices_def eat_temp_def at_def split: scan.splits)

definition eating :: "session \<Rightarrow> int \<Rightarrow> server \<Rightarrow> player \<Rightarrow> mj \<Rightarrow> bool" where
  "eating x n s q b \<longleftrightarrow> playing x n s q b \<and> kind b = kind (discarded_mj s)"

text \<open>At the moment of the choice.\<close>

definition picking :: "session \<Rightarrow> int \<Rightarrow> player \<Rightarrow> mj \<Rightarrow> server \<Rightarrow> player \<Rightarrow> mj \<Rightarrow> bool" where
  "picking x n q d s q' b \<longleftrightarrow> eating x n s q' b \<and> players s (seat_no x) = q \<and> discarded_mj s = d"

lemma framed_eating: "framed (eating x n)" "framed (picking x n q d)"
  by (auto simp: framed_def eating_def picking_def playing_def dest: same_game)

lemma in_step_side_keep_then:
  "sideways k \<Longrightarrow> in_step x (\<lambda>s c. link x F s c \<and> J s) m k' Q \<Longrightarrow> in_step x (\<lambda>s c. link x F s c \<and> J s) m (thenp k k') Q"
  unfolding thenp_def by (rule in_step_side_keeping)

lemma eaten_in_step:
  assumes "eat_temp (decks q) i j d = Some t"
  shows "in_step x (\<lambda>s c. link x (picking x n q d) s c \<and> orderly x s) (update_player (seat_no x) (eat_tiles i j t))
     (bindp (getp board) (\<lambda>b. update_me (client_eat_tiles i j b))) (\<lambda>_ _ s c. link x (playing x n) s c \<and> orderly x s)"
proof (rule in_step_right_get, rule update_in_step [where n = n])
  fix b s c q'
  assume P: "(link x (picking x n q d) s c \<and> orderly x s) \<and> b = board c" and q': "eat_tiles i j t (players s (seat_no x)) = Some q'"
  have M: "mirrors q (me c)" "kind b = kind d" "normal_capacity q = n" "players s (seat_no x) = q"
    using P by (auto simp: picking_def eating_def playing_def)
  have g: "client_eat_tiles i j d q = Some q'" using q' assms M(4) by (simp add: client_eat_is)
  obtain c' where "client_eat_tiles i j b (me c) = Some c'" "mirrors q' c'"
    using mirrors_target [where f = "client_eat_tiles i j", OF M(1,2) client_eat_face g] .
  then show "player_fd q' = player_fd (players s (seat_no x)) \<and> normal_capacity q' = n \<and>
      (\<exists>c'. client_eat_tiles i j b (me c) = Some c' \<and> mirrors q' c')"
    using eat_tiles_fd q' same_capacityD [OF eat_tiles_capacity] M(3,4) by metis
next
  show "same_seat (client_eat_tiles i j b)" for b
    by (auto simp: same_seat_def client_eat_is bind_eq_Some_conv dest: eat_tiles_fd)
qed (auto simp: picking_def eating_def)

lemma eat_lines:
  "is_line ''eatable.\<newline>''" "NUL \<notin> set ''eatable.\<newline>''" "is_line ''invalid choice.\<newline>''" "NUL \<notin> set ''invalid choice.\<newline>''"
  "is_line ''Type which 2 of the mjs you want to eat with: \<newline>''" "NUL \<notin> set ''Type which 2 of the mjs you want to eat with: \<newline>''"
  by (simp_all add: is_line_iff newline_def NUL_def MAXLINE_def del: newline_simps)

lemma eat_answers:
  "\<not> strncmp_eq ''invalid choice.\<newline>'' ''eatable.\<newline>'' 10"
  "strncmp_eq ''Type which 2 of the mjs you want to eat with: \<newline>'' ''Type which 2 of the mjs you want to eat with: \<newline>'' 47"
  by code_simp+

lemma tell_keeps_order: "partial (orderly x) (tell p l) (\<lambda>_. orderly x)"
  by (rule tripleI) (auto intro: tell_orderly(1))

text \<open>The parts of one round of the two loops: the server judges the choice, the client hears its verdict.\<close>

definition judge :: "(server, unit) prog \<Rightarrow> int \<Rightarrow> (server, unit) prog" where
  "judge again p =
     bindp (getp recvline) (\<lambda>l.
     bindp (liftp (read_two l)) (\<lambda>(e1, e2).
     thenp clear_recvline (
     bindp (player_of p) (\<lambda>q.
     bindp (getp discarded_mj) (\<lambda>d.
     bindp (liftp (eat_temp (decks q) e1 e2 d)) (\<lambda>t.
     if eatable t then thenp (tell p ''eatable.\<newline>'') (update_player p (eat_tiles e1 e2 t))
     else thenp (tell p ''invalid choice.\<newline>'') again))))))"

definition verdict :: "(client, unit) prog \<Rightarrow> int \<times> int \<Rightarrow> (client, unit) prog" where
  "verdict retry e =
     thenp listen_server (
     bindp (recv_is ''eatable.\<newline>'' 10) (\<lambda>ok.
     if ok then bindp (getp board) (\<lambda>d. update_me (client_eat_tiles (fst e) (snd e) d))
     else bindp (getp recvline) (\<lambda>l. thenp (printf (cstr l)) (thenp clear_recvline retry))))"

definition pick :: "(string \<Rightarrow> int \<times> int \<Rightarrow> (client, unit) prog) \<Rightarrow> string \<Rightarrow> int \<times> int \<Rightarrow> (client, unit) prog" where
  "pick retry a e =
     bindp (readline_stdin 64) (\<lambda>(n, b).
     if n = 0 then pressed_ctrl_d
     else
       let answer = (if n < 0 then b @ drop (length b) a else b) in
       bindp (liftp (scan_indices answer e)) (\<lambda>e.
       bindp (liftp (format_only (cstr answer))) (\<lambda>msg.
       thenp (say msg) (verdict (retry answer e) e))))"

lemma eat_turn_parts:
  "eat_turn again p = thenp (tell p ''Type which 2 of the mjs you want to eat with: \<newline>'') (thenp (hear p) (judge again p))"
  by (simp add: eat_turn_def judge_def)

lemma client_eat_parts:
  "client_eat_loop (Suc k) a e = thenp listen_server (
     bindp (recv_is ''Type which 2 of the mjs you want to eat with: \<newline>'' 47) (\<lambda>asked.
     if asked then bindp (getp recvline) (\<lambda>l. thenp (printf (cstr l)) (thenp clear_recvline (pick (client_eat_loop k) a e)))
     else client_eat_loop k a e))"
proof -
  have eq: "bindp (getp board) (\<lambda>d. if ok then m d else k) = (if ok then bindp (getp board) m else k)"
    for ok and m :: "mj \<Rightarrow> (client, unit) prog" and k
    by (rule ext) simp
  show ?thesis unfolding client_eat_loop_Suc pick_def verdict_def eq ..
qed

lemma growing_parts [grows]:
  "growing again \<Longrightarrow> growing (judge again p)" "growing retry \<Longrightarrow> growing (verdict retry e)"
  unfolding judge_def verdict_def by (intro growing_intros grows; assumption)+

lemma growing_pick [grows]: "(\<And>a e. growing (loop a e)) \<Longrightarrow> growing (pick loop a e)"
  unfolding pick_def Let_def by (intro growing_intros grows; assumption)

lemma choice_in_step:
  fixes again :: "(server, unit) prog" and retry :: "(client, unit) prog"
  assumes "scan_indices a e0 = Some e"
    and "in_step x (\<lambda>s c. link x (eating x n) s c \<and> orderly x s) again retry (\<lambda>_ _ s c. link x (playing x n) s c \<and> orderly x s)"
    and "growing again" and "growing retry"
  shows "in_step x (\<lambda>s c. (link x (eating x n) s c \<and> recvline s = a) \<and> orderly x s) (judge again (seat_no x)) (verdict retry e)
     (\<lambda>_ _ s c. link x (playing x n) s c \<and> orderly x s)" (is "in_step x _ _ _ ?Q")
  unfolding judge_def
proof (rule in_step_left_get, rule in_step_left_lift)
  fix l ij assume ij: "read_two l = Some ij"
  let ?P = "\<lambda>s c. link x (eating x n) s c \<and> orderly x s"
  let ?rest = "\<lambda>i j. bindp (player_of (seat_no x)) (\<lambda>q. bindp (getp discarded_mj) (\<lambda>d. bindp (liftp (eat_temp (decks q) i j d)) (\<lambda>t.
     if eatable t then thenp (tell (seat_no x) ''eatable.\<newline>'') (update_player (seat_no x) (eat_tiles i j t))
     else thenp (tell (seat_no x) ''invalid choice.\<newline>'') again)))"
  obtain i j where ij2: "ij = (i, j)" by (cases ij)
  have judged: "in_step x (\<lambda>s c. (?P s c \<and> q = players s (seat_no x)) \<and> d = discarded_mj s)
     (if eatable t then thenp (tell (seat_no x) ''eatable.\<newline>'') (update_player (seat_no x) (eat_tiles i j t))
      else thenp (tell (seat_no x) ''invalid choice.\<newline>'') again) (verdict retry e) ?Q"
    if l: "l = a" and t: "eat_temp (decks q) i j d = Some t" for q d t
  proof (rule in_step_pre [where P' = "\<lambda>s c. link x (picking x n q d) s c \<and> orderly x s"])
    have e: "e = (i, j)" using same_indices [of a i j e0 e] ij ij2 l t assms(1) by simp
    have no: "in_step x (\<lambda>s c. link x (picking x n q d) s c \<and> orderly x s) again
        (bindp (getp recvline) (\<lambda>l. thenp (printf (cstr l)) (thenp clear_recvline retry))) ?Q"
      by (rule in_step_pre [where P' = ?P], intro in_step_side_keeping in_step_side_keep_then side assms(2)) (simp add: picking_def)
    show "in_step x (\<lambda>s c. link x (picking x n q d) s c \<and> orderly x s)
       (if eatable t then thenp (tell (seat_no x) ''eatable.\<newline>'') (update_player (seat_no x) (eat_tiles i j t))
        else thenp (tell (seat_no x) ''invalid choice.\<newline>'') again) (verdict retry e) ?Q"
      unfolding verdict_def e fst_conv snd_conv
      by (intro offer_keeping framed_eating tell_keeps_order eat_lines eat_answers no growing_intros grows assms(3,4)
          eaten_in_step [OF t])
  qed (simp add: picking_def)
  have server: "in_step x (\<lambda>s c. ?P s c \<and> l = a) (thenp clear_recvline (?rest i j)) (verdict retry e) ?Q"
  proof (rule in_step_pure [where b = "l = a"])
    assume l: "l = a"
    have rest: "in_step x ?P (?rest i j) (verdict retry e) ?Q"
      unfolding player_of_def by (rule in_step_left_get, rule in_step_left_get, rule in_step_left_lift, rule judged [OF l])
    show ?thesis
      unfolding thenp_def [of "clear_recvline :: (server, unit) prog"]
    proof (rule in_step_left [where R = "\<lambda>_. ?P"])
      show "partial (\<lambda>s. ?P s c \<and> l = a) clear_recvline (\<lambda>_ s. ?P s c)" for c
        by (rule tripleI) (auto simp: clear_recvline_def set_recvline_def orderly_def eating_def playing_def intro: linked_server)
    qed (rule rest)
  qed simp
  show "in_step x (\<lambda>s c. ((link x (eating x n) s c \<and> recvline s = a) \<and> orderly x s) \<and> l = recvline s)
     (case ij of (e1, e2) \<Rightarrow> thenp clear_recvline (?rest e1 e2)) (verdict retry e) ?Q"
    unfolding ij2 prod.case by (rule in_step_pre [OF server]) auto
qed

text \<open>A line of the terminal.\<close>

definition typed_line :: "int \<Rightarrow> string \<Rightarrow> bool" where
  "typed_line n a \<longleftrightarrow> 0 < n \<and> (\<exists>b. a = b @ [newline] \<and> newline \<notin> set b) \<and> length a < MAXLINE"

lemma stdin_typed:
  assumes "tidy c" and "readline_stdin 64 c = (Inr (n, a), d)" and "n \<noteq> 0"
  shows "typed_line n a"
proof -
  have r: "readline 0 64 c = ((n, a), d)" using assms(2) by (auto simp: readline_stdin_def split: prod.splits)
  have e: "read_cnt c \<le> 0" "\<forall>e \<in> set (net c 0). line_event 64 e" using assms(1) by (simp_all add: tidy_def)
  obtain b where "n = int (length b) + 1" "a = b @ [newline]" "newline \<notin> set b" "length b + 1 < 64"
    by (rule line_read_text [OF e _ _ r assms(3)]) (simp_all add: MAXLINE_def)
  then show ?thesis by (simp add: typed_line_def MAXLINE_def)
qed

text \<open>One round of question, choice and verdict; the loop is rounds of this.\<close>

lemma pick_in_step:
  fixes again :: "(server, unit) prog" and retry :: "string \<Rightarrow> int \<times> int \<Rightarrow> (client, unit) prog"
  assumes "plain x" and "\<And>a e. in_step x (\<lambda>s c. link x (eating x n) s c \<and> orderly x s) again (retry a e)
       (\<lambda>_ _ s c. link x (playing x n) s c \<and> orderly x s)"
    and "growing again" and "\<And>a e. growing (retry a e)"
  shows "in_step x (\<lambda>s c. link x (eating x n) s c \<and> orderly x s)
     (thenp (hear (seat_no x)) (judge again (seat_no x))) (pick retry a e) (\<lambda>_ _ s c. link x (playing x n) s c \<and> orderly x s)"
  unfolding pick_def
proof (rule in_step_right)
  let ?P = "\<lambda>s c. link x (eating x n) s c \<and> orderly x s"
  let ?R = "\<lambda>(i, b) s c. i = 0 \<or> typed_line i b \<and> ?P s c"
  let ?Q = "\<lambda>_ _ s c. link x (playing x n) s c \<and> orderly x s"
  let ?m = "thenp (hear (seat_no x)) (judge again (seat_no x))"
  let ?k = "\<lambda>i b. let answer = (if i < 0 then b @ drop (length b) a else b) in bindp (liftp (scan_indices answer e)) (\<lambda>e.
      bindp (liftp (format_only (cstr answer))) (\<lambda>msg. thenp (say msg) (verdict (retry answer e) e)))"
  show "partial (?P s) (readline_stdin 64) (\<lambda>b. ?R b s)" for s
  proof (rule tripleI)
    fix c nb d assume c: "?P s c" and run: "readline_stdin 64 c = (Inr nb, d)"
    obtain i b where ib: "nb = (i, b)" by (cases nb)
    have "typed_line i b \<and> ?P s d" if "i \<noteq> 0"
      using stdin_typed [of c i b d] readline_stdin_aside [of c i b d] linked_aside [of x s c d] c run that
      by (simp add: ib linked_def aside_def)
    then show "?R nb s d" by (auto simp: ib)
  qed simp
  have typed: "in_step x ?P ?m (?k i b) ?Q" if t: "typed_line i b" for i b
  proof -
    obtain b' where b: "b = b' @ [newline]" "newline \<notin> set b'" "length b < MAXLINE" "\<not> i < 0"
      using t by (auto simp: typed_line_def)
    show ?thesis
      unfolding if_not_P [OF b(4)] Let_def
      by (rule in_step_right_lift, rule in_step_right_lift,
          rule in_step_then [OF typed_in_step [OF assms(1) framed_eating(1) _ b(1-3)] choice_in_step [OF _ assms(2)]],
          assumption, assumption, (intro grows assms(3,4))+)
  qed
  have "in_step x (?R (i, b)) ?m (if i = 0 then pressed_ctrl_d else ?k i b) ?Q" for i b
  proof (cases "i = 0")
    case True
    then show ?thesis by (auto simp: in_step_def pressed_ctrl_d_def leave_def my_def printf_def split: prod.splits)
  next
    case False
    show ?thesis
      unfolding if_not_P [OF False]
    proof (rule in_step_pure)
      assume t: "typed_line i b"
      show "in_step x (?R (i, b)) ?m (?k i b) ?Q" by (rule in_step_pre [OF typed [OF t]]) (use False in simp)
    qed (use False in simp)
  qed
  then show "in_step x (?R nb) ?m (case nb of (n, b) \<Rightarrow> if n = 0 then pressed_ctrl_d else ?k n b) ?Q" for nb
    by (cases nb) simp
qed

lemma growing_server_eat_loop [grows]: "growing (eat_loop k p)"
proof (induction k)
  case (Suc k)
  have eq: "eat_loop (Suc k) p = eat_turn (eat_loop k p) p" by (rule ext) simp
  show ?case unfolding eq eat_turn_parts by (intro growing_intros grows Suc)
qed (auto intro!: keepsI)

lemma eat_loop_in_step:
  assumes "plain x"
  shows "in_step x (\<lambda>s c. link x (eating x n) s c \<and> orderly x s) (eat_loop k (seat_no x)) (client_eat_loop k' a e)
     (\<lambda>_ _ s c. link x (playing x n) s c \<and> orderly x s)"
proof (induction k arbitrary: k' a e)
  case 0
  show ?case by (simp add: in_step_def)
next
  case (Suc k)
  let ?ask = "''Type which 2 of the mjs you want to eat with: \<newline>''"
  let ?P = "\<lambda>s c. link x (eating x n) s c \<and> orderly x s"
  have eq: "eat_loop (Suc k) (seat_no x) = eat_turn (eat_loop k (seat_no x)) (seat_no x)" by (rule ext) simp
  show ?case
  proof (cases k')
    case 0
    then show ?thesis by (simp add: in_step_def)
  next
    case (Suc j)
    let ?k = "bindp (getp recvline) (\<lambda>l. thenp (printf (cstr l)) (thenp clear_recvline (pick (client_eat_loop j) a e)))"
    have pick: "in_step x ?P (thenp (hear (seat_no x)) (judge (eat_loop k (seat_no x)) (seat_no x))) ?k
        (\<lambda>_ _ s c. link x (playing x n) s c \<and> orderly x s)"
      by (intro in_step_side_keeping in_step_side_keep_then side pick_in_step assms Suc.IH grows)
    show ?thesis
      unfolding eq eat_turn_parts Suc client_eat_parts recv_is_def
    proof (rule in_step_then [OF in_step_keep_left [OF tell_listen [OF framed_eating(1) eat_lines(5,6)] tell_keeps_order]], rule in_step_right_get)
      fix asked
      show "in_step x (\<lambda>s c. ((link x (eating x n) s c \<and> recvline c = ?ask) \<and> orderly x s) \<and> asked = strncmp_eq (recvline c) ?ask 47)
         (thenp (hear (seat_no x)) (judge (eat_loop k (seat_no x)) (seat_no x)))
         (if asked then ?k else client_eat_loop j a e) (\<lambda>_ _ s c. link x (playing x n) s c \<and> orderly x s)"
      proof (rule in_step_pure [where b = asked])
        assume asked
        then show ?thesis unfolding if_P [OF \<open>asked\<close>] by (intro in_step_pre [OF pick]) simp
      qed (use eat_answers(2) in auto)
    qed (intro growing_intros grows)+
  qed
qed

lemma leave_in_step:
  "in_step x (\<lambda>s c. link x (playing x n) s c \<and> orderly x s) (update_player (seat_no x) leave_three) (update_me client_leave_three)
     (\<lambda>_ _ s c. link x (playing x (n - 3)) s c \<and> orderly x s)"
proof (rule update_in_step [where n = n])
  fix s c q assume P: "link x (playing x n) s c \<and> orderly x s" and q: "leave_three (players s (seat_no x)) = Some q"
  have M: "mirrors (players s (seat_no x)) (me c)" "normal_capacity (players s (seat_no x)) = n" using P by (simp_all add: playing_def)
  obtain c' where "leave_three (me c) = Some c'" "mirrors q c'"
    using mirrors_run [where f = leave_three, OF M(1) leave_three_face q] .
  moreover have "player_fd q = player_fd (players s (seat_no x))"
    using q by (auto simp: leave_three_def Let_def sort_deck_def bind_eq_Some_conv)
  ultimately show "player_fd q = player_fd (players s (seat_no x)) \<and> normal_capacity q = n - 3 \<and>
      (\<exists>c'. client_leave_three (me c) = Some c' \<and> mirrors q c')"
    using takes_three(3) M(2) q by (simp add: takes_three_def client_leave_is)
qed (auto simp: same_seat_def client_leave_is leave_three_def Let_def sort_deck_def bind_eq_Some_conv)

lemma eat_in_step:
  assumes "own_lines x" and "plain x" and "n \<le> 16"
  shows "in_step x (\<lambda>s c. link x (eating x n) s c \<and> orderly x s)
     (bindp (getp (\<lambda>s. unread (player_fd (players s (seat_no x))) s)) (\<lambda>k. thenp (eat_loop (Suc k) (seat_no x)) (
        thenp (update_player (seat_no x) leave_three) (thenp (announce (seat_no x) '' ate it\<newline>'') (
        thenp clear_discarded (claim_turn (\<lambda>p. ret (0, p)) (seat_no x)))))))
     (thenp (show_hand False True) (bindp both_unread (\<lambda>k. thenp (client_eat_loop (Suc k) [] (-1, -1)) (
        thenp (update_me client_leave_three) hu_or_discard))))
     (\<lambda>v _. claimed_by x (n - 3) v)"
proof -
  have rest: "in_step x (\<lambda>s c. link x (eating x n) s c \<and> orderly x s)
     (thenp (eat_loop (Suc k) (seat_no x)) (thenp (update_player (seat_no x) leave_three) (thenp (announce (seat_no x) '' ate it\<newline>'') (
        thenp clear_discarded (claim_turn (\<lambda>p. ret (0, p)) (seat_no x))))))
     (thenp (client_eat_loop (Suc j) [] (-1, -1)) (thenp (update_me client_leave_three) hu_or_discard)) (\<lambda>v _. claimed_by x (n - 3) v)" for k j
    by (intro in_step_then [OF eat_loop_in_step] in_step_then [OF leave_in_step] announce_in_step [OF assms(1) framed_playing]
        cleared_in_step claim_turn_in_step assms growing_intros grows)
      (use assms(3) in simp)
  show ?thesis
    by (intro in_step_side_keep_then in_step_side_keeping side in_step_left_get in_step_pre [OF rest]) simp
qed

subsection \<open>The four claims\<close>

text \<open>What a claim ends in (\<open>taken\<close> when it is made), and where it starts: the hand can make it.\<close>

definition decided :: "session \<Rightarrow> int \<Rightarrow> ((int \<times> int) option \<Rightarrow> server \<Rightarrow> client \<Rightarrow> bool) \<Rightarrow>
    (int \<times> int) option \<Rightarrow> outcome \<Rightarrow> server \<Rightarrow> client \<Rightarrow> bool" where
  "decided x n taken v r s c \<longleftrightarrow> r = Continue \<and> (v = None \<and> link x (playing x n) s c \<or> taken v s c)"

definition able :: "session \<Rightarrow> (mj list \<Rightarrow> int \<Rightarrow> mj \<Rightarrow> int option) \<Rightarrow> server \<Rightarrow> bool" where
  "able x f s \<longleftrightarrow> hand_ok (players s (seat_no x)) \<and> playable (discarded_mj s) \<and>
     f (decks (players s (seat_no x))) (normal_capacity (players s (seat_no x))) (discarded_mj s) = Some 1"

lemma offer_claim:
  assumes "framed F" and "is_line l" and "NUL \<notin> set l"
    and "\<And>c. recvline c = l \<Longrightarrow> dispatch c = thenp (thenp clear_recvline (bindp (question z prompt) (\<lambda>y.
       if y then thenp (say ''YES!\<newline>'') k else thenp (say ''NO!\<newline>'') (ret ())))) (ret Continue) c"
    and "in_step x (\<lambda>s c. link x F s c \<and> orderly x s) m k (\<lambda>v _. taken v)"
    and "\<And>s q b. F s q b \<Longrightarrow> playing x n s q b" and "growing m" and "growing k"
    and "\<And>s c. link x (eating x n) s c \<Longrightarrow> able x f s \<Longrightarrow> F s (me c) (board c)"
  shows "in_step x (\<lambda>s c. link x (eating x n) s c \<and> orderly x s \<and> able x f s)
     (bindp (possible f (seat_no x)) (\<lambda>g. if g = 1 then bindp (ask (seat_no x) l) (\<lambda>y. if y then m else ret None) else ret None))
     (thenp listen_server dispatch) (decided x n taken)"
proof (rule in_step_pre [OF possible_in_step])
  show "in_step x (\<lambda>s c. link x F s c \<and> orderly x s) (bindp (ask (seat_no x) l) (\<lambda>y. if y then m else ret None))
     (thenp listen_server dispatch) (decided x n taken)"
    by (rule offered_in_step [OF assms(1-4) in_step_post [OF assms(5)] _ assms(7,8)]) (use assms(6) in \<open>auto simp: decided_def\<close>)
qed (use assms(9) in \<open>auto simp: able_def\<close>)

text \<open>The win, which leaves the hands as they are.\<close>

definition won_by :: "session \<Rightarrow> int \<Rightarrow> int \<Rightarrow> (int \<times> int) option \<Rightarrow> server \<Rightarrow> client \<Rightarrow> bool" where
  "won_by x n q v s c \<longleftrightarrow> v = Some (1, q) \<and> winner s = seat_no x \<and> link x (playing x n) s c"

lemma on_hu_parts:
  "on_hu = thenp (thenp clear_recvline (bindp (question False ''You actually can hu already, proceed? [Y/n]\<newline>'') (\<lambda>y.
     if y then thenp (say ''YES!\<newline>'') (ret ()) else thenp (say ''NO!\<newline>'') (ret ())))) (ret Continue)"
  by (rule ext) (simp add: on_hu_def split: prod.splits sum.splits)

lemma hu_in_step:
  "in_step x (\<lambda>s c. link x (eating x n) s c \<and> orderly x s)
     (thenp (modp (\<lambda>s. s\<lparr>winner := seat_no x\<rparr>)) (ret (Some (1, q)))) (ret ()) (\<lambda>v _. won_by x n q v)"
  unfolding thenp_def
  by (rule in_step_left [where R = "\<lambda>_ s c. link x (playing x n) s c \<and> winner s = seat_no x"])
    (auto simp: triple_def eating_def playing_def won_by_def intro: linked_server in_step_ret)

lemma hu_claim_in_step:
  assumes "seat_no x = seat_after q k"
  shows "in_step x (\<lambda>s c. link x (eating x n) s c \<and> orderly x s \<and> able x is_add_hu_possible s)
     (try_hu q k) (thenp listen_server dispatch) (decided x n (won_by x n q))"
  unfolding try_hu_def assms [symmetric]
  by (rule offer_claim [OF framed_eating(1) claim_lines(7,8) claim_dispatch(4) [unfolded on_hu_parts] hu_in_step])
    ((intro growing_intros grows growing_modp)?; auto simp: eating_def)+

lemma claim_in_step:
  assumes "own_lines x" and "plain x" and "n \<le> 16" and "seat_no x = seat_after q k"
    and "claim = try_gang (\<lambda>p. ret (0, p)) q k \<and> f = is_gang_possible \<or> claim = try_pong (\<lambda>p. ret (0, p)) q k \<and> f = is_pong_possible \<or>
      claim = try_eat (\<lambda>p. ret (0, p)) q \<and> k = 1 \<and> f = is_eat_possible"
  shows "in_step x (\<lambda>s c. link x (eating x n) s c \<and> orderly x s \<and> able x f s) claim (thenp listen_server dispatch)
     (decided x n (claimed_by x (n - 3)))"
  using assms(5)
proof (elim disjE conjE)
  assume c: "claim = try_gang (\<lambda>p. ret (0, p)) q k" "f = is_gang_possible"
  show ?thesis
    unfolding c try_gang_def assms(4) [symmetric] Let_def
    by (rule offer_claim [OF framed_claiming claim_lines(1,2) claim_dispatch(1) [unfolded client_gang_def] gang_in_step [OF assms(1,3)]])
      ((intro growing_intros grows)?; auto simp: claiming_def eating_def able_def gang_is_client_gang)+
next
  assume c: "claim = try_pong (\<lambda>p. ret (0, p)) q k" "f = is_pong_possible"
  show ?thesis
    unfolding c try_pong_def assms(4) [symmetric] Let_def
    by (rule offer_claim [OF framed_claiming claim_lines(3,4) claim_dispatch(2) [unfolded client_pong_def] pong_in_step [OF assms(1,3)]])
      ((intro growing_intros grows)?; auto simp: claiming_def eating_def able_def pong_is_client_pong)+
next
  assume c: "claim = try_eat (\<lambda>p. ret (0, p)) q" "k = 1" "f = is_eat_possible"
  show ?thesis
    unfolding c try_eat_def assms(4) [unfolded c(2), symmetric] Let_def
    by (rule offer_claim [OF framed_eating(1) claim_lines(5,6) claim_dispatch(3) [unfolded client_eat_def] eat_in_step [OF assms(1-3)]])
      ((intro growing_intros grows)?; auto simp: eating_def)+
qed

subsection \<open>Properties\<close>

text \<open>
  Property C7: server and client stay in step through a claim. The server offers a win, a gang, a pong or an eat
  that the hand of a player can make, and the player's client hears the offer and handles it, each over a
  stream that delivers what the other writes; all players answer a line at a time, and what this one types is
  sent without a percent sign. Whatever is typed, when both return (the server at the point where it turns to the
  reactions to the next discard), the client has read just what was written to it, holds the hand, flower count and
  door that the server keeps for it, and goes on to the next message. Either the claim was not made and the
  number of tiles in hand is as before; or the server has named the player the winner; or the meld has left both
  hands, and the player has won with the rest or both have the same new tile on the board.
\<close>

theorem claims_keep_step:
  assumes "claim = try_hu q k \<and> f = is_add_hu_possible \<or>
      claim = try_gang (\<lambda>p. ret (0, p)) q k \<and> f = is_gang_possible \<or> claim = try_pong (\<lambda>p. ret (0, p)) q k \<and> f = is_pong_possible \<or>
      claim = try_eat (\<lambda>p. ret (0, p)) q \<and> k = 1 \<and> f = is_eat_possible"
    and "p = seat_after q k"
    and "claim s = (Inr v, t)" and "thenp listen_server dispatch c = (Inr r, d)"
    and "f (decks (players s p)) (normal_capacity (players s p)) (discarded_mj s) = Some 1"
    and "hand_ok (players s p)" and "playable (discarded_mj s)" and "\<forall>m \<in> set (shuffled_mjs s). good m"
    and "mirrors (players s p) (me c)" and "kind (board c) = kind (discarded_mj s)"
    and "\<forall>i \<in> {1, 2, 3}. player_fd (players s ((p + i) mod 4)) \<noteq> player_fd (players s p)"
    and "read_cnt s \<le> 0" and "\<forall>i. \<forall>e \<in> set (net s (player_fd (players s i))). line_event MAXLINE e" and "tidy c"
    and "sent t = sent s @ log" and "hears (said_to (player_fd (players s p)) log @ x) c"
    and "sent d = sent c @ log'" and "pending (player_fd (players s p)) s = said_to (player_fd (me c)) log' @ y"
    and "\<forall>m \<in> set (sent d). is_line (snd m) \<and> CHR ''%'' \<notin> set (snd m)"
  shows "r = Continue \<and> mirrors (players t p) (me d) \<and> hears x d \<and>
     (normal_capacity (players t p) = normal_capacity (players s p) \<and>
        (v = None \<or> f = is_add_hu_possible \<and> v = Some (1, q) \<and> winner t = p) \<or>
      normal_capacity (players t p) = normal_capacity (players s p) - 3 \<and>
        (v = Some (1, p) \<and> winner t = p \<or> v = Some (0, p) \<and> kind (board d) = kind (discarded_mj t)))"
proof -
  define z where "z = \<lparr>seat_no = p, seat_fds = \<lambda>i. player_fd (players s i), server_log = sent t, client_log = sent d,
    after_server = x, after_client = y\<rparr>"
  let ?n = "normal_capacity (players s p)"
  have own: "own_lines z" "plain z" "seat_no z = seat_after q k" using assms(2,11,19) by (simp_all add: own_lines_def plain_def z_def)
  have n: "?n \<le> 16" using assms(6) by (simp add: hand_ok_def)
  have "linked z s c" using assms(12,14-18) by (simp add: linked_def hearing_def z_def buffer_ok_def)
  moreover have "eating z ?n s (me c) (board c)" using assms(8-10) by (simp add: eating_def playing_def z_def)
  moreover have "orderly z s" "able z f s" using assms(5-7,12,13) by (simp_all add: orderly_def able_def z_def)
  ultimately have P: "link z (eating z ?n) s c \<and> orderly z s \<and> able z f s" by simp
  have "f = is_add_hu_possible \<and> decided z ?n (won_by z ?n q) v r t d \<or> decided z ?n (claimed_by z (?n - 3)) v r t d"
  proof (cases "claim = try_hu q k \<and> f = is_add_hu_possible")
    case True
    then have "link z (eating z ?n) s c \<and> orderly z s \<and> able z is_add_hu_possible s" "try_hu q k s = (Inr v, t)"
      using P assms(3) by simp_all
    from in_stepD [OF hu_claim_in_step [OF own(3)] this assms(4)] True show ?thesis by (simp add: z_def)
  next
    case False
    then have "claim = try_gang (\<lambda>p. ret (0, p)) q k \<and> f = is_gang_possible \<or> claim = try_pong (\<lambda>p. ret (0, p)) q k \<and> f = is_pong_possible \<or>
        claim = try_eat (\<lambda>p. ret (0, p)) q \<and> k = 1 \<and> f = is_eat_possible" using assms(1) by blast
    from in_stepD [OF claim_in_step [OF own(1,2) n own(3) this] P assms(3,4)] show ?thesis by (simp add: z_def)
  qed
  moreover have "hears x d" if "hearing z t d" using that by (simp add: hearing_def z_def)
  ultimately show ?thesis by (auto simp: decided_def won_by_def claimed_by_def linked_def playing_def discarded_def z_def)
qed

text \<open>A player eats with the tiles at the indices 0 and 1 and discards the tile at the index 0.\<close>

definition eat_table :: server where
  "eat_table = \<lparr>net = (\<lambda>fd. if fd = 6 then map Bytes
       [ack_line, ''YES!\<newline>'', ack_line, ''0 1\<newline>'', ack_line, ack_line, ''0\<newline>''] else [Bytes ack_line, Bytes ack_line]),
     read_cnt = 0, read_ptr = [], sent = [], console = [], recvline = [],
     players = (\<lambda>p. runs_hand\<lparr>player_fd := p + 5\<rparr>), shuffled_mjs = [], discarded_mj = tile 1 5,
     take_index = 0, winner = -1, rand_seq = (\<lambda>_. 0), rand_pos = 0, rset = {}, selects = []\<rparr>"

definition eat_client :: client where
  "eat_client = (new_client [])\<lparr>me := other_side runs_hand, board := tile 1 5, net := (\<lambda>fd. if fd = 3 then map Bytes
      [''You can eat.\<newline>'', ack_line, ''Type which 2 of the mjs you want to eat with: \<newline>'', ack_line, ''eatable.\<newline>'', ''cannot hu\<newline>'', ack_line]
     else if fd = 0 then map Bytes [''Y\<newline>'', ''0 1\<newline>'', ''0\<newline>''] else [])\<rparr>"

lemma eat_server_run:
  "fst (try_eat (\<lambda>p. ret (0, p)) 0 eat_table) = Inr (Some (0, 1))"
  "sent (snd (try_eat (\<lambda>p. ret (0, p)) 0 eat_table)) =
     map (Pair 6) [''You can eat.\<newline>'', ack_line, ''Type which 2 of the mjs you want to eat with: \<newline>'', ack_line, ''eatable.\<newline>''] @
     map (\<lambda>fd. (fd, ''(Announce) player 1 ate it\<newline>'')) [7, 8, 5] @ map (Pair 6) [''cannot hu\<newline>'', ack_line] @
     map (\<lambda>fd. (fd, ''(Discard) Player 1 discarded 9 WAN.\<newline>'')) [7, 8, 5]"
  by code_simp+

lemma eat_client_run:
  "fst (thenp listen_server dispatch eat_client) = Inr Continue"
  "sent (snd (thenp listen_server dispatch eat_client)) =
     map (Pair 3) [ack_line, ''YES!\<newline>'', ack_line, ''0 1\<newline>'', ack_line, ack_line, ''0\<newline>'']"
  by code_simp+

theorem claims_keep_step_witness:
  "\<exists>t d. try_eat (\<lambda>p. ret (0, p)) 0 eat_table = (Inr (Some (0, 1)), t) \<and> thenp listen_server dispatch eat_client = (Inr Continue, d) \<and>
     mirrors (players t 1) (me d) \<and> kind (board d) = kind (discarded_mj t)"
proof -
  obtain t where t: "try_eat (\<lambda>p. ret (0, p)) 0 eat_table = (Inr (Some (0, 1)), t)"
    using eat_server_run(1) by (cases "try_eat (\<lambda>p. ret (0, p)) 0 eat_table") auto
  obtain d where d: "thenp listen_server dispatch eat_client = (Inr Continue, d)"
    using eat_client_run(1) by (cases "thenp listen_server dispatch eat_client") auto
  have s: "players eat_table i = runs_hand\<lparr>player_fd := i + 5\<rparr>" "me eat_client = other_side runs_hand" "discarded_mj eat_table = tile 1 5"
    "board eat_client = tile 1 5" "player_fd (me eat_client) = 3" "sent eat_table = []" "sent eat_client = []" for i
    by (simp_all add: eat_table_def eat_client_def other_side_def new_client_def)
  have "hand_ok (players eat_table 1)" using runs_hand_ok unfolding s(1) by (simp add: hand_ok_def hand_def)
  moreover have "is_eat_possible (decks (players eat_table 1)) (normal_capacity (players eat_table 1)) (discarded_mj eat_table) = Some 1"
    by code_simp
  moreover have "mirrors (players eat_table 1) (me eat_client)"
    by (simp add: s mirrors_def face_def other_side_def)
  moreover have "\<forall>i. \<forall>e \<in> set (net eat_table (player_fd (players eat_table i))). line_event MAXLINE e"
    by (simp add: eat_table_def line_event_iff ack_line_def MAXLINE_def newline_def del: newline_simps)
  moreover have "tidy eat_client"
    unfolding tidy_def s(5)
    by (simp add: eat_client_def new_client_def line_event_iff ack_line_def MAXLINE_def newline_def del: newline_simps)
  moreover have "hears (said_to (player_fd (players eat_table 1)) (sent t) @ []) eat_client"
    using eat_server_run(2) t s(1,5)
    by (simp add: hears_def buffer_ok_def pending_def buffered_def eat_client_def new_client_def said_to_def ack_line_def)
  moreover have "pending (player_fd (players eat_table 1)) eat_table = said_to (player_fd (me eat_client)) (sent d) @ []"
    using eat_client_run(2) d s(1,5)
    by (simp add: pending_def buffered_def eat_table_def said_to_def ack_line_def del: thenp_apply)
  moreover have "\<forall>m \<in> set (sent d). is_line (snd m) \<and> CHR ''%'' \<notin> set (snd m)"
    using eat_client_run(2) d by (simp add: is_line_iff ack_line_def MAXLINE_def newline_def del: thenp_apply newline_simps)
  moreover have "1 = seat_after 0 1" "playable (tile 1 5)" "\<forall>m \<in> set (shuffled_mjs eat_table). good m" "read_cnt eat_table \<le> 0"
    "\<forall>i \<in> {1, 2, 3}. player_fd (players eat_table ((1 + i) mod 4)) \<noteq> player_fd (players eat_table 1)"
    by (simp_all add: seat_after_def runs_hand_eat eat_table_def)
  ultimately show ?thesis
    using claims_keep_step [of "try_eat (\<lambda>p. ret (0, p)) 0" 0 1 is_eat_possible 1 eat_table "Some (0, 1)" t eat_client Continue d
        "sent t" "[]" "sent d" "[]"] s(3,4,6,7) t d by auto
qed

end
