(* ===== verification/BoardStep.thy ===== *)
theory BoardStep
  imports ClaimStep
begin

text \<open>
  The table as the other players see it: what the server tells them, one after the other, and how a discard
  reaches the board of each of their clients, with which the claims of \<open>ClaimStep\<close> start.
\<close>

subsection \<open>The broadcast of a discard\<close>

text \<open>The server talks to another player.\<close>

lemma tell_aside:
  assumes "framed F" and "seat_fds x p \<noteq> seat_fds x (seat_no x)"
    and "in_step x (\<lambda>s c. (link x F s c \<and> K c) \<and> orderly x s) m k Q" and "growing m"
  shows "in_step x (\<lambda>s c. (link x F s c \<and> K c) \<and> orderly x s) (thenp (tell p l) m) k Q"
  unfolding thenp_def
proof (rule in_step_left_out [OF _ assms(3,4)], rule tripleI)
  fix c s v t
  assume s: "(link x F s c \<and> K c) \<and> orderly x s" and run: "tell p l s = (Inr v, t)"
  have "unnoticed x s s" using s by (simp add: unnoticed_def not_said_def)
  from triple_Inr [OF unnoticed_tell [OF assms(2)] this run] have t: "unnoticed x s t" .
  then have "F t (me c) (board c)" using s framedD [OF assms(1), of s c t c] by (simp add: unnoticed_def not_said_def)
  then show "(\<exists>log. server_log x = sent t @ log) \<longrightarrow> (link x F t c \<and> K c) \<and> orderly x t"
    using linked_unnoticed [OF _ _ t] s t by (simp add: unnoticed_def)
qed simp

text \<open>What every other client is told, with what it does then.\<close>

lemma others_in_step:
  assumes "framed F" and "k \<in> {1, 2, 3}" and "seat_no x = seat_after q k" and "is_line l" and "NUL \<notin> set l"
    and "\<And>i j. i \<in> {1, 2, 3} \<Longrightarrow> j \<in> {1, 2, 3} \<Longrightarrow> i \<noteq> j \<Longrightarrow> seat_fds x (seat_after q i) \<noteq> seat_fds x (seat_after q j)"
    and "in_step x (\<lambda>s c. (link x F s c \<and> recvline c = l) \<and> orderly x s) m k' Q" and "growing m" and "growing k'"
  shows "in_step x (\<lambda>s c. link x F s c \<and> orderly x s) (thenp (tell_others q l) m) (thenp listen_server k') Q"
proof -
  let ?P = "\<lambda>s c. link x F s c \<and> orderly x s"
  let ?R = "\<lambda>s c. (link x F s c \<and> recvline c = l) \<and> orderly x s"
  have assoc: "thenp (tell_others q l) m =
      thenp (tell (seat_after q 1) l) (thenp (tell (seat_after q 2) l) (thenp (tell (seat_after q 3) l) m))"
    by (rule ext) (simp add: tell_others_def seat_after_def split: prod.splits sum.splits)
  have own: "in_step x ?P (thenp (tell (seat_after q k) l) n) (thenp listen_server k') Q"
    if "in_step x ?R n k' Q" "growing n" for n
    using in_step_then [OF in_step_keep_left [OF tell_listen [OF assms(1,4,5)] tell_keeps_order] that(1) that(2) assms(9)] assms(3) by simp
  have before: "in_step x ?P (thenp (tell (seat_after q i) l) n) (thenp listen_server k') Q"
    if "in_step x ?P n (thenp listen_server k') Q" "growing n" "i \<in> {1, 2, 3}" "i \<noteq> k" for i n
    using tell_aside [OF assms(1) _ _ that(2), of x "seat_after q i" "\<lambda>_. True"] that(1) assms(6) [of i k] assms(2,3) that(3,4) by simp
  have after: "in_step x ?R (thenp (tell (seat_after q i) l) n) k' Q"
    if "in_step x ?R n k' Q" "growing n" "i \<in> {1, 2, 3}" "i \<noteq> k" for i n
    by (rule tell_aside [OF assms(1) _ that(1,2)]) (use assms(6) [of i k] assms(2,3) that(3,4) in simp)
  have g: "growing (thenp (tell p l) m)" "growing (thenp (tell p l) (thenp (tell p' l) m))" for p p'
    by (intro growing_intros grows assms(8))+
  consider "k = 1" | "k = 2" | "k = 3" using assms(2) by blast
  then show ?thesis
    unfolding assoc
  proof cases
    case 1
    then show "in_step x ?P (thenp (tell (seat_after q 1) l) (thenp (tell (seat_after q 2) l) (thenp (tell (seat_after q 3) l) m)))
        (thenp listen_server k') Q"
      using own [OF after [OF after [OF assms(7,8)] g(1)] g(2)] by simp
  next
    case 2
    then show "in_step x ?P (thenp (tell (seat_after q 1) l) (thenp (tell (seat_after q 2) l) (thenp (tell (seat_after q 3) l) m)))
        (thenp listen_server k') Q"
      using before [OF own [OF after [OF assms(7,8)] g(1)] g(2)] by simp
  next
    case 3
    then show "in_step x ?P (thenp (tell (seat_after q 1) l) (thenp (tell (seat_after q 2) l) (thenp (tell (seat_after q 3) l) m)))
        (thenp listen_server k') Q"
      using before [OF before [OF own [OF assms(7,8)] g(1)] g(2)] by simp
  qed
qed

subsection \<open>The board of a client\<close>

lemma dispatch_discard:
  assumes "recvline c = l" and "strncmp_eq l ''(Discard) '' 6" and "\<not> strncmp_eq l ''your turn\<newline>'' 10"
  shows "dispatch c = (Inr Continue, c\<lparr>message := cstr l, board := parse_discard l (board c), recvline := []\<rparr>)"
  using assms by (simp add: dispatch_def on_discard_def set_message_def clear_recvline_def set_recvline_def)

definition watching :: "session \<Rightarrow> mj \<Rightarrow> player \<Rightarrow> server \<Rightarrow> player \<Rightarrow> mj \<Rightarrow> bool" where
  "watching x d q0 s q b \<longleftrightarrow> discarded_mj s = d \<and> players s (seat_no x) = q0 \<and> mirrors q0 q"

lemma framed_watching: "framed (watching x d q0)"
  by (auto simp: framed_def watching_def dest: same_game)

definition own_seats :: "session \<Rightarrow> int \<Rightarrow> bool" where
  "own_seats x q \<longleftrightarrow> (\<forall>i \<in> {1, 2, 3}. \<forall>j \<in> {1, 2, 3}. i \<noteq> j \<longrightarrow> seat_fds x (seat_after q i) \<noteq> seat_fds x (seat_after q j))"

lemma broadcast_in_step:
  assumes "k \<in> {1, 2, 3}" and "seat_no x = seat_after q k" and "q \<in> {0..3}" and "own_seats x q" and "playable d"
  shows "in_step x (\<lambda>s c. link x (watching x d q0) s c \<and> orderly x s) (broadcast_discard_mj q) (thenp listen_server dispatch)
     (\<lambda>_ r s c. r = Continue \<and> link x (watching x d q0) s c \<and> kind (board c) = kind d)" (is "in_step x ?P _ _ ?Q")
  unfolding broadcast_discard_mj_def
proof (rule in_step_left_get)
  obtain l where l: "discard_text q d = Some l" "length l < 100" "NUL \<notin> set l" "l \<noteq> []" "last l = newline" "newline \<notin> set (butlast l)"
    "strncmp_eq l ''(Discard) '' 6" "\<not> strncmp_eq l ''your turn\<newline>'' 10" "\<And>b. kind (parse_discard l b) = kind d"
    by (rule discard_line [OF assms(3,5)]) blast
  have line: "is_line l" using l(2,4-6) by (simp add: is_line_iff MAXLINE_def)
  have heard: "in_step x (\<lambda>s c. (link x (watching x d q0) s c \<and> recvline c = l) \<and> orderly x s) (ret (0 :: int)) dispatch ?Q"
  proof (rule in_stepI)
    fix s c and v :: int and w t e
    assume P: "(link x (watching x d q0) s c \<and> recvline c = l) \<and> orderly x s" and run: "ret 0 s = (Inr v, t)" "dispatch c = (Inr w, e)"
    have e: "t = s" "w = Continue" "e = c\<lparr>message := cstr l, board := parse_discard l (board c), recvline := []\<rparr>"
      using run dispatch_discard [of c l] P l(7,8) by auto
    have "linked x s e" by (rule linked_client [of x s c]) (use P in \<open>simp_all add: e\<close>)
    then show "?Q v w t e" using P l(9) by (simp add: e watching_def)
  qed
  have told: "in_step x ?P (thenp (tell_others q l) (ret 0)) (thenp listen_server dispatch) ?Q"
  proof (rule others_in_step [OF framed_watching assms(1,2) line l(3) _ heard])
    show "growing (ret 0 :: (server, int) prog)" by (rule grows)
  qed (use assms(4) growing_dispatch in \<open>auto simp: own_seats_def\<close>)
  fix d'
  show "in_step x (\<lambda>s c. ?P s c \<and> d' = discarded_mj s) (case discard_text q d' of None \<Rightarrow> ret 0 | Some msg \<Rightarrow> thenp (tell_others q msg) (ret 0))
      (thenp listen_server dispatch) ?Q"
  proof (rule in_step_pure [where b = "d' = d"])
    assume d: "d' = d"
    show ?thesis unfolding d l(1) option.case by (rule in_step_pre [OF told]) blast
  qed (auto simp: watching_def)
qed

subsection \<open>Properties\<close>

text \<open>
  Property C16: a discard reaches the boards of the table. When the server has broadcast the discard of the player \<open>q\<close>,
  the client of each other player \<open>p\<close>, which hears the line over the socket and handles it, has a tile of that kind on its
  board, holds the hand that the server keeps for it as before, has read just what was written to it and goes on to
  the next message. So each of them is where \<open>claims_keep_step\<close> starts.
\<close>

theorem discard_reaches_boards:
  assumes "broadcast_discard_mj q s = (Inr v, t)" and "thenp listen_server dispatch c = (Inr r, d)"
    and "q \<in> {0..3}" and "k \<in> {1, 2, 3}" and "p = seat_after q k" and "playable (discarded_mj s)"
    and "mirrors (players s p) (me c)"
    and "\<forall>i \<in> {1, 2, 3}. \<forall>j \<in> {1, 2, 3}. i \<noteq> j \<longrightarrow> player_fd (players s (seat_after q i)) \<noteq> player_fd (players s (seat_after q j))"
    and "read_cnt s \<le> 0" and "\<forall>i. \<forall>e \<in> set (net s (player_fd (players s i))). line_event MAXLINE e" and "tidy c"
    and "sent t = sent s @ log" and "hears (said_to (player_fd (players s p)) log @ x) c"
    and "sent d = sent c @ log'" and "pending (player_fd (players s p)) s = said_to (player_fd (me c)) log' @ y"
  shows "r = Continue \<and> kind (board d) = kind (discarded_mj t) \<and> discarded_mj t = discarded_mj s \<and>
     mirrors (players t p) (me d) \<and> players t p = players s p \<and> hears x d"
proof -
  define z where "z = \<lparr>seat_no = p, seat_fds = \<lambda>i. player_fd (players s i), server_log = sent t, client_log = sent d,
    after_server = x, after_client = y\<rparr>"
  have own: "seat_no z = seat_after q k" "own_seats z q" using assms(5,8) by (simp_all add: own_seats_def z_def)
  have "linked z s c" using assms(9,11-15) by (simp add: linked_def hearing_def z_def buffer_ok_def)
  moreover have "watching z (discarded_mj s) (players s p) s (me c) (board c)" "orderly z s"
    using assms(7,9,10) by (simp_all add: watching_def orderly_def z_def)
  ultimately have P: "link z (watching z (discarded_mj s) (players s p)) s c \<and> orderly z s" by simp
  have "r = Continue \<and> link z (watching z (discarded_mj s) (players s p)) t d \<and> kind (board d) = kind (discarded_mj s)"
    using in_stepD [OF broadcast_in_step [OF assms(4) own(1) assms(3) own(2) assms(6)] P assms(1,2)] by (simp add: z_def)
  then show ?thesis by (auto simp: linked_def hearing_def watching_def z_def)
qed

definition watching_client :: client where
  "watching_client = (new_client [])\<lparr>me := other_side runs_hand,
     net := (\<lambda>fd. if fd = 3 then [Bytes ''(Discard) Player 0 discarded 5 TONG.\<newline>''] else [])\<rparr>"

lemma broadcast_run:
  "fst (broadcast_discard_mj 0 eat_table) = Inr 0"
  "sent (snd (broadcast_discard_mj 0 eat_table)) = map (\<lambda>fd. (fd, ''(Discard) Player 0 discarded 5 TONG.\<newline>'')) [6, 7, 8]"
  "fst (thenp listen_server dispatch watching_client) = Inr Continue"
  "sent (snd (thenp listen_server dispatch watching_client)) = [(3, ack_line)]"
  by code_simp+

theorem discard_reaches_boards_witness:
  "\<exists>t d. broadcast_discard_mj 0 eat_table = (Inr 0, t) \<and> thenp listen_server dispatch watching_client = (Inr Continue, d) \<and>
     kind (board d) = (1, 5)"
proof -
  obtain t where t: "broadcast_discard_mj 0 eat_table = (Inr 0, t)"
    using broadcast_run(1) by (cases "broadcast_discard_mj 0 eat_table") auto
  obtain d where d: "thenp listen_server dispatch watching_client = (Inr Continue, d)"
    using broadcast_run(3) by (cases "thenp listen_server dispatch watching_client") auto
  have s: "players eat_table i = runs_hand\<lparr>player_fd := i + 5\<rparr>" "me watching_client = other_side runs_hand" "discarded_mj eat_table = tile 1 5"
    "player_fd (me watching_client) = 3" "sent eat_table = []" "sent watching_client = []" for i
    by (simp_all add: eat_table_def watching_client_def other_side_def new_client_def)
  have "mirrors (players eat_table 2) (me watching_client)"
    by (simp add: s mirrors_def face_def other_side_def)
  moreover have "\<forall>i. \<forall>e \<in> set (net eat_table (player_fd (players eat_table i))). line_event MAXLINE e"
    by (simp add: eat_table_def line_event_iff ack_line_def MAXLINE_def newline_def del: newline_simps)
  moreover have "tidy watching_client"
    unfolding tidy_def s(4)
    by (simp add: watching_client_def new_client_def line_event_iff MAXLINE_def newline_def del: newline_simps)
  moreover have "hears (said_to (player_fd (players eat_table 2)) (sent t) @ []) watching_client"
    using broadcast_run(2) t s(1,4)
    by (simp add: hears_def buffer_ok_def pending_def buffered_def watching_client_def new_client_def said_to_def)
  moreover have "pending (player_fd (players eat_table 2)) eat_table = said_to (player_fd (me watching_client)) (sent d) @ ack_line"
    using broadcast_run(4) d s(1,4)
    by (simp add: pending_def buffered_def eat_table_def said_to_def ack_line_def del: thenp_apply)
  moreover have "2 = seat_after 0 2" "playable (tile 1 5)" "read_cnt eat_table \<le> 0"
    "\<forall>i \<in> {1, 2, 3}. \<forall>j \<in> {1, 2, 3}. i \<noteq> j \<longrightarrow>
       player_fd (players eat_table (seat_after 0 i)) \<noteq> player_fd (players eat_table (seat_after 0 j))"
    by (simp_all add: seat_after_def runs_hand_eat eat_table_def)
  ultimately have "kind (board d) = kind (discarded_mj t) \<and> discarded_mj t = discarded_mj eat_table"
    using discard_reaches_boards [OF t d, where k = 2 and p = 2 and log = "sent t" and x = "[]" and log' = "sent d" and y = ack_line]
      s(3,5,6) by simp
  then show ?thesis using t d s(3) by (simp add: tile_def kind_def)
qed

end
