(* ===== verification/Spec2Isabelle.thy ===== *)
theory Spec2Isabelle
  imports ServerMain PointCount UnpIO TurnBounds Addresses Checksum Aton Prototypes Gathering BoardStep
begin

text \<open>
  A verification library for the online mahjong table of this repository: a server that is the table of
  four players (UIED_Mahjong_server.c), the client of a player (UIED_Mahjong_client.c), the count of the
  points of a hand (point_count.c), two prototypes of the display, and the parts of the bundled network
  library (unpv13e) that they are linked with or that have logic of their own.

  \<^bold>\<open>The program.\<close> The server waits for four clients (\<open>connection_establish\<close>), forks a process for the
  table and plays up to four rounds (\<open>game\<close>): shuffle and deal, then the turns. A turn is a draw, the offer
  to win, the quiet gang and a discard (\<open>draw_n_discard\<close>); then the others may win, gang, pong or eat the
  discarded tile (\<open>othersreaction\<close>), and each claim ends in a discard of its own. Every message is one
  line, and its receiver answers with the line \<open>ACK\<close>. No tile is sent twice: each client repeats on its own
  arrays what the server does on its copy of the hand.

  \<^bold>\<open>How the model is built.\<close> A statement sequence is a function from the state to a result and the new state
  (\<open>prog\<close> of Prelude); a result is a value or a \<open>fault\<close>: \<open>exit\<close>, undefined behaviour, or a run without end.
  Every array access is checked, and one outside its array is undefined behaviour. The state of each
  process is a record that extends \<open>io\<close> (UnpRead): what the coming \<open>read\<close> calls return on each
  descriptor, the static buffer of \<open>readline\<close>, what was written and printed. \<open>server\<close> and \<open>host\<close> add the
  globals of the server, \<open>client\<close> those of the client; the results of \<open>rand\<close>, \<open>select\<close>, \<open>accept\<close>, \<open>fork\<close>
  and \<open>malloc\<close> are data of these records. An array of the C is a list of its fixed length, an \<open>int\<close> is
  an \<open>int\<close> where it stays in range (the lemmas on bounds say so) and a word where the code lets it wrap
  (Checksum, Aton).

  \<^bold>\<open>Theories and sources.\<close>
    \<^item> Prelude, CString: programs, triples, checked arrays; \<open>strncmp\<close>, \<open>%d\<close>, \<open>sscanf\<close>.
    \<^item> UnpRead: lib/readline.c. UnpIO: lib/readn.c, lib/writen.c, the IPv4 part of libfree/inet_pton.c and
      inet_ntop.c. Addresses: their IPv6 part and the dispatch over the family. Aton: libfree/inet_aton.c.
      Checksum: libfree/in_cksum.c.
    \<^item> Messages: \<open>write_message_wait_ack\<close> and \<open>read_and_ack\<close> of both programs, and their contract.
    \<^item> Tiles, QuickSort, Display, HuCheck: \<open>mj_compare\<close>, the two sorts, \<open>print_deck\<close>, \<open>hu_check\<close>.
    \<^item> ServerState, Wall, ServerTurn, Reaction, ServerGame, ServerMain: the server from top to bottom, a group of
      definitions per function, in the order of the file.
    \<^item> ClientState, ClientTurn, ClientGame: the client likewise.
    \<^item> PointCount: point_count.c. Prototypes: UItest.c and UItest2.c.
    \<^item> Table, Deal, Melds, Answers, Turns, TurnBounds, Gathering, Choices: what the operations do. Table counts the
      tiles on the table, Deal follows a round to the dealt hands, Melds follows a discard and the claims on a
      sorted hand, Answers shows that the deal returns, Turns looks at one turn of the server, TurnBounds at
      where such a turn can leave an array, Gathering at the four seats, Choices at the discard of a client.
    \<^item> Protocol, Mirror, Session, TurnStep, ClaimStep, BoardStep: server and client together. Protocol has the round
      trips of the lines, Mirror the relation between the two copies of a hand and what respects it, Session a
      relational logic for the two runs over one connection; in it TurnStep follows a whole turn, ClaimStep
      each claim on a discard up to the next discard, and BoardStep a discard to the boards of the other clients.

  \<^bold>\<open>Contracts.\<close> \<open>range_sort\<close> is what the callers need of a sort; both sorts of the server interpret it.
  \<open>exchange\<close> is the contract of the message exchange; the functions of the server and of the client
  interpret it. \<open>turn_invariant\<close> and \<open>game_invariant\<close> collect what a property of the game must be closed
  under to survive a turn or a whole round; the sizes of the arrays, the length of the wall, the
  tiles in all hands and the absence of a winner interpret them.

  \<^bold>\<open>What the groups of lemmas show.\<close> The sorts permute exactly their range and sort it. The search for melds
  decides its specification and restores its array. A round is dealt without losing a tile; the turns
  end when the input of the clients does, and end fairly; a turn from a hand in order leaves its arrays only by
  the index of a discard. A claim is offered exactly when it can be made
  and moves the meld, with one exception that loses a tile (\<open>eat_loses_tile\<close>). The client
  understands what the server writes and ends up with the same hand, up to a whole turn or a whole claim over
  the socket. Where the code goes wrong, a theorem says how: a draw past the wall, an
  index that is not checked, a loop that only the answers can end, a quiet gang without its replacement, a buffer that belongs to nobody, text
  that is never read.

  \<^bold>\<open>Bounds of the loops.\<close> A loop whose end is not evident has fuel, and running out of it is the fault
  \<open>Diverges\<close>, which the lemmas exclude. \<open>regrab\<close> has 64, more than the four passes over eight flowers can
  use; \<open>draw\<close> and the quiet gangs have one more than the tiles left in the wall; \<open>othersreaction\<close> one more
  than the tiles in all hands, since every claim takes three; the loops that read have one more than
  what is unread. \<open>choose_loop\<close> of the client has the size of the input, and the loop that does not end
  on text is one that does not end for any fuel.

  What is unread on a descriptor is a finite list, and behind its end is the end of the file; a peer that
  answers for ever, or is silent for ever, is no state of the model. A claim that a loop ends is therefore one
  about clients whose input ends. Where the code itself has no other bound, which is the loop of
  the eat, the theorem says so and what each further answer does (\<open>turns_end\<close>).

  \<^bold>\<open>Not modelled.\<close> The other files of unpv13e are wrappers of system calls, examples of a textbook, headers
  and copies for old systems: no function of the game reaches them, or what they do is the system's.
  \<open>system("clear")\<close>, \<open>sleep\<close>, \<open>signal\<close>, \<open>srand\<close> and the fields of \<open>sockaddr\<close> have no part in the state.
  The outcomes of system calls are arguments in the sense above, never assumed to be good.
\<close>

end
